(* ===== verification/Hoshino_Prelude.thy ===== *)
theory Hoshino_Prelude
  imports Complex_Main "HOL-Library.Word" "HOL-Library.Multiset" "HOL-Library.List_Lexorder"
    "HOL-Library.Char_ord"
begin

text \<open>
  Shared vocabulary of the development: the widths of Go's integers, the wrap-around of
  \<open>int64\<close>, the collections of facts the component theories fill, and generic lemmas on lists,
  sums and orders used by several components.

  Go's \<open>uint32\<close> and \<open>uint64\<close> are words, so that addition, subtraction and shifts wrap as they
  do in Go. Go's \<open>int64\<close> (sizes, totals, durations) is \<open>int\<close> with the wrap-around written out
  by \<open>i64\<close>. Strings are byte lists; their order is the bytewise lexicographic one, which is how Go
  compares strings.
\<close>

section \<open>Types and collections\<close>

type_synonym u32 = "32 word"
type_synonym u64 = "64 word"
type_synonym time = int \<comment> \<open>an instant, in nanoseconds since the Unix epoch\<close>
type_synonym duration = int \<comment> \<open>\<open>time.Duration\<close>: an \<open>int64\<close> count of nanoseconds\<close>

named_theorems frame_simps \<open>fields an operation leaves alone\<close>
named_theorems inv_intros \<open>an operation keeps its component's invariant\<close>

section \<open>Signed 64-bit arithmetic\<close>

definition i64 :: "int \<Rightarrow> int" where
  "i64 x = signed_take_bit 63 x"

definition i64_add :: "int \<Rightarrow> int \<Rightarrow> int" where
  "i64_add x y = i64 (x + y)"

definition i64_sub :: "int \<Rightarrow> int \<Rightarrow> int" where
  "i64_sub x y = i64 (x - y)"

definition in_i64 :: "int \<Rightarrow> bool" where
  "in_i64 x \<longleftrightarrow> - (2 ^ 63) \<le> x \<and> x < 2 ^ 63"

lemma i64_id [simp]: "in_i64 x \<Longrightarrow> i64 x = x"
  by (simp add: i64_def in_i64_def signed_take_bit_int_eq_self)

lemma i64_in_range: "in_i64 (i64 x)"
  unfolding i64_def in_i64_def
  using signed_take_bit_int_greater_eq_minus_exp [of 63 x] signed_take_bit_int_less_exp [of 63 x]
  by simp

section \<open>Lists\<close>

definition swap_list :: "'a list \<Rightarrow> nat \<Rightarrow> nat \<Rightarrow> 'a list" where
  "swap_list xs i j = xs[i := xs ! j, j := xs ! i]"

lemma length_swap_list [simp]: "length (swap_list xs i j) = length xs"
  by (simp add: swap_list_def)

lemma nth_swap_list:
  "i < length xs \<Longrightarrow> j < length xs \<Longrightarrow> k < length xs \<Longrightarrow>
   swap_list xs i j ! k = (if k = j then xs ! i else if k = i then xs ! j else xs ! k)"
  by (simp add: swap_list_def nth_list_update)

lemma mset_swap_list [simp]:
  "i < length xs \<Longrightarrow> j < length xs \<Longrightarrow> mset (swap_list xs i j) = mset xs"
  by (simp add: swap_list_def mset_swap)

lemma map_swap_list:
  "i < length xs \<Longrightarrow> j < length xs \<Longrightarrow> map f (swap_list xs i j) = swap_list (map f xs) i j"
  by (simp add: swap_list_def map_update)

lemma set_swap_list [simp]:
  "i < length xs \<Longrightarrow> j < length xs \<Longrightarrow> set (swap_list xs i j) = set xs"
  by (metis mset_swap_list set_mset_mset)

lemma distinct_swap_list [simp]:
  "i < length xs \<Longrightarrow> j < length xs \<Longrightarrow> distinct (swap_list xs i j) = distinct xs"
  by (metis mset_swap_list mset_eq_imp_distinct_iff)

section \<open>Sorting\<close>

text \<open>A sort by a Go \<open>less\<close> function. Go does not say how its sorts order elements that compare equal;
  where that matters the sort is a parameter with \<open>sorts_by\<close> as its contract, and this one is an
  instance. Where the elements are totally ordered, every sort that meets the contract gives the
  same result (\<open>sorted_total_unique\<close>).\<close>

primrec insert_by :: "('a \<Rightarrow> 'a \<Rightarrow> bool) \<Rightarrow> 'a \<Rightarrow> 'a list \<Rightarrow> 'a list" where
  "insert_by lt x [] = [x]"
| "insert_by lt x (y # ys) = (if lt y x then y # insert_by lt x ys else x # y # ys)"

primrec go_sort :: "('a \<Rightarrow> 'a \<Rightarrow> bool) \<Rightarrow> 'a list \<Rightarrow> 'a list" where
  "go_sort lt [] = []"
| "go_sort lt (x # xs) = insert_by lt x (go_sort lt xs)"

lemma mset_insert_by [simp]: "mset (insert_by lt x ys) = add_mset x (mset ys)"
  by (induction ys) auto

lemma mset_go_sort [simp]: "mset (go_sort lt xs) = mset xs"
  by (induction xs) auto

lemma set_go_sort [simp]: "set (go_sort lt xs) = set xs"
  by (metis mset_go_sort set_mset_mset)

lemma length_go_sort [simp]: "length (go_sort lt xs) = length xs"
  by (metis mset_go_sort size_mset)

lemma set_insert_by [simp]: "set (insert_by lt x ys) = insert x (set ys)"
  using mset_insert_by [of lt x ys] by (metis set_mset_add_mset_insert set_mset_mset)

lemma sorted_total_unique:
  assumes "\<And>x y. P x y \<Longrightarrow> P y x \<Longrightarrow> x = y" "sorted_wrt P xs" "sorted_wrt P ys" "mset xs = mset ys"
  shows "xs = ys"
  using assms(2-4)
proof (induction xs arbitrary: ys)
  case (Cons x xs)
  then obtain y ys' where ys: "ys = y # ys'" by (cases ys) auto
  have "x \<in> set ys" "y \<in> set (x # xs)"
    using Cons.prems(3) ys by (metis list.set_intros(1) set_mset_mset)+
  then have "x = y" using Cons.prems(1,2) ys assms(1) by auto
  then show ?case using Cons ys by auto
qed simp

end
