(* ===== verification/Float64.thy ===== *)
theory Float64
  imports Hoshino_Prelude "HOL-Library.Log_Nat"
begin

text \<open>
  Go's \<open>float64\<close>: a finite value is the rational it denotes, results are rounded to the nearest
  double with ties to even, overflow gives an infinity, and the comparisons are false on NaN.
  The two zeros are not told apart: no operation below divides by a negative zero. The lemmas are
  the ones the pressure computation rests on: rounding is monotone, and every integer up to
  \<open>2 ^ 53\<close> is exact.
\<close>

datatype float64 = NaN | PosInf | NegInf | Fin rat

section \<open>Rounding\<close>

definition pow2 :: "int \<Rightarrow> rat" where
  "pow2 e = (if 0 \<le> e then 2 ^ nat e else 1 / 2 ^ nat (- e))"

text \<open>The exponent of the binade of a positive rational: \<open>pow2 e \<le> x < pow2 (e + 1)\<close>.\<close>

definition rat_log2 :: "rat \<Rightarrow> int" where
  "rat_log2 x =
     (let (p, q) = quotient_of x; e = bitlen p - bitlen q in if pow2 e \<le> x then e else e - 1)"

definition round_even :: "rat \<Rightarrow> int" where
  "round_even x =
     (let f = \<lfloor>x\<rfloor>; d = x - of_int f
      in if d < 1 / 2 then f else if 1 / 2 < d then f + 1 else if even f then f else f + 1)"

definition ulp_exp :: "rat \<Rightarrow> int" where
  "ulp_exp x = max (- 1074) (rat_log2 x - 52)"

definition round_pos :: "rat \<Rightarrow> rat" where
  "round_pos x = of_int (round_even (x / pow2 (ulp_exp x))) * pow2 (ulp_exp x)"

definition round64 :: "rat \<Rightarrow> float64" where
  "round64 x =
     (if x = 0 then Fin 0
      else let y = round_pos \<bar>x\<bar>
           in if 2 ^ 1024 \<le> y then (if 0 < x then PosInf else NegInf)
              else Fin (if 0 < x then y else - y))"

section \<open>Operations\<close>

definition float_of_u64 :: "u64 \<Rightarrow> float64" where
  "float_of_u64 w = round64 (of_nat (unat w))"

fun fdiv :: "float64 \<Rightarrow> float64 \<Rightarrow> float64" where
  "fdiv (Fin a) (Fin b) =
     (if b = 0 then (if a = 0 then NaN else if 0 < a then PosInf else NegInf) else round64 (a / b))"
| "fdiv NaN y = NaN"
| "fdiv x NaN = NaN"
| "fdiv (Fin a) PosInf = Fin 0"
| "fdiv (Fin a) NegInf = Fin 0"
| "fdiv PosInf (Fin b) = (if 0 \<le> b then PosInf else NegInf)"
| "fdiv NegInf (Fin b) = (if 0 \<le> b then NegInf else PosInf)"
| "fdiv x y = NaN"

fun fmul :: "float64 \<Rightarrow> float64 \<Rightarrow> float64" where
  "fmul (Fin a) (Fin b) = round64 (a * b)"
| "fmul NaN y = NaN"
| "fmul x NaN = NaN"
| "fmul (Fin a) y = (if a = 0 then NaN else if (0 < a) = (y = PosInf) then PosInf else NegInf)"
| "fmul x (Fin b) = (if b = 0 then NaN else if (0 < b) = (x = PosInf) then PosInf else NegInf)"
| "fmul x y = (if x = y then PosInf else NegInf)"

fun flt :: "float64 \<Rightarrow> float64 \<Rightarrow> bool" where
  "flt (Fin a) (Fin b) \<longleftrightarrow> a < b"
| "flt (Fin a) PosInf \<longleftrightarrow> True"
| "flt NegInf (Fin b) \<longleftrightarrow> True"
| "flt NegInf PosInf \<longleftrightarrow> True"
| "flt _ _ \<longleftrightarrow> False"

definition fle :: "float64 \<Rightarrow> float64 \<Rightarrow> bool" where
  "fle x y \<longleftrightarrow> flt x y \<or> (x = y \<and> x \<noteq> NaN)"

definition isInf :: "float64 \<Rightarrow> bool" where
  "isInf x \<longleftrightarrow> x = PosInf \<or> x = NegInf"

declare of_nat_unat [simp del] \<comment> \<open>keep the rounded value in terms of \<open>unat\<close>\<close>

lemma fle_Fin [simp]: "fle (Fin a) (Fin b) \<longleftrightarrow> a \<le> b"
  by (auto simp: fle_def)

lemma fle_NaN [simp]: "\<not> fle NaN x" "\<not> fle x NaN"
  by (cases x; simp add: fle_def)+

lemma flt_NaN [simp]: "\<not> flt NaN x" "\<not> flt x NaN"
  by (cases x; simp)+

section \<open>Bounds and monotonicity of rounding\<close>

lemma pow2_powi: "pow2 e = 2 powi e"
  by (simp add: pow2_def power_int_def power_one_over)

lemma pow2_pos [simp]: "0 < pow2 e"
  by (simp add: pow2_def)

lemma pow2_add: "pow2 (a + b) = pow2 a * pow2 b"
  by (simp add: pow2_powi power_int_add)

lemma pow2_mono: "a \<le> b \<Longrightarrow> pow2 a \<le> pow2 b"
  by (simp add: pow2_powi power_int_increasing)

lemma pow2_nat [simp]: "pow2 (int n) = 2 ^ n"
  by (simp add: pow2_def)

lemma bitlen_pow2_bounds:
  assumes "0 < p" shows "pow2 (bitlen p - 1) \<le> of_int p \<and> of_int p < pow2 (bitlen p)"
proof -
  have "1 \<le> bitlen p"
    using assms bitlen_nonneg [of p] bitlen_eq_zero_iff [of p] by linarith
  then have "pow2 (bitlen p - 1) = of_int (2 ^ nat (bitlen p - 1))" "pow2 (bitlen p) = of_int (2 ^ nat (bitlen p))"
    by (simp_all add: pow2_def)
  then show ?thesis using bitlen_bounds [OF assms] by (simp only: of_int_le_iff of_int_less_iff)
qed

lemma rat_log2_bounds:
  assumes "0 < x"
  shows "pow2 (rat_log2 x) \<le> x \<and> x < pow2 (rat_log2 x + 1)"
proof -
  obtain p q where pq: "quotient_of x = (p, q)" by fastforce
  define e where "e = bitlen p - bitlen q"
  have q: "0 < q" using quotient_of_denom_pos [OF pq] .
  have x: "x = of_int p / of_int q" using quotient_of_div [OF pq] .
  have p: "0 < p" using assms q by (simp add: x zero_less_divide_iff)
  note P = bitlen_pow2_bounds [OF p, THEN conjunct1] bitlen_pow2_bounds [OF p, THEN conjunct2]
  note Q = bitlen_pow2_bounds [OF q, THEN conjunct1] bitlen_pow2_bounds [OF q, THEN conjunct2]
  have "pow2 (e - 1) * of_int q \<le> pow2 (e - 1) * pow2 (bitlen q)"
    using Q by simp
  also have "\<dots> = pow2 (bitlen p - 1)" by (simp add: e_def flip: pow2_add)
  finally have lo: "pow2 (e - 1) \<le> x" using P q by (simp add: x pos_le_divide_eq)
  have "of_int p < pow2 (e + 1) * pow2 (bitlen q - 1)"
    using P by (simp add: e_def flip: pow2_add)
  also have "\<dots> \<le> pow2 (e + 1) * of_int q" using Q by simp
  finally have hi: "x < pow2 (e + 1)" using q by (simp add: x pos_divide_less_eq)
  show ?thesis using lo hi by (auto simp: rat_log2_def pq Let_def simp flip: e_def)
qed

lemma rat_log2_mono: assumes "0 < x" "x \<le> y" shows "rat_log2 x \<le> rat_log2 y"
proof (rule ccontr)
  assume "\<not> ?thesis"
  then have "pow2 (rat_log2 y + 1) \<le> pow2 (rat_log2 x)" by (intro pow2_mono) simp
  with assms rat_log2_bounds [of x] rat_log2_bounds [of y] show False by simp
qed

lemma round_even_mono: assumes "x \<le> y" shows "round_even x \<le> round_even y"
proof (cases "\<lfloor>x\<rfloor> = \<lfloor>y\<rfloor>")
  case True
  then show ?thesis using assms by (auto simp: round_even_def Let_def)
next
  case False
  then have "\<lfloor>x\<rfloor> + 1 \<le> \<lfloor>y\<rfloor>" using floor_mono [OF assms] by simp
  moreover have "round_even x \<le> \<lfloor>x\<rfloor> + 1" "\<lfloor>y\<rfloor> \<le> round_even y"
    by (auto simp: round_even_def Let_def)
  ultimately show ?thesis by simp
qed

lemma round_even_of_int [simp]: "round_even (of_int n) = n"
  by (simp add: round_even_def)

lemma round_even_num [simp]: "round_even 0 = 0" "round_even (numeral k) = numeral k"
  using round_even_of_int [of 0] round_even_of_int [of "numeral k"] by (simp_all only: of_int_0 of_int_numeral)

lemma round_pos_nonneg: "0 \<le> x \<Longrightarrow> 0 \<le> round_pos x"
  using round_even_mono [of 0 "x / pow2 (ulp_exp x)"] pow2_pos [of "ulp_exp x"]
  by (simp add: round_pos_def divide_nonneg_pos less_imp_le zero_le_mult_iff)

text \<open>Rounding within one binade stays between its two ends.\<close>

lemma round_pos_upper:
  assumes "0 < x" shows "round_pos x \<le> pow2 (ulp_exp x + 53)"
proof -
  have "x < pow2 (rat_log2 x + 1)" using rat_log2_bounds [OF assms] by simp
  also have "\<dots> \<le> pow2 (53 + ulp_exp x)" by (rule pow2_mono) (simp add: ulp_exp_def)
  finally have "x / pow2 (ulp_exp x) \<le> pow2 53" by (simp add: pow2_add pos_divide_le_eq)
  then have "round_even (x / pow2 (ulp_exp x)) \<le> 2 ^ 53"
    using round_even_mono [of _ "of_int (2 ^ 53)"] by (simp add: pow2_def [of 53])
  then have "of_int (round_even (x / pow2 (ulp_exp x))) \<le> (2 ^ 53 :: rat)"
    by (metis of_int_le_iff of_int_numeral of_int_power)
  then show ?thesis by (simp add: round_pos_def pow2_add mult.commute pow2_def [of 53])
qed

lemma round_pos_lower:
  assumes "0 < x" "ulp_exp x = rat_log2 x - 52" shows "pow2 (rat_log2 x) \<le> round_pos x"
proof -
  have "pow2 (52 + ulp_exp x) \<le> x" using rat_log2_bounds [OF assms(1)] assms(2) by simp
  then have "of_int (2 ^ 52) \<le> x / pow2 (ulp_exp x)"
    by (simp add: pow2_add pos_le_divide_eq pow2_def [of 52])
  then have "2 ^ 52 \<le> round_even (x / pow2 (ulp_exp x))"
    using round_even_mono round_even_of_int by metis
  then have "(2 ^ 52 :: rat) \<le> of_int (round_even (x / pow2 (ulp_exp x)))"
    by (metis of_int_le_iff of_int_numeral of_int_power)
  then have "pow2 52 * pow2 (ulp_exp x) \<le> round_pos x"
    by (simp add: round_pos_def pow2_def [of 52])
  then show ?thesis by (simp add: assms(2) flip: pow2_add)
qed

lemma round_pos_mono:
  assumes "0 < x" "x \<le> y" shows "round_pos x \<le> round_pos y"
proof (cases "ulp_exp x = ulp_exp y")
  case True
  have "round_even (x / pow2 (ulp_exp y)) \<le> round_even (y / pow2 (ulp_exp y))"
    using assms by (intro round_even_mono) (simp add: divide_right_mono less_imp_le)
  then show ?thesis by (simp add: round_pos_def True)
next
  case False
  with rat_log2_mono [OF assms] have e: "ulp_exp y = rat_log2 y - 52" "ulp_exp x + 53 \<le> rat_log2 y"
    by (auto simp: ulp_exp_def max_def split: if_splits)
  have "round_pos x \<le> pow2 (ulp_exp x + 53)" by (rule round_pos_upper [OF assms(1)])
  also have "\<dots> \<le> pow2 (rat_log2 y)" by (rule pow2_mono [OF e(2)])
  also have "\<dots> \<le> round_pos y" using assms e by (intro round_pos_lower) auto
  finally show ?thesis .
qed

lemma round64_mono_nonneg:
  assumes "0 \<le> x" "x \<le> y" shows "fle (round64 x) (round64 y)"
proof (cases "x = 0")
  case True
  then show ?thesis using assms round_pos_nonneg [of y]
    by (auto simp: round64_def Let_def fle_def)
next
  case False
  with assms have "0 < x" "0 < y" by auto
  with round_pos_mono [OF this(1) assms(2)] show ?thesis
    by (auto simp: round64_def Let_def fle_def)
qed

text \<open>Integers up to \<open>2 ^ 53\<close> are doubles.\<close>

lemma round_pos_nat:
  assumes "0 < n" "n \<le> 2 ^ 53" shows "round_pos (of_nat n) = of_nat n"
proof -
  have x: "0 < (of_nat n :: rat)" using assms by simp
  have "rat_log2 (of_nat n) \<le> 53"
  proof (rule ccontr)
    assume "\<not> ?thesis"
    then have "pow2 54 \<le> pow2 (rat_log2 (of_nat n))" by (intro pow2_mono) simp
    also have "\<dots> \<le> of_nat n" using rat_log2_bounds [OF x] by simp
    also have "\<dots> \<le> (of_nat (2 ^ 53) :: rat)" using assms by (simp only: of_nat_le_iff)
    finally show False by (simp add: pow2_def)
  qed
  then have e: "ulp_exp (of_nat n) \<le> 1" by (simp add: ulp_exp_def)
  show ?thesis
  proof (cases "ulp_exp (of_nat n) \<le> 0")
    case True
    define k where "k = nat (- ulp_exp (of_nat n))"
    have "pow2 (ulp_exp (of_nat n)) = 1 / 2 ^ k" using True by (simp add: pow2_def k_def)
    moreover have "round_even (of_nat n * 2 ^ k) = int n * 2 ^ k"
      using round_even_of_int [of "int n * 2 ^ k"] by simp
    ultimately show ?thesis by (simp add: round_pos_def)
  next
    case False
    with e have u: "ulp_exp (of_nat n) = 1" by simp
    then have "rat_log2 (of_nat n) = 53" by (simp add: ulp_exp_def max_def split: if_splits)
    then have "pow2 53 \<le> of_nat n" using rat_log2_bounds [OF x] by simp
    then have "(of_nat (2 ^ 53) :: rat) \<le> of_nat n" by (simp add: pow2_def)
    then have "n = 2 ^ 53" using assms(2) by (simp only: of_nat_le_iff)
    then show ?thesis using u by (simp add: round_pos_def pow2_def [of 1])
  qed
qed

lemma round64_nat: "n \<le> 2 ^ 53 \<Longrightarrow> round64 (of_nat n) = Fin (of_nat n)"
proof (cases "n = 0")
  case False
  assume n: "n \<le> 2 ^ 53"
  then have "(of_nat n :: rat) \<le> of_nat (2 ^ 53)" by (simp only: of_nat_le_iff)
  also have "\<dots> < 2 ^ 1024" by simp
  finally show ?thesis using False n round_pos_nat [of n] by (simp add: round64_def)
qed (simp add: round64_def)

text \<open>For evaluation: powers are computed on integers, small integers need no rounding, and the overflow is told by the exponent.\<close>

lemma pow2_code [code]: "pow2 e = (if 0 \<le> e then of_int (2 ^ nat e) else 1 / of_int (2 ^ nat (- e)))"
  by (simp add: pow2_def)

lemma rat_log2_ge: assumes "0 < y" shows "2 ^ n \<le> y \<longleftrightarrow> int n \<le> rat_log2 y"
proof
  assume "2 ^ n \<le> y"
  then have "pow2 (int n) < pow2 (rat_log2 y + 1)" using rat_log2_bounds [OF assms] by (simp add: pow2_def)
  then have "\<not> rat_log2 y + 1 \<le> int n" using pow2_mono [of "rat_log2 y + 1" "int n"] by auto
  then show "int n \<le> rat_log2 y" by simp
next
  assume "int n \<le> rat_log2 y"
  then have "pow2 (int n) \<le> y" using pow2_mono [of "int n" "rat_log2 y"] rat_log2_bounds [OF assms] by linarith
  then show "2 ^ n \<le> y" by (simp add: pow2_def)
qed

lemma round64_code [code]:
  "round64 x =
     (case quotient_of x of (p, q) \<Rightarrow>
        if q = 1 \<and> 0 \<le> p \<and> p \<le> 9007199254740992 then Fin x
        else let y = round_pos \<bar>x\<bar>
             in if 0 < y \<and> 1024 \<le> rat_log2 y then (if 0 < x then PosInf else NegInf)
                else Fin (if 0 < x then y else - y))"
proof -
  obtain p q where pq: "quotient_of x = (p, q)" by fastforce
  have x: "x = of_int p / of_int q" using quotient_of_div [OF pq] .
  show ?thesis
  proof (cases "q = 1 \<and> 0 \<le> p \<and> p \<le> 9007199254740992")
    case True
    then have "x = of_nat (nat p)" "nat p \<le> 2 ^ 53" using x by (simp_all add: nat_le_iff)
    then show ?thesis using round64_nat [of "nat p"] True pq by simp
  next
    case False
    then have "x \<noteq> 0" using pq rat_zero_code by auto
    moreover have "2 ^ 1024 \<le> y \<longleftrightarrow> 0 < y \<and> 1024 \<le> rat_log2 y" for y
      using rat_log2_ge [of y 1024] by (cases "0 < y") (auto intro: order.strict_trans2 [of 0 "2 ^ 1024" y])
    ultimately show ?thesis using False pq by (auto simp: round64_def Let_def)
  qed
qed

lemma round64_finite:
  assumes "0 \<le> x" "x < 2 ^ 1000" shows "\<exists>y. round64 x = Fin y"
proof (cases "x = 0")
  case False
  with assms have x: "0 < x" by simp
  have "rat_log2 x < 1000"
  proof (rule ccontr)
    assume "\<not> ?thesis"
    then have "pow2 1000 \<le> pow2 (rat_log2 x)" by (intro pow2_mono) simp
    with rat_log2_bounds [OF x] assms show False by (simp add: pow2_def [of 1000])
  qed
  then have "pow2 (ulp_exp x + 53) \<le> pow2 1001" by (intro pow2_mono) (simp add: ulp_exp_def)
  also have "\<dots> < 2 ^ 1024" by (simp add: pow2_def)
  finally have "round_pos x < 2 ^ 1024" using round_pos_upper [OF x] by simp
  then show ?thesis using x by (simp add: round64_def)
qed (simp add: round64_def)

lemma round64_1 [simp]: "round64 1 = Fin 1"
  using round64_nat [of 1] by simp

lemma round64_100 [simp]: "round64 100 = Fin 100"
  using round64_nat [of 100] by simp

lemma round64_0 [simp]: "round64 0 = Fin 0"
  by (simp add: round64_def)

lemma round64_unit_interval:
  assumes "0 \<le> x" "x \<le> of_nat n" "n \<le> 2 ^ 53"
  shows "\<exists>y. round64 x = Fin y \<and> 0 \<le> y \<and> y \<le> of_nat n"
  using round64_mono_nonneg [OF assms(1,2)] round64_mono_nonneg [of 0 x] assms
  by (cases "round64 x") (auto simp: round64_nat fle_def)

end
