(* ===== verification/Eviction_Policy.thy ===== *)
theory Eviction_Policy
  imports Float64
begin

text \<open>
  The eviction policy of \<open>src/eviction/policy.go\<close>: the record of tunables, its validation and the two-watermark decision
  \<open>nextEvicting\<close>. The lemmas show what a validated policy guarantees of the decision (hysteresis, both targets met on
  stop), and bound the quotient of two block counts, which \<open>Disk_Usage\<close> turns into a percentage.
\<close>

section \<open>The policy record and its validation\<close>

record EvictionPolicy =
  DiskCheckInterval :: duration
  CheckpointInterval :: duration
  TopKDecayInterval :: duration
  MinimumResidence :: duration
  WarmupDuration :: duration
  MinPercentBlocksFree :: float64
  EvictUntilPercentBlocksFree :: float64
  MaxCacheBytes :: int
  TargetCacheBytes :: int
  MinActionCacheBytes :: int
  CleanupBatchSize :: int
  TopKCapacity :: u32
  TopKWidth :: u32
  TopKDepth :: u32
  TopKDecay :: float64
  TopKMinCount :: u32
  Shadow :: bool

record pressureSnapshot =
  percentBlocksFree :: float64
  cacheBytes :: int

datatype policy_error =
    BadDiskCheckInterval | BadCheckpointInterval | BadDecayInterval | NegativeDuration
  | BadPercent string | PercentOrder | BadCacheTarget | BadActionCacheBytes | BadBatchSize
  | BadTopK | BadDecay

definition validatePercent :: "string \<Rightarrow> float64 \<Rightarrow> policy_error option" where
  "validatePercent name value =
     (if value = NaN \<or> isInf value \<or> flt value (Fin 0) \<or> flt (Fin 100) value
      then Some (BadPercent name) else None)"

definition Validate :: "EvictionPolicy \<Rightarrow> policy_error option" where
  "Validate p =
     (if DiskCheckInterval p \<le> 0 then Some BadDiskCheckInterval
      else if CheckpointInterval p \<le> 0 then Some BadCheckpointInterval
      else if TopKDecayInterval p \<le> 0 then Some BadDecayInterval
      else if MinimumResidence p < 0 \<or> WarmupDuration p < 0 then Some NegativeDuration
      else case validatePercent ''minimum free blocks'' (MinPercentBlocksFree p) of
        Some e \<Rightarrow> Some e
      | None \<Rightarrow> (case validatePercent ''eviction target'' (EvictUntilPercentBlocksFree p) of
        Some e \<Rightarrow> Some e
      | None \<Rightarrow>
          if fle (EvictUntilPercentBlocksFree p) (MinPercentBlocksFree p) then Some PercentOrder
          else if MaxCacheBytes p \<le> 0 \<or> TargetCacheBytes p < 0 \<or> MaxCacheBytes p \<le> TargetCacheBytes p
          then Some BadCacheTarget
          else if MinActionCacheBytes p < 0 \<or> TargetCacheBytes p < MinActionCacheBytes p
          then Some BadActionCacheBytes
          else if CleanupBatchSize p \<le> 0 then Some BadBatchSize
          else if TopKCapacity p = 0 \<or> TopKWidth p = 0 \<or> TopKDepth p = 0 \<or> TopKMinCount p = 0
          then Some BadTopK
          else if TopKDecay p = NaN \<or> isInf (TopKDecay p) \<or> fle (TopKDecay p) (Fin 0)
                  \<or> fle (Fin 1) (TopKDecay p)
          then Some BadDecay
          else None))"

definition nextEvicting :: "EvictionPolicy \<Rightarrow> bool \<Rightarrow> pressureSnapshot \<Rightarrow> bool" where
  "nextEvicting p current snapshot =
     (if \<not> current
      then fle (percentBlocksFree snapshot) (MinPercentBlocksFree p)
           \<or> MaxCacheBytes p \<le> cacheBytes snapshot
      else flt (percentBlocksFree snapshot) (EvictUntilPercentBlocksFree p)
           \<or> TargetCacheBytes p < cacheBytes snapshot)"

section \<open>What validation guarantees\<close>

lemma validatePercent_None:
  "validatePercent name v = None \<longleftrightarrow> (\<exists>x. v = Fin x \<and> 0 \<le> x \<and> x \<le> 100)"
  by (cases v) (auto simp: validatePercent_def isInf_def)

lemma ValidateD:
  assumes "Validate p = None"
  obtains lo hi d where
    "MinPercentBlocksFree p = Fin lo" "EvictUntilPercentBlocksFree p = Fin hi"
    "0 \<le> lo" "lo < hi" "hi \<le> 100"
    "0 \<le> MinActionCacheBytes p" "MinActionCacheBytes p \<le> TargetCacheBytes p"
    "TargetCacheBytes p < MaxCacheBytes p"
    "0 < CleanupBatchSize p" "0 \<le> MinimumResidence p" "0 \<le> WarmupDuration p"
    "TopKCapacity p \<noteq> 0" "TopKWidth p \<noteq> 0" "TopKDepth p \<noteq> 0" "TopKMinCount p \<noteq> 0"
    "TopKDecay p = Fin d" "0 < d" "d < 1"
    "0 < DiskCheckInterval p" "0 < CheckpointInterval p" "0 < TopKDecayInterval p"
  using assms
  by (cases "TopKDecay p")
     (auto simp: Validate_def validatePercent_None isInf_def split: if_splits option.splits)

lemma nextEvicting_stop_iff:
  "\<not> nextEvicting p True s \<longleftrightarrow>
   \<not> flt (percentBlocksFree s) (EvictUntilPercentBlocksFree p) \<and> cacheBytes s \<le> TargetCacheBytes p"
  by (auto simp: nextEvicting_def)

lemma nextEvicting_mono:
  assumes v: "Validate p = None" and start: "nextEvicting p False s"
  shows "nextEvicting p True s"
proof -
  from v obtain lo hi where "MinPercentBlocksFree p = Fin lo" "EvictUntilPercentBlocksFree p = Fin hi"
    "lo < hi" "TargetCacheBytes p < MaxCacheBytes p"
    by (rule ValidateD)
  then show ?thesis using start
    by (cases "percentBlocksFree s") (auto simp: nextEvicting_def fle_def)
qed

lemma float_of_u64_finite: "\<exists>y. float_of_u64 w = Fin y \<and> 0 \<le> y"
proof -
  have "unat w < 2 ^ 64" using unsigned_less [of w, where ?'a = nat] by simp
  then have "(of_nat (unat w) :: rat) < of_nat (2 ^ 64)" by (simp only: of_nat_less_iff)
  also have "\<dots> < 2 ^ 1000" by simp
  finally obtain y where "float_of_u64 w = Fin y"
    using round64_finite [of "of_nat (unat w)"] by (auto simp: float_of_u64_def)
  then show ?thesis using round64_mono_nonneg [of 0 "of_nat (unat w)"]
    by (simp add: float_of_u64_def)
qed

lemma float_of_u64_mono: "a \<le> b \<Longrightarrow> fle (float_of_u64 a) (float_of_u64 b)"
  by (auto simp: float_of_u64_def word_le_nat_alt intro: round64_mono_nonneg)

lemma float_of_u64_pos: assumes "b \<noteq> 0" shows "\<exists>y. float_of_u64 b = Fin y \<and> 0 < y"
proof -
  have "1 \<le> unat b" using assms by (simp add: Suc_le_eq unat_gt_0)
  then have "fle (round64 1) (float_of_u64 b)"
    unfolding float_of_u64_def by (intro round64_mono_nonneg) simp_all
  then show ?thesis using float_of_u64_finite [of b] by auto
qed

lemma fdiv_unit_interval:
  assumes "a \<le> b" "b \<noteq> 0"
  shows "\<exists>x. fdiv (float_of_u64 a) (float_of_u64 b) = Fin x \<and> 0 \<le> x \<and> x \<le> 1"
proof -
  obtain x y where xy: "float_of_u64 a = Fin x" "float_of_u64 b = Fin y" "0 \<le> x" "0 < y"
    using float_of_u64_finite [of a] float_of_u64_pos [OF assms(2)] by auto
  moreover have "x \<le> y" using float_of_u64_mono [OF assms(1)] xy by simp
  ultimately show ?thesis using round64_unit_interval [of "x / y" 1] by simp
qed

section \<open>Properties\<close>

text \<open>C23: a validated policy has hysteresis. Pressure that starts an eviction cycle also keeps one
  going, a cycle stops exactly when both the free-space target and the cache target are met, and
  between the two watermarks the decision is the current one.\<close>

theorem nextEvicting_hysteresis:
  assumes "Validate p = None"
  shows "(nextEvicting p False s \<longrightarrow> nextEvicting p True s)
    \<and> (nextEvicting p True s = False \<longleftrightarrow>
         \<not> flt (percentBlocksFree s) (EvictUntilPercentBlocksFree p) \<and> cacheBytes s \<le> TargetCacheBytes p)
    \<and> (flt (MinPercentBlocksFree p) (percentBlocksFree s) \<and> cacheBytes s < MaxCacheBytes p \<and>
       (flt (percentBlocksFree s) (EvictUntilPercentBlocksFree p) \<or> TargetCacheBytes p < cacheBytes s) \<longrightarrow>
         nextEvicting p current s = current)"
proof (intro conjI impI)
  show "nextEvicting p True s" if "nextEvicting p False s"
    using nextEvicting_mono [OF assms that] .
  show "nextEvicting p True s = False \<longleftrightarrow>
    \<not> flt (percentBlocksFree s) (EvictUntilPercentBlocksFree p) \<and> cacheBytes s \<le> TargetCacheBytes p"
    using nextEvicting_stop_iff [of p s] by simp
  show "nextEvicting p current s = current"
    if "flt (MinPercentBlocksFree p) (percentBlocksFree s) \<and> cacheBytes s < MaxCacheBytes p \<and>
       (flt (percentBlocksFree s) (EvictUntilPercentBlocksFree p) \<or> TargetCacheBytes p < cacheBytes s)"
    using that assms
    by (elim ValidateD, cases "percentBlocksFree s") (auto simp: nextEvicting_def fle_def)
qed

definition example_policy :: EvictionPolicy where
  "example_policy = \<lparr>DiskCheckInterval = 10, CheckpointInterval = 300, TopKDecayInterval = 3600,
     MinimumResidence = 3600, WarmupDuration = 1800, MinPercentBlocksFree = Fin 30,
     EvictUntilPercentBlocksFree = Fin 35, MaxCacheBytes = 400, TargetCacheBytes = 320,
     MinActionCacheBytes = 4, CleanupBatchSize = 100, TopKCapacity = 10, TopKWidth = 128,
     TopKDepth = 2, TopKDecay = Fin (9 / 10), TopKMinCount = 1, Shadow = False\<rparr>"

lemma example_policy_valid: "Validate example_policy = None"
  by (simp add: Validate_def validatePercent_def isInf_def example_policy_def fle_def)

theorem nextEvicting_hysteresis_witness:
  "nextEvicting example_policy True \<lparr>percentBlocksFree = Fin 32, cacheBytes = 330\<rparr> = True
   \<and> nextEvicting example_policy False \<lparr>percentBlocksFree = Fin 32, cacheBytes = 330\<rparr> = False"
  using nextEvicting_hysteresis [OF example_policy_valid,
      of "\<lparr>percentBlocksFree = Fin 32, cacheBytes = 330\<rparr>" True]
    nextEvicting_hysteresis [OF example_policy_valid,
      of "\<lparr>percentBlocksFree = Fin 32, cacheBytes = 330\<rparr>" False]
  by (simp add: example_policy_def)

end
