(* ===== verification/Go_Filepath.thy ===== *)
theory Go_Filepath
  imports Hoshino_Prelude
begin

text \<open>
  The parts of Go's \<open>path/filepath\<close> and \<open>strings\<close> packages the program uses, for the separator of
  Unix: \<open>strings.Split\<close> and \<open>Join\<close> at a slash, \<open>Clean\<close>, \<open>IsAbs\<close>, \<open>Join\<close>, \<open>Dir\<close> and \<open>Rel\<close>.
  \<open>ToSlash\<close> and \<open>FromSlash\<close> are the identity there. \<open>Clean\<close> is written over path elements instead of bytes:
  a stack of elements where \<open>.\<close> and empty elements are dropped and \<open>..\<close> takes back the element
  before it. \<open>Rel\<close> returns \<open>None\<close> where Go returns an error.

  The lemmas describe absolute clean paths as lists of plain elements (\<open>abs_path\<close>), on which \<open>Clean\<close>
  is the identity, \<open>Join\<close> appends and \<open>Rel\<close> strips a prefix.
\<close>

section \<open>Splitting and joining\<close>

abbreviation slash :: char where
  "slash \<equiv> CHR ''/''"

primrec split_slash :: "string \<Rightarrow> string list" where
  "split_slash [] = [[]]"
| "split_slash (c # cs) =
     (if c = slash then [] # split_slash cs
      else case split_slash cs of [] \<Rightarrow> [[c]] | p # ps \<Rightarrow> (c # p) # ps)"

fun join_slash :: "string list \<Rightarrow> string" where
  "join_slash [] = []"
| "join_slash [p] = p"
| "join_slash (p # ps) = p @ slash # join_slash ps"

lemma split_slash_nonempty [simp]: "split_slash s \<noteq> []"
  by (cases s) (auto split: list.splits)

lemma join_slash_Cons: "ps \<noteq> [] \<Longrightarrow> join_slash (p # ps) = p @ slash # join_slash ps"
  by (cases ps) auto

lemma join_split_slash [simp]: "join_slash (split_slash s) = s"
proof (induction s)
  case (Cons c cs)
  obtain p ps where "split_slash cs = p # ps" using split_slash_nonempty by (meson neq_Nil_conv)
  then show ?case using Cons by (cases ps) auto
qed simp

lemma split_slash_no_slash: "p \<in> set (split_slash s) \<Longrightarrow> slash \<notin> set p"
proof (induction s arbitrary: p)
  case (Cons c cs)
  then show ?case by (cases "split_slash cs") (auto split: if_splits)
qed simp

lemma split_slash_plain [simp]: "slash \<notin> set p \<Longrightarrow> split_slash p = [p]"
  by (induction p) auto

lemma split_slash_append: "slash \<notin> set p \<Longrightarrow> split_slash (p @ slash # s) = p # split_slash s"
  by (induction p) auto

lemma split_join_slash:
  "ps \<noteq> [] \<Longrightarrow> \<forall>p \<in> set ps. slash \<notin> set p \<Longrightarrow> split_slash (join_slash ps) = ps"
  by (induction ps rule: join_slash.induct) (auto simp: split_slash_append)

lemma join_slash_append:
  "ps \<noteq> [] \<Longrightarrow> qs \<noteq> [] \<Longrightarrow> join_slash (ps @ qs) = join_slash ps @ slash # join_slash qs"
  by (induction ps rule: join_slash.induct) (auto simp: join_slash_Cons)

section \<open>\<open>Clean\<close>, \<open>Join\<close>, \<open>Dir\<close>, \<open>Rel\<close>\<close>

definition IsAbs :: "string \<Rightarrow> bool" where
  "IsAbs path \<longleftrightarrow> path \<noteq> [] \<and> hd path = slash"

definition clean_step :: "bool \<Rightarrow> string \<Rightarrow> string list \<Rightarrow> string list" where
  "clean_step rooted p out =
     (if p = [] \<or> p = ''.'' then out
      else if p = ''..''
      then (case out of
              [] \<Rightarrow> if rooted then [] else [p]
            | q # out' \<Rightarrow> if q = ''..'' then p # out else out')
      else p # out)"

definition clean_elements :: "bool \<Rightarrow> string list \<Rightarrow> string list" where
  "clean_elements rooted ps = rev (fold (clean_step rooted) ps [])"

definition Clean :: "string \<Rightarrow> string" where
  "Clean path =
     (if path = [] then ''.''
      else let out = clean_elements (IsAbs path) (split_slash path)
           in if IsAbs path then slash # join_slash out
              else if out = [] then ''.''
              else join_slash out)"

definition filepath_Join :: "string \<Rightarrow> string \<Rightarrow> string" where
  "filepath_Join a b =
     (if a \<noteq> [] then Clean (a @ slash # b) else if b \<noteq> [] then Clean b else [])"

text \<open>\<open>Dir\<close> cleans everything up to and including the last slash.\<close>

definition filepath_Dir :: "string \<Rightarrow> string" where
  "filepath_Dir path = Clean (rev (dropWhile (\<lambda>c. c \<noteq> slash) (rev path)))"

fun strip_common :: "string list \<Rightarrow> string list \<Rightarrow> string list \<times> string list" where
  "strip_common (b # bs) (t # ts) = (if b = t then strip_common bs ts else (b # bs, t # ts))"
| "strip_common bs ts = (bs, ts)"

definition rel_parts :: "string \<Rightarrow> string list" where
  "rel_parts s =
     (let r = if IsAbs s then tl s else s in if r = [] then [] else split_slash r)"

definition Rel :: "string \<Rightarrow> string \<Rightarrow> string option" where
  "Rel basepath targpath =
     (let base = Clean basepath; targ = Clean targpath
      in if targ = base then Some ''.''
         else let base' = if base = ''.'' then [] else base
              in if IsAbs base' \<noteq> IsAbs targ then None
                 else let (bs, ts) = strip_common (rel_parts base') (rel_parts targ)
                      in if bs \<noteq> [] \<and> ts \<noteq> [] \<and> hd bs = ''..'' then None
                         else Some (join_slash (replicate (length bs) ''..'' @ ts)))"

section \<open>Clean absolute paths\<close>

definition plain :: "string \<Rightarrow> bool" where
  "plain p \<longleftrightarrow> p \<noteq> [] \<and> p \<noteq> ''.'' \<and> p \<noteq> ''..'' \<and> slash \<notin> set p"

definition abs_path :: "string list \<Rightarrow> string" where
  "abs_path ps = slash # join_slash ps"

lemma plain_no_slash: "plain p \<Longrightarrow> slash \<notin> set p"
  by (simp add: plain_def)

lemma IsAbs_Nil [simp]: "\<not> IsAbs []"
  by (simp add: IsAbs_def)

lemma IsAbs_Cons [simp]: "IsAbs (c # s) \<longleftrightarrow> c = slash"
  by (simp add: IsAbs_def)

lemma IsAbs_abs_path [simp]: "IsAbs (abs_path ps)"
  by (simp add: abs_path_def)

lemma fold_clean_plain: "\<forall>p \<in> set ps. plain p \<Longrightarrow> fold (clean_step r) ps out = rev ps @ out"
  by (induction ps arbitrary: out) (auto simp: clean_step_def plain_def)

lemma clean_elements_plain: "\<forall>p \<in> set ps. plain p \<Longrightarrow> clean_elements r ps = ps"
  by (simp add: clean_elements_def fold_clean_plain)

lemma clean_elements_Nil [simp]: "clean_elements r ([] # ps) = clean_elements r ps"
  by (simp add: clean_elements_def clean_step_def)

lemma fold_clean_rooted:
  "\<forall>p \<in> set ps. slash \<notin> set p \<Longrightarrow> \<forall>p \<in> set out. plain p \<Longrightarrow> \<forall>p \<in> set (fold (clean_step True) ps out). plain p"
proof (induction ps arbitrary: out)
  case (Cons p ps)
  have "\<forall>q \<in> set (clean_step True p out). plain q"
    using Cons.prems by (auto simp: clean_step_def plain_def split: list.splits)
  then show ?case using Cons by simp
qed simp

lemma Clean_abs:
  assumes "IsAbs path"
  obtains ps where "Clean path = abs_path ps" "\<forall>p \<in> set ps. plain p"
proof
  have "\<forall>p \<in> set (split_slash path). slash \<notin> set p" by (auto dest: split_slash_no_slash)
  then show "\<forall>p \<in> set (clean_elements True (split_slash path)). plain p"
    by (auto simp: clean_elements_def dest: fold_clean_rooted [of _ "[]"])
  show "Clean path = abs_path (clean_elements True (split_slash path))"
    using assms by (auto simp: Clean_def abs_path_def)
qed

lemma split_abs_path: "ps \<noteq> [] \<Longrightarrow> \<forall>p \<in> set ps. plain p \<Longrightarrow> split_slash (abs_path ps) = [] # ps"
  by (simp add: abs_path_def split_join_slash plain_no_slash)

lemma Clean_abs_path [simp]: "\<forall>p \<in> set ps. plain p \<Longrightarrow> Clean (abs_path ps) = abs_path ps"
proof (cases "ps = []")
  case True
  then show ?thesis by (simp add: Clean_def abs_path_def clean_elements_def clean_step_def)
next
  case False
  assume p: "\<forall>p \<in> set ps. plain p"
  then have "clean_elements True (split_slash (abs_path ps)) = ps"
    using False by (simp add: split_abs_path clean_elements_plain)
  then show ?thesis by (simp add: Clean_def) (simp add: abs_path_def)
qed

lemma Clean_relative:
  assumes "ps \<noteq> []" "\<forall>p \<in> set ps. plain p" shows "Clean (join_slash ps) = join_slash ps" "\<not> IsAbs (join_slash ps)"
proof -
  obtain p qs where ps: "ps = p # qs" using assms(1) by (cases ps) auto
  then have p: "p \<noteq> []" "slash \<notin> set p" using assms(2) by (auto simp: plain_def)
  then obtain c p' where c: "p = c # p'" "c \<noteq> slash" by (cases p) auto
  then have h: "hd (join_slash ps) = c" "join_slash ps \<noteq> []"
    using ps by (cases qs; simp)+
  show "\<not> IsAbs (join_slash ps)" using h c by (simp add: IsAbs_def)
  moreover have "split_slash (join_slash ps) = ps" using assms by (simp add: split_join_slash plain_no_slash)
  ultimately show "Clean (join_slash ps) = join_slash ps"
    using h assms by (simp add: Clean_def clean_elements_plain)
qed

lemma rel_parts_abs_path [simp]: "\<forall>p \<in> set ps. plain p \<Longrightarrow> rel_parts (abs_path ps) = ps"
proof (cases ps)
  case (Cons p qs)
  assume pl: "\<forall>p \<in> set ps. plain p"
  then have "join_slash ps \<noteq> []" using Cons by (cases qs) (auto simp: plain_def)
  then show ?thesis using pl Cons by (simp add: rel_parts_def abs_path_def split_join_slash plain_no_slash)
qed (simp add: rel_parts_def abs_path_def)

lemma abs_path_inj: "\<forall>p \<in> set ps. plain p \<Longrightarrow> \<forall>p \<in> set qs. plain p \<Longrightarrow> abs_path ps = abs_path qs \<longleftrightarrow> ps = qs"
  by (metis rel_parts_abs_path)

lemma filepath_Join_abs:
  assumes "\<forall>p \<in> set ps. plain p" "\<forall>q \<in> set qs. plain q" "qs \<noteq> []"
  shows "filepath_Join (abs_path ps) (join_slash qs) = abs_path (ps @ qs)"
proof (cases "ps = []")
  case True
  then have "abs_path ps @ slash # join_slash qs = slash # slash # join_slash qs" by (simp add: abs_path_def)
  moreover have "split_slash (join_slash qs) = qs" using assms by (simp add: split_join_slash plain_no_slash)
  ultimately have "filepath_Join (abs_path ps) (join_slash qs) = slash # join_slash (clean_elements True ([] # [] # qs))"
    by (simp add: filepath_Join_def Clean_def abs_path_def)
  then show ?thesis using True assms(2) by (simp add: abs_path_def clean_elements_plain)
next
  case False
  then have "abs_path ps @ slash # join_slash qs = abs_path (ps @ qs)"
    using assms(3) by (simp add: abs_path_def join_slash_append)
  moreover have "Clean (abs_path (ps @ qs)) = abs_path (ps @ qs)" using assms by (intro Clean_abs_path) auto
  moreover have "abs_path ps \<noteq> []" by (simp add: abs_path_def)
  ultimately show ?thesis by (simp add: filepath_Join_def)
qed

lemma strip_common_append [simp]: "strip_common ps (ps @ qs) = ([], qs)"
  by (induction ps) auto

lemma strip_common_same [simp]: "strip_common ps ps = ([], [])"
  using strip_common_append [of ps "[]"] by simp

lemma strip_common_prefix:
  "strip_common bs ts = (bs', ts') \<Longrightarrow> \<exists>cs. bs = cs @ bs' \<and> ts = cs @ ts'"
proof (induction bs ts arbitrary: bs' ts' rule: strip_common.induct)
  case (1 b bs t ts)
  show ?case
  proof (cases "b = t")
    case True
    then obtain cs where "bs = cs @ bs'" "ts = cs @ ts'" using 1 by auto
    then show ?thesis using True by (intro exI [of _ "b # cs"]) simp
  qed (use 1 in auto)
qed auto

lemma Rel_below:
  assumes "\<forall>p \<in> set ps. plain p" "\<forall>q \<in> set qs. plain q" "qs \<noteq> []"
  shows "Rel (abs_path ps) (abs_path (ps @ qs)) = Some (join_slash qs)"
proof -
  have "\<forall>p \<in> set (ps @ qs). plain p" using assms by auto
  moreover have "abs_path ps \<noteq> ''.''" by (simp add: abs_path_def)
  moreover have "abs_path (ps @ qs) \<noteq> abs_path ps" using assms by (subst abs_path_inj) auto
  ultimately show ?thesis using assms by (simp add: Rel_def del: set_append)
qed

text \<open>What \<open>Rel\<close> says of a clean absolute target: the same path, a path below the base, or one that
  goes up first.\<close>

lemma Rel_abs_cases:
  assumes "\<forall>p \<in> set ps. plain p" "\<forall>q \<in> set ts. plain q"
  obtains "ts = ps" "Rel (abs_path ps) (abs_path ts) = Some ''.''"
  | qs where "ts = ps @ qs" "qs \<noteq> []" "Rel (abs_path ps) (abs_path ts) = Some (join_slash qs)"
  | rs where "Rel (abs_path ps) (abs_path ts) = Some (join_slash (''..'' # rs))" "\<forall>r \<in> set rs. slash \<notin> set r"
      "\<nexists>qs. ts = ps @ qs"
proof -
  obtain bs ts' where st: "strip_common ps ts = (bs, ts')" by fastforce
  then obtain cs where cs: "ps = cs @ bs" "ts = cs @ ts'" using strip_common_prefix by blast
  have dot: "abs_path ps \<noteq> ''.''" by (simp add: abs_path_def)
  show thesis
  proof (cases "bs = []")
    case True
    then show ?thesis using cs that(1,2) assms Rel_below [of ps ts'] by (cases "ts' = []") (auto simp: Rel_def)
  next
    case False
    have ne: "ts \<noteq> ps" "\<nexists>qs. ts = ps @ qs" using st False by auto
    have "plain (hd bs)" using assms(1) cs(1) False by (cases bs) auto
    then have "hd bs \<noteq> ''..''" by (simp add: plain_def)
    then have "Rel (abs_path ps) (abs_path ts) = Some (join_slash (replicate (length bs) ''..'' @ ts'))"
      using assms st dot ne(1) by (simp add: Rel_def abs_path_inj)
    moreover obtain n where "length bs = Suc n" using False by (cases bs) auto
    ultimately have "Rel (abs_path ps) (abs_path ts) = Some (join_slash (''..'' # (replicate n ''..'' @ ts')))" by simp
    moreover have "\<forall>r \<in> set ts'. slash \<notin> set r" using assms(2) cs(2) by (simp add: plain_no_slash)
    then have "\<forall>r \<in> set (replicate n ''..'' @ ts'). slash \<notin> set r" by (simp add: ball_Un)
    ultimately show ?thesis by (rule that(3) [OF _ _ ne(2)])
  qed
qed

lemma Rel_Clean: "IsAbs path \<Longrightarrow> Rel base (Clean path) = Rel base path"
  by (erule Clean_abs) (simp add: Rel_def)

lemma clean_elements_nonempty:
  assumes "p \<in> set (clean_elements r (split_slash path))" shows "p \<noteq> [] \<and> slash \<notin> set p"
proof -
  have "p \<noteq> [] \<and> slash \<notin> set p" if "p \<in> set (fold (clean_step r) qs out)"
    "\<forall>q \<in> set qs. slash \<notin> set q" "\<forall>q \<in> set out. q \<noteq> [] \<and> slash \<notin> set q" for p qs out
    using that
  proof (induction qs arbitrary: out)
    case (Cons q qs)
    have "\<forall>r \<in> set (clean_step r q out). r \<noteq> [] \<and> slash \<notin> set r"
      using Cons.prems(2,3) by (auto simp: clean_step_def split: list.splits)
    then show ?case using Cons by simp
  qed simp
  then show ?thesis using assms split_slash_no_slash by (fastforce simp: clean_elements_def)
qed

lemma Clean_nonempty [simp]: "Clean path \<noteq> []"
proof -
  have "join_slash ps \<noteq> []" if "ps \<noteq> []" "\<forall>p \<in> set ps. p \<noteq> []" for ps
    using that by (cases ps rule: join_slash.cases) auto
  then have "join_slash (clean_elements r (split_slash path)) \<noteq> []" if "clean_elements r (split_slash path) \<noteq> []" for r
    using that clean_elements_nonempty [of _ r path] by blast
  then show ?thesis by (simp add: Clean_def Let_def)
qed

lemma IsAbs_Clean: "IsAbs (Clean path) \<longleftrightarrow> IsAbs path"
proof (cases "IsAbs path")
  case False
  then have "Clean path = ''.'' \<or> Clean path = join_slash (clean_elements False (split_slash path)) \<and>
      clean_elements False (split_slash path) \<noteq> []" by (auto simp: Clean_def Let_def)
  moreover have "\<not> IsAbs (join_slash ps)" if h: "ps \<noteq> []" "\<forall>p \<in> set ps. p \<noteq> [] \<and> slash \<notin> set p" for ps
  proof -
    obtain c p qs where "ps = (c # p) # qs" "c \<noteq> slash"
      using h by (cases ps; cases "hd ps") auto
    then show ?thesis by (cases qs) auto
  qed
  ultimately have "\<not> IsAbs (Clean path)" using clean_elements_nonempty [of _ False path] by fastforce
  then show ?thesis using False by simp
qed (metis Clean_abs IsAbs_abs_path)

text \<open>\<open>Rel\<close> from an absolute root only accepts absolute paths.\<close>

lemma Rel_abs_only:
  assumes "IsAbs base" "Rel base path = Some rel" shows "IsAbs path"
proof (rule ccontr)
  assume "\<not> IsAbs path"
  then have n: "\<not> IsAbs (Clean path)" "IsAbs (Clean base)" using assms(1) by (simp_all add: IsAbs_Clean)
  then have "Clean path \<noteq> Clean base" "Clean base \<noteq> ''.''" by (auto simp: IsAbs_def)
  then have "Rel base path = None" using n by (simp add: Rel_def)
  then show False using assms(2) by simp
qed

end
