(* ===== verification/OS_Interface.thy ===== *)
theory OS_Interface
  imports Go_Filepath
begin

unbundle bit_operations_syntax

text \<open>
  The calls that leave the program: the file-system functions of \<open>os\<close>, \<open>path/filepath\<close>,
  \<open>syscall\<close> and \<open>golang.org/x/sys/unix\<close> that reach the kernel. They are the fields of the record
  \<open>sys\<close>, functions on a world \<open>'w\<close> that is left abstract: what other processes do between two calls is
  part of what the next call may answer. Everything the program does is a function of such a record.

  Errors are values of \<open>goerr\<close>. Wrapping with \<open>%w\<close> keeps the wrapped value for \<open>errors.Is\<close>, so a
  wrapped error is modelled by the error it wraps.
\<close>

section \<open>Errors\<close>

text \<open>\<open>EWOULDBLOCK\<close> is \<open>EAGAIN\<close> on Linux.\<close>

datatype errno = ENOENT | EAGAIN | Eother nat

datatype goerr = ErrInvalidCacheEntry | ErrEntryChanged | Errno errno | ErrMsg string

definition is_not_exist :: "goerr \<Rightarrow> bool" where
  "is_not_exist e \<longleftrightarrow> e = Errno ENOENT"

type_synonym 'a result = "goerr + 'a"

section \<open>Files\<close>

text \<open>\<open>st_mtime\<close> is \<open>Mtim\<close> in nanoseconds.\<close>

record filestat =
  st_dev :: u64
  st_ino :: u64
  st_mode :: u32
  st_size :: int
  st_mtime :: time

abbreviation S_IFMT :: u32 where "S_IFMT \<equiv> 0xF000"
abbreviation S_IFREG :: u32 where "S_IFREG \<equiv> 0x8000"
abbreviation S_IFDIR :: u32 where "S_IFDIR \<equiv> 0x4000"
abbreviation S_IFLNK :: u32 where "S_IFLNK \<equiv> 0xA000"
abbreviation S_IFBLK :: u32 where "S_IFBLK \<equiv> 0x6000"
abbreviation S_IFCHR :: u32 where "S_IFCHR \<equiv> 0x2000"
abbreviation S_IFIFO :: u32 where "S_IFIFO \<equiv> 0x1000"
abbreviation S_IFSOCK :: u32 where "S_IFSOCK \<equiv> 0xC000"

definition file_type :: "filestat \<Rightarrow> u32" where
  "file_type st = st_mode st AND S_IFMT"

text \<open>How \<open>os.Lstat\<close> reads the mode: a file is regular when it is none of the other types.\<close>

definition IsRegular :: "filestat \<Rightarrow> bool" where
  "IsRegular st \<longleftrightarrow> file_type st \<notin> {S_IFDIR, S_IFLNK, S_IFBLK, S_IFCHR, S_IFIFO, S_IFSOCK}"

definition IsDir :: "filestat \<Rightarrow> bool" where
  "IsDir st \<longleftrightarrow> file_type st = S_IFDIR"

definition IsSymlink :: "filestat \<Rightarrow> bool" where
  "IsSymlink st \<longleftrightarrow> file_type st = S_IFLNK"

text \<open>\<open>time.Time.UnixNano\<close> and \<open>Timespec.Nano\<close>.\<close>

definition UnixNano :: "time \<Rightarrow> int" where
  "UnixNano t = i64 t"

record dirent =
  de_name :: string
  de_type :: u32

definition de_IsDir :: "dirent \<Rightarrow> bool" where
  "de_IsDir d \<longleftrightarrow> de_type d = S_IFDIR"

definition de_IsSymlink :: "dirent \<Rightarrow> bool" where
  "de_IsSymlink d \<longleftrightarrow> de_type d = S_IFLNK"

section \<open>Calls\<close>

datatype oflag = O_RDONLY | O_RDWR | O_CREATE | O_DIRECTORY | O_CLOEXEC | O_NOFOLLOW

datatype lock_op = LOCK_EX_NB | LOCK_UN

type_synonym fd = nat
type_synonym ('w, 'a) call = "'w \<Rightarrow> (errno + 'a) \<times> 'w"

record 'w sys =
  sys_getwd :: "('w, string) call"
  sys_EvalSymlinks :: "string \<Rightarrow> ('w, string) call"
  sys_lstat :: "string \<Rightarrow> ('w, filestat) call"
  sys_ReadDir :: "string \<Rightarrow> 'w \<Rightarrow> (dirent list \<times> errno option) \<times> 'w"
  sys_open :: "string \<Rightarrow> oflag list \<Rightarrow> ('w, fd) call"
  sys_openat :: "fd \<Rightarrow> string \<Rightarrow> oflag list \<Rightarrow> ('w, fd) call"
  sys_fstat :: "fd \<Rightarrow> ('w, filestat) call"
  sys_fstatat :: "fd \<Rightarrow> string \<Rightarrow> ('w, filestat) call" \<comment> \<open>with \<open>AT_SYMLINK_NOFOLLOW\<close>\<close>
  sys_unlinkat :: "fd \<Rightarrow> string \<Rightarrow> ('w, unit) call"
  sys_close :: "fd \<Rightarrow> ('w, unit) call"
  sys_flock :: "fd \<Rightarrow> lock_op \<Rightarrow> ('w, unit) call"

section \<open>\<open>filepath.WalkDir\<close>\<close>

text \<open>The callback gets the path, the entry (none when the start path cannot be inspected) and the error,
  and the state it works on, and answers with nil, \<open>SkipDir\<close> or an error. \<open>ReadDir\<close> may return some entries
  and an error. The depth of the walk is bounded by the first argument: \<open>None\<close> is a walk that went
  deeper, which a file tree of bounded depth excludes.\<close>

datatype walk_result = WalkOk | SkipDir | WalkErr goerr

type_synonym 's walk_fn = "string \<Rightarrow> dirent option \<Rightarrow> errno option \<Rightarrow> 's \<Rightarrow> walk_result \<times> 's"

function walkDir ::
  "nat \<Rightarrow> (string \<Rightarrow> 's \<Rightarrow> (dirent list \<times> errno option) \<times> 's) \<Rightarrow> 's walk_fn \<Rightarrow> string \<Rightarrow> dirent \<Rightarrow> 's \<Rightarrow>
   (walk_result \<times> 's) option"
  and walkDirs ::
  "nat \<Rightarrow> (string \<Rightarrow> 's \<Rightarrow> (dirent list \<times> errno option) \<times> 's) \<Rightarrow> 's walk_fn \<Rightarrow> string \<Rightarrow> dirent list \<Rightarrow> 's \<Rightarrow>
   (walk_result \<times> 's) option" where
  "walkDir 0 rd fn path d s = None"
| "walkDir (Suc n) rd fn path d s =
     (case fn path (Some d) None s of (r, s1) \<Rightarrow>
        if r \<noteq> WalkOk \<or> \<not> de_IsDir d
        then Some (if r = SkipDir \<and> de_IsDir d then WalkOk else r, s1)
        else (case rd path s1 of ((dirs, err), s2) \<Rightarrow>
          (case (case err of None \<Rightarrow> (WalkOk, s2) | Some e \<Rightarrow> fn path (Some d) (Some e) s2) of (r', s3) \<Rightarrow>
             if r' \<noteq> WalkOk then Some (if r' = SkipDir then WalkOk else r', s3)
             else walkDirs n rd fn path dirs s3)))"
| "walkDirs n rd fn path [] s = Some (WalkOk, s)"
| "walkDirs n rd fn path (d # ds) s =
     (case walkDir n rd fn (filepath_Join path (de_name d)) d s of
        None \<Rightarrow> None
      | Some (r, s') \<Rightarrow> if r = SkipDir then Some (WalkOk, s')
                        else if r \<noteq> WalkOk then Some (r, s')
                        else walkDirs n rd fn path ds s')"
  by pat_completeness auto
termination
  by (relation "measures [\<lambda>x. case x of Inl (n, _) \<Rightarrow> n | Inr (n, _) \<Rightarrow> n,
        \<lambda>x. case x of Inl _ \<Rightarrow> 0 | Inr (_, _, _, _, ds, _) \<Rightarrow> Suc (length ds)]") auto

definition WalkDir ::
  "nat \<Rightarrow> (string \<Rightarrow> 's \<Rightarrow> (errno + filestat) \<times> 's) \<Rightarrow> (string \<Rightarrow> 's \<Rightarrow> (dirent list \<times> errno option) \<times> 's) \<Rightarrow>
   's walk_fn \<Rightarrow> string \<Rightarrow> 's \<Rightarrow> (walk_result \<times> 's) option" where
  "WalkDir n ls rd fn start s =
     (case (case ls start s of
              (Inl e, s1) \<Rightarrow> Some (fn start None (Some e) s1)
            | (Inr st, s1) \<Rightarrow> walkDir n rd fn start \<lparr>de_name = start, de_type = file_type st\<rparr> s1) of
        None \<Rightarrow> None
      | Some (r, s') \<Rightarrow> Some (if r = SkipDir then WalkOk else r, s'))"

text \<open>A property of the state that the callback and the calls keep holds after the walk.\<close>

definition keeps :: "('s \<Rightarrow> bool) \<Rightarrow> ('s \<Rightarrow> 'a \<times> 's) \<Rightarrow> bool" where
  "keeps P m \<longleftrightarrow> (\<forall>s. P s \<longrightarrow> P (snd (m s)))"

definition keeps_opt :: "('s \<Rightarrow> bool) \<Rightarrow> ('s \<Rightarrow> ('a \<times> 's) option) \<Rightarrow> bool" where
  "keeps_opt P m \<longleftrightarrow> (\<forall>s r s'. P s \<longrightarrow> m s = Some (r, s') \<longrightarrow> P s')"

lemma keepsI: "(\<And>s. P s \<Longrightarrow> P (snd (m s))) \<Longrightarrow> keeps P m"
  by (simp add: keeps_def)

lemma keepsD: "keeps P m \<Longrightarrow> P s \<Longrightarrow> m s = (r, s') \<Longrightarrow> P s'"
  by (metis keeps_def snd_conv)

lemma keeps_optD: "keeps_opt P m \<Longrightarrow> P s \<Longrightarrow> m s = Some (r, s') \<Longrightarrow> P s'"
  by (simp add: keeps_opt_def)

lemma keeps_optI: "(\<And>s r s'. P s \<Longrightarrow> m s = Some (r, s') \<Longrightarrow> P s') \<Longrightarrow> keeps_opt P m"
  by (simp add: keeps_opt_def)

lemma walkDirs_keeps:
  assumes "\<And>path d. keeps_opt P (walkDir n rd fn path d)"
  shows "P s \<Longrightarrow> walkDirs n rd fn path ds s = Some (r, s') \<Longrightarrow> P s'"
proof (induction ds arbitrary: s)
  case (Cons d ds)
  obtain r1 s1 where w: "walkDir n rd fn (filepath_Join path (de_name d)) d s = Some (r1, s1)"
    using Cons.prems(2) by (auto split: option.splits)
  then have "P s1" by (rule keeps_optD [OF assms Cons.prems(1)])
  then show ?case using Cons w by (auto split: if_splits)
qed simp

lemma walkDir_keeps:
  assumes fn: "\<And>path d e. keeps P (fn path d e)" and rd: "\<And>path. keeps P (rd path)"
  shows "keeps_opt P (walkDir n rd fn path d)"
proof (induction n arbitrary: path d)
  case (Suc n)
  show ?case
  proof (rule keeps_optI)
    fix s r s' assume P: "P s" and w: "walkDir (Suc n) rd fn path d s = Some (r, s')"
    obtain r1 s1 where 1: "fn path (Some d) None s = (r1, s1)" by fastforce
    obtain dirs e s2 where 2: "rd path s1 = ((dirs, e), s2)" by (metis prod.exhaust_sel)
    obtain r3 s3 where 3: "(case e of None \<Rightarrow> (WalkOk, s2) | Some e \<Rightarrow> fn path (Some d) (Some e) s2) = (r3, s3)"
      by fastforce
    have P1: "P s1" using keepsD [OF fn P 1] .
    have P2: "P s2" using keepsD [OF rd P1 2] .
    have P3: "P s3" using 3 P2 keepsD [OF fn P2] by (cases e) auto
    have "s' = s1 \<or> s' = s3 \<or> walkDirs n rd fn path dirs s3 = Some (r, s')"
      using w 1 2 3 by (auto split: if_splits)
    then show "P s'" using P1 P3 walkDirs_keeps [OF Suc.IH P3] by blast
  qed
qed (simp add: keeps_opt_def)

lemma WalkDir_keeps:
  assumes fn: "\<And>path d e. keeps P (fn path d e)" and rd: "\<And>path. keeps P (rd path)"
    and ls: "\<And>path. keeps P (ls path)"
  shows "keeps_opt P (WalkDir n ls rd fn start)"
proof (rule keeps_optI)
  fix s r s' assume P: "P s" and w: "WalkDir n ls rd fn start s = Some (r, s')"
  obtain a s1 where a: "ls start s = (a, s1)" by fastforce
  have P1: "P s1" using keepsD [OF ls P a] .
  have "(\<exists>e r1. fn start None (Some e) s1 = (r1, s')) \<or> (\<exists>d r1. walkDir n rd fn start d s1 = Some (r1, s'))"
    using w a by (cases a) (auto simp: WalkDir_def split: option.splits prod.splits)
  then show "P s'" using keepsD [OF fn P1] keeps_optD [OF walkDir_keeps [of P fn rd, OF fn rd] P1] by blast
qed

text \<open>A walk that succeeds visits everything it was shown, as long as the callback skips directories only. \<open>P\<close> is something the
  callback and the calls keep once it holds.\<close>

lemma walkDirs_not_skip: "walkDirs n rd fn path ds s = Some (r, s') \<Longrightarrow> r \<noteq> SkipDir"
  by (induction ds arbitrary: s) (auto split: option.splits if_splits)

lemma walkDir_skip:
  "walkDir n rd fn path d s = Some (SkipDir, s') \<Longrightarrow> \<not> de_IsDir d \<and> fst (fn path (Some d) None s) = SkipDir"
  by (cases n) (auto split: prod.splits if_splits option.splits dest: walkDirs_not_skip)

lemma walkDirs_visits:
  assumes keep: "\<And>path d e. keeps P (fn path d e)" "\<And>path. keeps P (rd path)"
    and visit: "\<And>s s'. walkDir n rd fn (filepath_Join path (de_name x)) x s = Some (WalkOk, s') \<Longrightarrow> P s'"
  shows "walkDirs n rd fn path ds s = Some (WalkOk, s') \<Longrightarrow> x \<in> set ds \<Longrightarrow>
    \<forall>d \<in> set ds. \<forall>t. \<not> de_IsDir d \<longrightarrow> fst (fn (filepath_Join path (de_name d)) (Some d) None t) \<noteq> SkipDir \<Longrightarrow> P s'"
proof (induction ds arbitrary: s)
  case (Cons d ds)
  have "walkDir n rd fn (filepath_Join path (de_name d)) d t \<noteq> Some (SkipDir, t')" for t t'
    using walkDir_skip [of n rd fn "filepath_Join path (de_name d)" d t t'] Cons.prems(3) by auto
  then obtain s1 where 1: "walkDir n rd fn (filepath_Join path (de_name d)) d s = Some (WalkOk, s1)" "walkDirs n rd fn path ds s1 = Some (WalkOk, s')"
    using Cons.prems(1) by (auto split: option.splits if_splits)
  show ?case
  proof (cases "x = d")
    case True
    then have "P s1" using visit 1(1) by blast
    then show ?thesis using walkDirs_keeps [where P = P, OF walkDir_keeps [of P fn rd, OF keep] _ 1(2)] by blast
  next
    case False
    then show ?thesis using Cons.IH [OF 1(2)] Cons.prems(2,3) by simp
  qed
qed simp

text \<open>The result of a walk is nil or a result of the callback.\<close>

lemma walkDir_result:
  assumes fn: "\<And>path d e s. fst (fn path d e s) \<in> A" and ok: "WalkOk \<in> A"
  shows "walkDir n rd fn path d s = Some (r, s') \<Longrightarrow> r \<in> A"
proof (induction n arbitrary: path d s r s')
  case (Suc n)
  have dirs: "walkDirs n rd fn path ds t = Some (r, t') \<Longrightarrow> r \<in> A" for ds t t'
    by (induction ds arbitrary: t) (auto simp: ok split: option.splits if_splits dest: Suc.IH)
  have "x \<in> A" if "fn path d' e t = (x, t')" for x d' e t t' using fn [of path d' e t] that by simp
  then show ?case using Suc.prems ok dirs by (auto split: if_splits prod.splits option.splits)
qed simp

lemma WalkDir_result:
  assumes fn: "\<And>path d e s. fst (fn path d e s) \<in> A" and ok: "WalkOk \<in> A" and w: "WalkDir n ls rd fn start s = Some (r, s')"
  shows "r \<in> A"
proof -
  have "x \<in> A" if "fn p d e t = (x, t')" for x p d e t t' using fn [of p d e t] that by simp
  then show ?thesis using w ok walkDir_result [of fn A, OF fn ok]
    by (auto simp: WalkDir_def split: option.splits sum.splits prod.splits if_splits)
qed

lemma walkDir_no_skip:
  assumes "\<And>path d e s. fst (fn path d e s) \<noteq> SkipDir"
  shows "walkDir n rd fn path d s = Some (r, s') \<Longrightarrow> r \<noteq> SkipDir"
  using walkDir_result [of fn "- {SkipDir}"] assms by fastforce

text \<open>Below a directory that every listing shows with the entry \<open>x\<close>, \<open>x\<close> is visited.\<close>

lemma walkDir_reaches:
  assumes keep: "\<And>path d e. keeps P (fn path d e)" "\<And>path. keeps P (rd path)"
    and here: "\<And>e s. fst (fn path (Some d) e s) \<noteq> SkipDir"
    and below: "\<And>s dirs err s' x t. rd path s = ((dirs, err), s') \<Longrightarrow> x \<in> set dirs \<Longrightarrow> \<not> de_IsDir x \<Longrightarrow>
      fst (fn (filepath_Join path (de_name x)) (Some x) None t) \<noteq> SkipDir"
    and rd: "\<And>s dirs err s'. rd path s = ((dirs, err), s') \<Longrightarrow> \<exists>x \<in> set dirs. Q x"
    and visit: "\<And>m x s s'. Q x \<Longrightarrow> walkDir m rd fn (filepath_Join path (de_name x)) x s = Some (WalkOk, s') \<Longrightarrow> P s'"
    and walk: "walkDir n rd fn path d s = Some (WalkOk, s')" "de_IsDir d"
  shows "P s'"
proof (cases n)
  case (Suc m)
  obtain r1 s1 where 1: "fn path (Some d) None s = (r1, s1)" by fastforce
  obtain dirs err s2 where 2: "rd path s1 = ((dirs, err), s2)" by (metis prod.exhaust_sel)
  obtain r3 s3 where 3: "(case err of None \<Rightarrow> (WalkOk, s2) | Some e \<Rightarrow> fn path (Some d) (Some e) s2) = (r3, s3)" by fastforce
  have "r1 \<noteq> SkipDir" "r3 \<noteq> SkipDir" using here [of None s] here [of _ s2] 1 3 by (auto split: option.splits) (metis fst_conv)
  then have w: "walkDirs m rd fn path dirs s3 = Some (WalkOk, s')"
    using walk 1 2 3 Suc by (auto split: if_splits)
  obtain x where x: "x \<in> set dirs" "Q x" using rd [OF 2] by blast
  show ?thesis by (rule walkDirs_visits [where P = P, OF keep _ w x(1)]) (use visit [OF x(2)] below [OF 2] in blast)+
qed (use walk in simp)

lemma walkDir_enters:
  assumes keep: "\<And>path d e. keeps P (fn path d e)" "\<And>path. keeps P (rd path)"
    and fn: "\<And>path d e s. fst (fn path d e s) \<noteq> SkipDir"
    and rd: "\<And>s dirs err s'. rd path s = ((dirs, err), s') \<Longrightarrow> \<exists>x \<in> set dirs. Q x"
    and visit: "\<And>m x s s'. Q x \<Longrightarrow> walkDir m rd fn (filepath_Join path (de_name x)) x s = Some (WalkOk, s') \<Longrightarrow> P s'"
    and walk: "walkDir n rd fn path d s = Some (WalkOk, s')" "de_IsDir d"
  shows "P s'"
  by (rule walkDir_reaches [where P = P and Q = Q, OF keep fn fn _ _ walk]) (rule rd visit, assumption+)+

text \<open>What the callback establishes for a directory holds after the walk of it.\<close>

lemma walkDir_calls:
  assumes keep: "\<And>path d e. keeps P (fn path d e)" "\<And>path. keeps P (rd path)"
    and call: "\<And>s s'. fn path (Some d) None s = (WalkOk, s') \<Longrightarrow> P s'" "\<And>s. fst (fn path (Some d) None s) \<noteq> SkipDir"
    and walk: "walkDir n rd fn path d s = Some (WalkOk, s')"
  shows "P s'"
proof (cases n)
  case (Suc m)
  obtain r1 s1 where 1: "fn path (Some d) None s = (r1, s1)" by fastforce
  then have r1: "r1 = WalkOk" using walk Suc call(2) [of s] by (auto split: if_splits)
  then have P1: "P s1" using call(1) 1 by blast
  obtain dirs err s2 where 2: "rd path s1 = ((dirs, err), s2)" by (metis prod.exhaust_sel)
  obtain r3 s3 where 3: "(case err of None \<Rightarrow> (WalkOk, s2) | Some e \<Rightarrow> fn path (Some d) (Some e) s2) = (r3, s3)" by fastforce
  have P2: "P s2" using keepsD [OF keep(2) P1 2] .
  have P3: "P s3" using 3 P2 keepsD [OF keep(1) P2] by (cases err) auto
  have "s' = s1 \<or> s' = s3 \<or> walkDirs m rd fn path dirs s3 = Some (WalkOk, s')" using walk 1 2 3 r1 Suc by (auto split: if_splits)
  then show ?thesis using P1 P3 walkDirs_keeps [where P = P, OF walkDir_keeps [of P fn rd, OF keep] P3] by blast
qed (use walk in simp)

section \<open>Walks end\<close>

text \<open>The kernel refuses paths of \<open>PATH_MAX\<close> bytes and more, and directory entries are named by single path
  elements other than \<open>.\<close> and \<open>..\<close>. Each level of a walk makes the path longer, so the depth is bounded.\<close>

abbreviation PATH_MAX :: nat where
  "PATH_MAX \<equiv> 4096"

definition bounded_reads :: "(string \<Rightarrow> 's \<Rightarrow> (dirent list \<times> errno option) \<times> 's) \<Rightarrow> bool" where
  "bounded_reads rd \<longleftrightarrow> (\<forall>path s dirs err s'. rd path s = ((dirs, err), s') \<longrightarrow>
     (\<forall>d \<in> set dirs. plain (de_name d)) \<and> (PATH_MAX \<le> length path \<longrightarrow> dirs = []))"

lemma filepath_Join_plain:
  assumes "\<forall>p \<in> set ps. plain p" "plain q"
  shows "filepath_Join (abs_path ps) q = abs_path (ps @ [q])" "length (abs_path ps) < length (abs_path (ps @ [q]))"
  using filepath_Join_abs [of ps "[q]"] assms
  by (simp_all add: abs_path_def) (cases "ps = []"; simp add: join_slash_append plain_def)

lemma walkDirs_total:
  assumes "\<And>d s. d \<in> set ds \<Longrightarrow> walkDir n rd fn (filepath_Join path (de_name d)) d s \<noteq> None"
  shows "walkDirs n rd fn path ds s \<noteq> None"
  using assms
proof (induction ds arbitrary: s)
  case (Cons d ds)
  obtain r s' where "walkDir n rd fn (filepath_Join path (de_name d)) d s = Some (r, s')"
    using Cons.prems [of d s] by auto
  then show ?case using Cons.IH [of s'] Cons.prems by (simp del: walkDir.simps)
qed simp

lemma walkDir_total:
  assumes "bounded_reads rd" "\<forall>p \<in> set ps. plain p" "0 < n" "PATH_MAX < length (abs_path ps) + n"
  shows "walkDir n rd fn (abs_path ps) d s \<noteq> None"
  using assms(2-)
proof (induction n arbitrary: ps d s)
  case (Suc n)
  have total: "walkDirs n rd fn (abs_path ps) dirs s3 \<noteq> None" if rd: "rd (abs_path ps) s1 = ((dirs, err), s2)" for dirs err s1 s2 s3
  proof (rule walkDirs_total)
    fix d' s' assume d': "d' \<in> set dirs"
    have q: "plain (de_name d')" and short: "length (abs_path ps) < PATH_MAX"
      using assms(1) rd d' unfolding bounded_reads_def by (blast, fastforce simp: not_le [symmetric])
    note j = filepath_Join_plain [OF Suc.prems(1) q]
    have "0 < n" "PATH_MAX < length (abs_path (ps @ [de_name d'])) + n" using short Suc.prems(3) j(2) by linarith+
    then show "walkDir n rd fn (filepath_Join (abs_path ps) (de_name d')) d' s' \<noteq> None"
      unfolding j(1) using Suc.prems(1) q by (intro Suc.IH) auto
  qed
  show ?case using total by (auto simp del: walkDirs.simps not_None_eq split: prod.splits option.splits)
qed simp

lemma WalkDir_total:
  assumes "bounded_reads rd" "\<forall>p \<in> set ps. plain p" "PATH_MAX \<le> n"
  shows "WalkDir n ls rd fn (abs_path ps) s \<noteq> None"
proof -
  have "0 < length (abs_path ps)" by (simp add: abs_path_def)
  then have "PATH_MAX < length (abs_path ps) + n" "0 < n" using assms(3) by linarith+
  then have "walkDir n rd fn (abs_path ps) d s1 \<noteq> None" for d s1 by (intro walkDir_total [OF assms(1,2)])
  then show ?thesis by (auto simp: WalkDir_def simp del: not_None_eq split: prod.splits sum.splits option.splits)
qed

end
