(* ===== verification/Cache_Key.thy ===== *)
theory Cache_Key
  imports OS_Interface
begin

text \<open>
  The names of cache entries, from \<open>src/diskutil/cache.go\<close>: \<open>ParseKey\<close>, which accepts the completed
  SHA-256 entries of Bazel's disk cache, and \<open>KeyForPath\<close>, which turns a path below the cache root
  into a key. \<open>isLowerHex\<close> ranges over runes; a byte outside ASCII decodes to a rune above \<open>'f'\<close>, so
  testing every byte gives the same answer.
\<close>

datatype EntryKind = ActionCache | ContentCAS

definition kind_string :: "EntryKind \<Rightarrow> string" where
  "kind_string k = (case k of ActionCache \<Rightarrow> ''ac'' | ContentCAS \<Rightarrow> ''cas'')"

definition entry_kind :: "string \<Rightarrow> EntryKind option" where
  "entry_kind s = (if s = ''ac'' then Some ActionCache else if s = ''cas'' then Some ContentCAS else None)"

definition lower_hex_char :: "char \<Rightarrow> bool" where
  "lower_hex_char r \<longleftrightarrow> (CHR ''0'' \<le> r \<and> r \<le> CHR ''9'') \<or> (CHR ''a'' \<le> r \<and> r \<le> CHR ''f'')"

definition isLowerHex :: "string \<Rightarrow> bool" where
  "isLowerHex value = list_all lower_hex_char value"

definition ParseKey :: "string \<Rightarrow> EntryKind result" where
  "ParseKey key =
     (if Clean key \<noteq> key \<or> IsAbs key then Inl ErrInvalidCacheEntry
      else case split_slash key of
        [p0, p1, p2] \<Rightarrow>
          (case entry_kind p0 of
             None \<Rightarrow> Inl ErrInvalidCacheEntry
           | Some kind \<Rightarrow>
               if length p1 \<noteq> 2 \<or> length p2 \<noteq> 64 \<or> p1 \<noteq> take 2 p2 then Inl ErrInvalidCacheEntry
               else if \<not> isLowerHex p1 \<or> \<not> isLowerHex p2 then Inl ErrInvalidCacheEntry
               else Inr kind)
      | _ \<Rightarrow> Inl ErrInvalidCacheEntry)"

record Cache =
  diskRoot :: string
  rootDevice :: u64
  rootInode :: u64

text \<open>\<open>filepath.Abs\<close> asks for the working directory only when the path is relative.\<close>

definition filepath_Abs :: "'w sys \<Rightarrow> string \<Rightarrow> 'w \<Rightarrow> string result \<times> 'w" where
  "filepath_Abs S path w =
     (if IsAbs path then (Inr (Clean path), w)
      else case sys_getwd S w of
        (Inl e, w') \<Rightarrow> (Inl (Errno e), w')
      | (Inr wd, w') \<Rightarrow> (Inr (filepath_Join wd path), w'))"

definition KeyForPath :: "'w sys \<Rightarrow> Cache \<Rightarrow> string \<Rightarrow> 'w \<Rightarrow> (string \<times> EntryKind) result \<times> 'w" where
  "KeyForPath S c path w =
     (case filepath_Abs S (Clean path) w of
        (Inl e, w') \<Rightarrow> (Inl e, w')
      | (Inr absPath, w') \<Rightarrow>
          (case Rel (diskRoot c) absPath of
             None \<Rightarrow> (Inl (ErrMsg ''Rel''), w')
           | Some key \<Rightarrow>
               (case ParseKey key of
                  Inl e \<Rightarrow> (Inl e, w')
                | Inr kind \<Rightarrow> (Inr (key, kind), w'))))"

section \<open>The shape of a key\<close>

definition digest :: "string \<Rightarrow> bool" where
  "digest d \<longleftrightarrow> length d = 64 \<and> isLowerHex d"

definition key_of :: "EntryKind \<Rightarrow> string \<Rightarrow> string" where
  "key_of kind d = join_slash [kind_string kind, take 2 d, d]"

lemma lower_hex_facts: "lower_hex_char c \<Longrightarrow> c \<noteq> slash \<and> c \<noteq> CHR ''.''"
  by (auto simp: lower_hex_char_def less_eq_char_def)

lemma isLowerHex_take [simp]: "isLowerHex d \<Longrightarrow> isLowerHex (take n d)"
  by (auto simp: isLowerHex_def list_all_iff dest: in_set_takeD)

lemma isLowerHex_plain: "isLowerHex d \<Longrightarrow> d \<noteq> [] \<Longrightarrow> plain d"
  by (cases d) (auto simp: isLowerHex_def plain_def list_all_iff dest: lower_hex_facts)

lemma plain_kind [simp]: "plain (kind_string k)"
  by (cases k) (auto simp: kind_string_def plain_def)

lemma plain_key:
  assumes "digest d" shows "\<forall>p \<in> set [kind_string kind, take 2 d, d]. plain p"
proof -
  have "d \<noteq> []" "isLowerHex d" using assms by (auto simp: digest_def)
  then have "plain d" "plain (take 2 d)" by (simp_all add: isLowerHex_plain)
  then show ?thesis by simp
qed

lemma key_of_split:
  assumes "digest d" shows "split_slash (key_of kind d) = [kind_string kind, take 2 d, d]"
  using plain_key [OF assms, of kind] unfolding key_of_def
  by (intro split_join_slash ballI plain_no_slash) auto

lemma entry_kind_iff: "entry_kind s = Some k \<longleftrightarrow> s = kind_string k"
  by (cases k) (auto simp: entry_kind_def kind_string_def)

lemma ParseKey_key_of:
  assumes "digest d" shows "ParseKey (key_of kind d) = Inr kind"
proof -
  have "Clean (key_of kind d) = key_of kind d" "\<not> IsAbs (key_of kind d)"
    using plain_key [OF assms, of kind] unfolding key_of_def by (simp_all only: Clean_relative list.distinct not_False_eq_True)
  moreover have "entry_kind (kind_string kind) = Some kind" by (simp add: entry_kind_iff)
  ultimately show ?thesis using assms by (simp add: ParseKey_def key_of_split digest_def)
qed

lemma ParseKey_shape:
  assumes "ParseKey key = Inr kind" obtains d where "digest d" "key = key_of kind d"
proof -
  obtain p0 p1 p2 where p: "split_slash key = [p0, p1, p2]" "entry_kind p0 = Some kind" "length p2 = 64"
    "p1 = take 2 p2" "isLowerHex p2"
    using assms by (auto simp: ParseKey_def split: if_splits list.splits option.splits)
  then have "key = key_of kind p2" using join_split_slash [of key] by (simp add: key_of_def entry_kind_iff)
  then show thesis using that p by (simp add: digest_def)
qed

lemma ParseKey_nonempty: "ParseKey key = Inr kind \<Longrightarrow> key \<noteq> [] \<and> key \<noteq> ''.''"
  by (erule ParseKey_shape) (auto simp: key_of_def kind_string_def split: EntryKind.splits)

section \<open>Paths below the root\<close>

text \<open>The root \<open>NewCache\<close> keeps is clean and absolute.\<close>

definition root_elements :: "Cache \<Rightarrow> string list" where
  "root_elements c = rel_parts (diskRoot c)"

definition cache_ok :: "Cache \<Rightarrow> bool" where
  "cache_ok c \<longleftrightarrow> (\<forall>p \<in> set (root_elements c). plain p) \<and> diskRoot c = abs_path (root_elements c)"

lemma cache_ok_iff: "cache_ok c \<longleftrightarrow> (\<exists>ps. (\<forall>p \<in> set ps. plain p) \<and> diskRoot c = abs_path ps)"
  by (auto simp: cache_ok_def root_elements_def)

lemma Clean_key_path:
  assumes "cache_ok c" "digest d"
  shows "filepath_Join (diskRoot c) (key_of kind d) = abs_path (root_elements c @ [kind_string kind, take 2 d, d])"
  using assms(1) plain_key [OF assms(2), of kind] unfolding key_of_def cache_ok_def
  by (metis filepath_Join_abs list.distinct(1))

lemma key_of_not_up: "digest d \<Longrightarrow> key_of kind d \<noteq> join_slash (''..'' # rs)"
proof
  assume d: "digest d" and eq: "key_of kind d = join_slash (''..'' # rs)"
  have "hd (key_of kind d) \<in> {CHR ''a'', CHR ''c''}" by (cases kind) (auto simp: key_of_def kind_string_def)
  moreover have "hd (join_slash (''..'' # rs)) = CHR ''.''" by (cases rs) auto
  ultimately show False using eq by auto
qed

text \<open>\<open>KeyForPath\<close> on an absolute path, in terms of the clean path.\<close>

lemma KeyForPath_abs:
  assumes "cache_ok c" "IsAbs path"
  shows "KeyForPath S c path w = (r, w') \<Longrightarrow> w' = w"
    and "fst (KeyForPath S c path w) = Inr (key, kind) \<longleftrightarrow>
      ParseKey key = Inr kind \<and> Clean path = filepath_Join (diskRoot c) key"
proof -
  obtain ts where ts: "Clean path = abs_path ts" "\<forall>t \<in> set ts. plain t" using Clean_abs [OF assms(2)] .
  let ?ps = "root_elements c"
  have ps: "diskRoot c = abs_path ?ps" "\<forall>p \<in> set ?ps. plain p" using assms(1) by (auto simp: cache_ok_def)
  have eq: "KeyForPath S c path w = (case Rel (abs_path ?ps) (abs_path ts) of
             None \<Rightarrow> (Inl (ErrMsg ''Rel''), w)
           | Some key \<Rightarrow> (case ParseKey key of Inl e \<Rightarrow> (Inl e, w) | Inr kind \<Rightarrow> (Inr (key, kind), w)))"
    using ts ps by (simp add: KeyForPath_def filepath_Abs_def)
  then show "KeyForPath S c path w = (r, w') \<Longrightarrow> w' = w" by (auto split: option.splits sum.splits)
  show "fst (KeyForPath S c path w) = Inr (key, kind) \<longleftrightarrow>
      ParseKey key = Inr kind \<and> Clean path = filepath_Join (diskRoot c) key"
  proof
    assume "fst (KeyForPath S c path w) = Inr (key, kind)"
    then have k: "Rel (abs_path ?ps) (abs_path ts) = Some key" "ParseKey key = Inr kind"
      by (auto simp: eq split: option.splits sum.splits)
    obtain d where d: "digest d" "key = key_of kind d" using ParseKey_shape [OF k(2)] .
    from Rel_abs_cases [OF ps(2) ts(2)] show "ParseKey key = Inr kind \<and> Clean path = filepath_Join (diskRoot c) key"
    proof cases
      case 1
      then have "key = ''.''" using k(1) by simp
      then show ?thesis using ParseKey_nonempty [OF k(2)] by simp
    next
      case (2 qs)
      then have "join_slash qs = key" using k(1) by simp
      moreover have "\<forall>q \<in> set qs. plain q" using 2(1) ts(2) by simp
      ultimately show ?thesis using 2 k(2) ps ts filepath_Join_abs [OF ps(2) _ 2(2)] by auto
    next
      case (3 rs)
      then show ?thesis using k(1) d key_of_not_up [OF d(1)] by auto
    qed
  next
    assume a: "ParseKey key = Inr kind \<and> Clean path = filepath_Join (diskRoot c) key"
    obtain d where d: "digest d" "key = key_of kind d" using ParseKey_shape a by blast
    let ?q = "[kind_string kind, take 2 d, d]"
    have q: "\<forall>q \<in> set ?q. plain q" using plain_key [OF d(1)] .
    have "abs_path ts = abs_path (?ps @ ?q)" using a ts d Clean_key_path [OF assms(1) d(1)] by simp
    then have "ts = ?ps @ ?q" using ts(2) ps(2) q by (subst (asm) abs_path_inj) auto
    then have "Rel (abs_path ?ps) (abs_path ts) = Some key"
      using Rel_below [OF ps(2) q] d(2) by (simp add: key_of_def)
    then show "fst (KeyForPath S c path w) = Inr (key, kind)" using a by (simp add: eq)
  qed
qed

section \<open>Properties\<close>

lemma lower_hex_char_set: "lower_hex_char c \<longleftrightarrow> c \<in> set ''0123456789abcdef''"
proof
  assume "lower_hex_char c"
  then have "of_char c \<in> {48 .. 57 :: nat} \<union> {97 .. 102}"
    by (auto simp: lower_hex_char_def less_eq_char_def)
  then have "(of_char c :: nat) \<in> set ([48..<58] @ [97..<103])"
    by (simp only: set_append set_upt Un_iff atLeastLessThan_iff atLeastAtMost_iff) linarith
  then have "char_of (of_char c :: nat) \<in> char_of ` set ([48 :: nat..<58] @ [97..<103])" by blast
  then have "c \<in> char_of ` set ([48 :: nat..<58] @ [97..<103])" by simp
  also have "char_of ` set ([48 :: nat..<58] @ [97..<103]) = set ''0123456789abcdef''" by code_simp
  finally show "c \<in> set ''0123456789abcdef''" .
next
  assume "c \<in> set ''0123456789abcdef''"
  moreover have "list_all lower_hex_char ''0123456789abcdef''" by code_simp
  ultimately show "lower_hex_char c" by (auto simp: list_all_iff)
qed

lemma digest_iff: "digest d \<longleftrightarrow> length d = 64 \<and> set d \<subseteq> set ''0123456789abcdef''"
  unfolding digest_def isLowerHex_def list_all_iff subset_eq using lower_hex_char_set by blast

text \<open>C19: \<open>ParseKey\<close> accepts exactly the keys \<open>ac/xx/d\<close> and \<open>cas/xx/d\<close> where \<open>d\<close> is 64 lowercase
  hexadecimal digits and \<open>xx\<close> its first two, and names the store; everything else is rejected as an
  invalid entry.\<close>

theorem ParseKey_iff:
  "(ParseKey key = Inr kind \<longleftrightarrow>
     (\<exists>d. length d = 64 \<and> set d \<subseteq> set ''0123456789abcdef'' \<and>
        key = (case kind of ActionCache \<Rightarrow> ''ac/'' | ContentCAS \<Rightarrow> ''cas/'') @ take 2 d @ ''/'' @ d)) \<and>
   ParseKey key \<in> range Inr \<union> {Inl ErrInvalidCacheEntry}"
proof -
  have key: "key_of kind d = (case kind of ActionCache \<Rightarrow> ''ac/'' | ContentCAS \<Rightarrow> ''cas/'') @ take 2 d @ ''/'' @ d" for d
    by (simp add: key_of_def kind_string_def split: EntryKind.split)
  have "ParseKey key = Inr kind \<longleftrightarrow> (\<exists>d. digest d \<and> key = key_of kind d)"
    by (metis ParseKey_key_of ParseKey_shape)
  moreover have "ParseKey key \<in> range Inr \<union> {Inl ErrInvalidCacheEntry}"
    by (auto simp: ParseKey_def split: list.splits option.splits)
  ultimately show ?thesis unfolding key digest_iff by blast
qed

text \<open>C20: \<open>KeyForPath\<close> and joining a key to the root are inverse to each other. For a clean absolute
  root, an absolute path gets the key \<open>key\<close> exactly when \<open>key\<close> is a valid key and the path names the
  file \<open>key\<close> below the root; no path outside the root gets a key, however many \<open>..\<close> elements it has.\<close>

theorem KeyForPath_roundtrip:
  assumes "cache_ok c" "IsAbs path"
  shows "(fst (KeyForPath S c path w) = Inr (key, kind) \<longleftrightarrow>
      ParseKey key = Inr kind \<and> Clean path = filepath_Join (diskRoot c) key) \<and>
    (ParseKey key = Inr kind \<longrightarrow> KeyForPath S c (filepath_Join (diskRoot c) key) w = (Inr (key, kind), w))"
proof (intro conjI impI)
  show "fst (KeyForPath S c path w) = Inr (key, kind) \<longleftrightarrow>
      ParseKey key = Inr kind \<and> Clean path = filepath_Join (diskRoot c) key"
    by (rule KeyForPath_abs(2) [OF assms])
  assume k: "ParseKey key = Inr kind"
  obtain d where d: "digest d" "key = key_of kind d" using ParseKey_shape [OF k] .
  have "\<forall>p \<in> set (root_elements c @ [kind_string kind, take 2 d, d]). plain p"
    using assms(1) plain_key [OF d(1), of kind] by (auto simp: cache_ok_def)
  then have j: "IsAbs (filepath_Join (diskRoot c) key)" "Clean (filepath_Join (diskRoot c) key) = filepath_Join (diskRoot c) key"
    using Clean_key_path [OF assms(1) d(1), of kind] d(2) by (simp_all del: set_append)
  obtain r w' where r: "KeyForPath S c (filepath_Join (diskRoot c) key) w = (r, w')" by fastforce
  then show "KeyForPath S c (filepath_Join (diskRoot c) key) w = (Inr (key, kind), w)"
    using KeyForPath_abs [OF assms(1) j(1)] j(2) k by (metis fst_conv)
qed

definition example_cache :: Cache where
  "example_cache = \<lparr>diskRoot = ''/cache'', rootDevice = 7, rootInode = 1\<rparr>"

lemma example_cache_ok: "cache_ok example_cache"
  by (auto simp: cache_ok_iff example_cache_def abs_path_def plain_def intro: exI [of _ "[''cache'']"])

theorem KeyForPath_roundtrip_witness:
  "\<forall>S :: unit sys. fst (KeyForPath S example_cache (''/cache/tmp/../cas/aa/'' @ replicate 64 CHR ''a'') ()) =
     Inr (''cas/aa/'' @ replicate 64 CHR ''a'', ContentCAS)"
proof -
  let ?p = "''/cache/tmp/../cas/aa/'' @ replicate 64 CHR ''a''"
  have "IsAbs ?p" by simp
  moreover have "ParseKey (''cas/aa/'' @ replicate 64 CHR ''a'') = Inr ContentCAS"
    "Clean ?p = filepath_Join (diskRoot example_cache) (''cas/aa/'' @ replicate 64 CHR ''a'')" by code_simp+
  ultimately have "fst (KeyForPath S example_cache ?p ()) = Inr (''cas/aa/'' @ replicate 64 CHR ''a'', ContentCAS)"
    for S :: "unit sys" using KeyForPath_roundtrip [OF example_cache_ok, of ?p S "()"] by blast
  then show ?thesis by (rule allI)
qed

end
