(* ===== verification/Disk_Cache.thy ===== *)
theory Disk_Cache
  imports Cache_Key
begin

text \<open>
  The cache directory of \<open>src/diskutil/cache.go\<close>, \<open>delete_linux.go\<close> and \<open>identity_unix.go\<close>:
  opening the root, taking the snapshot of an entry, scanning the two stores and deleting an entry
  through directory descriptors.

  The properties hold for every record of calls: what a scan returns is what some call answered, and
  \<open>Delete\<close> reaches \<open>unlinkat\<close> only along one sequence of calls with answers that match the snapshot, and closes
  every descriptor it opened. They are stated on a trace, which \<open>traced\<close> adds to any record of calls.
\<close>

section \<open>Entries\<close>

record EntryInfo =
  ei_Key :: string
  ei_Path :: string
  ei_Kind :: EntryKind
  ei_Size :: int
  ei_ModTime :: time
  ei_Device :: u64
  ei_Inode :: u64

text \<open>On Linux \<open>Sys()\<close> of a file's information is always a \<open>Stat_t\<close>.\<close>

definition fileIdentity :: "filestat \<Rightarrow> (u64 \<times> u64) option" where
  "fileIdentity st = Some (st_dev st, st_ino st)"

definition NewCache :: "'w sys \<Rightarrow> string \<Rightarrow> 'w \<Rightarrow> Cache result \<times> 'w" where
  "NewCache S root0 w =
     (case filepath_Abs S (Clean root0) w of
        (Inl e, w1) \<Rightarrow> (Inl e, w1)
      | (Inr root1, w1) \<Rightarrow>
          (case sys_EvalSymlinks S root1 w1 of
             (Inl e, w2) \<Rightarrow> (Inl (Errno e), w2)
           | (Inr root2, w2) \<Rightarrow>
               (case sys_lstat S root2 w2 of
                  (Inl e, w3) \<Rightarrow> (Inl (Errno e), w3)
                | (Inr info, w3) \<Rightarrow>
                    if \<not> IsDir info \<or> IsSymlink info then (Inl (ErrMsg ''cache root must be a real directory''), w3)
                    else (case fileIdentity info of
                      None \<Rightarrow> (Inl (ErrMsg ''cache root identity is unavailable''), w3)
                    | Some (device, inode) \<Rightarrow>
                        (Inr \<lparr>diskRoot = root2, rootDevice = device, rootInode = inode\<rparr>, w3)))))"

definition DiskRoot :: "Cache \<Rightarrow> string" where
  "DiskRoot c = diskRoot c"

definition Snapshot :: "'w sys \<Rightarrow> Cache \<Rightarrow> string \<Rightarrow> 'w \<Rightarrow> EntryInfo result \<times> 'w" where
  "Snapshot S c key w =
     (case ParseKey key of
        Inl e \<Rightarrow> (Inl e, w)
      | Inr kind \<Rightarrow>
          let path = filepath_Join (diskRoot c) key
          in (case sys_lstat S path w of
                (Inl e, w') \<Rightarrow> (Inl (Errno e), w')
              | (Inr info, w') \<Rightarrow>
                  if \<not> IsRegular info \<or> IsSymlink info then (Inl ErrInvalidCacheEntry, w')
                  else (case fileIdentity info of
                    None \<Rightarrow> (Inl ErrInvalidCacheEntry, w')
                  | Some (device, inode) \<Rightarrow>
                      (Inr \<lparr>ei_Key = key, ei_Path = path, ei_Kind = kind, ei_Size = st_size info,
                            ei_ModTime = st_mtime info, ei_Device = device, ei_Inode = inode\<rparr>, w'))))"

section \<open>Scanning\<close>

text \<open>The walk's state is the world and the entries collected so far.\<close>

definition on_fst :: "('w \<Rightarrow> 'a \<times> 'w) \<Rightarrow> 'w \<times> 'b \<Rightarrow> 'a \<times> ('w \<times> 'b)" where
  "on_fst m s = (case m (fst s) of (a, w') \<Rightarrow> (a, (w', snd s)))"

definition scan_fn :: "'w sys \<Rightarrow> Cache \<Rightarrow> ('w \<times> EntryInfo list) walk_fn" where
  "scan_fn S c path entry walkErr s =
     (case walkErr of
        Some e \<Rightarrow> if e = ENOENT then (WalkOk, s) else (WalkErr (Errno e), s)
      | None \<Rightarrow>
          (case entry of
             None \<Rightarrow> (WalkOk, s)
           | Some d \<Rightarrow>
               if de_IsSymlink d then (if de_IsDir d then SkipDir else WalkOk, s)
               else if de_IsDir d then (WalkOk, s)
               else (case KeyForPath S c path (fst s) of
                 (Inl _, w1) \<Rightarrow> (WalkOk, (w1, snd s))
               | (Inr (key, _), w1) \<Rightarrow>
                   (case Snapshot S c key w1 of
                      (Inl e, w2) \<Rightarrow>
                        (if is_not_exist e \<or> e = ErrInvalidCacheEntry then WalkOk else WalkErr e, (w2, snd s))
                    | (Inr snap, w2) \<Rightarrow> (WalkOk, (w2, snd s @ [snap]))))))"

definition scan_store :: "nat \<Rightarrow> 'w sys \<Rightarrow> Cache \<Rightarrow> EntryKind \<Rightarrow> 'w \<times> EntryInfo list \<Rightarrow>
    (walk_result \<times> ('w \<times> EntryInfo list)) option" where
  "scan_store n S c kind s =
     WalkDir n (\<lambda>p. on_fst (sys_lstat S p)) (\<lambda>p. on_fst (sys_ReadDir S p)) (scan_fn S c)
       (filepath_Join (diskRoot c) (kind_string kind)) s"

primrec scan_stores :: "nat \<Rightarrow> 'w sys \<Rightarrow> Cache \<Rightarrow> EntryKind list \<Rightarrow> 'w \<times> EntryInfo list \<Rightarrow>
    (EntryInfo list result \<times> 'w) option" where
  "scan_stores n S c [] s = Some (Inr (snd s), fst s)"
| "scan_stores n S c (kind # kinds) s =
     (case scan_store n S c kind s of
        None \<Rightarrow> None
      | Some (WalkErr e, s') \<Rightarrow> if is_not_exist e then scan_stores n S c kinds s' else Some (Inl e, fst s')
      | Some (_, s') \<Rightarrow> scan_stores n S c kinds s')"

definition GetEntries :: "nat \<Rightarrow> 'w sys \<Rightarrow> Cache \<Rightarrow> 'w \<Rightarrow> (EntryInfo list result \<times> 'w) option" where
  "GetEntries n S c w = scan_stores n S c [ActionCache, ContentCAS] (w, [])"

section \<open>Deleting\<close>

text \<open>\<open>defer unix.Close(fd)\<close>: the descriptor is closed when the body is done; the error of \<open>close\<close> is
  dropped.\<close>

definition with_fd :: "'w sys \<Rightarrow> fd \<Rightarrow> ('w \<Rightarrow> 'a \<times> 'w) \<Rightarrow> 'w \<Rightarrow> 'a \<times> 'w" where
  "with_fd S f body w = (case body w of (r, w1) \<Rightarrow> (r, snd (sys_close S f w1)))"

abbreviation dir_flags :: "oflag list" where
  "dir_flags \<equiv> [O_RDONLY, O_DIRECTORY, O_CLOEXEC, O_NOFOLLOW]"

definition stat_matches :: "EntryInfo \<Rightarrow> filestat \<Rightarrow> bool" where
  "stat_matches snap st \<longleftrightarrow> file_type st = S_IFREG \<and> st_dev st = ei_Device snap \<and>
     st_ino st = ei_Inode snap \<and> st_size st = ei_Size snap \<and> UnixNano (st_mtime st) = UnixNano (ei_ModTime snap)"

definition unlink_entry :: "'w sys \<Rightarrow> EntryInfo \<Rightarrow> fd \<Rightarrow> string \<Rightarrow> 'w \<Rightarrow> unit result \<times> 'w" where
  "unlink_entry S snap shardFD name w =
     (case sys_fstatat S shardFD name w of
        (Inl e, w1) \<Rightarrow> (Inl (Errno e), w1)
      | (Inr st, w1) \<Rightarrow>
          if \<not> stat_matches snap st then (Inl ErrEntryChanged, w1)
          else (case sys_unlinkat S shardFD name w1 of
            (Inl e, w2) \<Rightarrow> (Inl (Errno e), w2)
          | (Inr _, w2) \<Rightarrow> (Inr (), w2)))"

definition deleteSnapshot :: "'w sys \<Rightarrow> Cache \<Rightarrow> EntryInfo \<Rightarrow> 'w \<Rightarrow> unit result \<times> 'w" where
  "deleteSnapshot S c snap w =
     (if ParseKey (ei_Key snap) \<noteq> Inr (ei_Kind snap) then (Inl ErrInvalidCacheEntry, w)
      else let parts = split_slash (ei_Key snap)
           in (case sys_open S (diskRoot c) dir_flags w of
             (Inl e, w1) \<Rightarrow> (Inl (Errno e), w1)
           | (Inr rootFD, w1) \<Rightarrow> with_fd S rootFD (\<lambda>w2.
               (case sys_fstat S rootFD w2 of
                  (Inl e, w3) \<Rightarrow> (Inl (Errno e), w3)
                | (Inr rootStat, w3) \<Rightarrow>
                    if st_dev rootStat \<noteq> rootDevice c \<or> st_ino rootStat \<noteq> rootInode c then (Inl ErrEntryChanged, w3)
                    else (case sys_openat S rootFD (parts ! 0) dir_flags w3 of
                      (Inl e, w4) \<Rightarrow> (Inl (Errno e), w4)
                    | (Inr storeFD, w4) \<Rightarrow> with_fd S storeFD (\<lambda>w5.
                        (case sys_openat S storeFD (parts ! 1) dir_flags w5 of
                           (Inl e, w6) \<Rightarrow> (Inl (Errno e), w6)
                         | (Inr shardFD, w6) \<Rightarrow> with_fd S shardFD (unlink_entry S snap shardFD (parts ! 2)) w6)) w4))) w1))"

definition Delete :: "'w sys \<Rightarrow> Cache \<Rightarrow> EntryInfo \<Rightarrow> 'w \<Rightarrow> unit result \<times> 'w" where
  "Delete S c snap w =
     (if ei_Key snap = [] then (Inl ErrInvalidCacheEntry, w) else deleteSnapshot S c snap w)"

section \<open>What a scan returns\<close>

text \<open>An entry that some answer of \<open>lstat\<close> on its path backs.\<close>

definition backed :: "'w sys \<Rightarrow> Cache \<Rightarrow> EntryInfo \<Rightarrow> bool" where
  "backed S c e \<longleftrightarrow> ParseKey (ei_Key e) = Inr (ei_Kind e) \<and> ei_Path e = filepath_Join (diskRoot c) (ei_Key e) \<and>
     (\<exists>w st w'. sys_lstat S (ei_Path e) w = (Inr st, w') \<and> IsRegular st \<and> \<not> IsSymlink st \<and>
        st_size st = ei_Size e \<and> st_mtime st = ei_ModTime e \<and> st_dev st = ei_Device e \<and> st_ino st = ei_Inode e)"

lemma Snapshot_backed: "Snapshot S c key w = (Inr e, w') \<Longrightarrow> backed S c e \<and> ei_Key e = key"
  by (auto simp: Snapshot_def backed_def fileIdentity_def Let_def split: sum.splits prod.splits if_splits) blast

lemma scan_fn_backed: "keeps (\<lambda>s. \<forall>e \<in> set (snd s). backed S c e) (scan_fn S c path d err)"
  by (rule keepsI)
    (auto simp: scan_fn_def split: option.splits sum.splits prod.splits dest: Snapshot_backed)

lemma on_fst_keeps: "keeps (\<lambda>s. P (snd s)) (on_fst m)"
  by (rule keepsI) (simp add: on_fst_def split: prod.split)

lemma scan_store_backed: "keeps_opt (\<lambda>s. \<forall>e \<in> set (snd s). backed S c e) (scan_store n S c kind)"
  unfolding scan_store_def [abs_def] by (rule WalkDir_keeps) (rule scan_fn_backed on_fst_keeps)+

lemma scan_stores_backed:
  "scan_stores n S c kinds s = Some (Inr es, w') \<Longrightarrow> \<forall>e \<in> set (snd s). backed S c e \<Longrightarrow> \<forall>e \<in> set es. backed S c e"
proof (induction kinds arbitrary: s)
  case (Cons kind kinds)
  obtain r s' where s': "scan_store n S c kind s = Some (r, s')"
    using Cons.prems(1) by (auto split: option.splits)
  have "\<forall>e \<in> set (snd s'). backed S c e"
    by (rule keeps_optD [OF scan_store_backed Cons.prems(2) s'])
  then show ?case using Cons s' by (auto split: walk_result.splits if_splits)
qed simp

section \<open>Scans end\<close>

lemma bounded_reads_on_fst: "bounded_reads rd \<Longrightarrow> bounded_reads (\<lambda>p. on_fst (rd p))"
  unfolding bounded_reads_def on_fst_def by (fastforce split: prod.splits)

lemma store_path:
  assumes "cache_ok c"
  shows "filepath_Join (diskRoot c) (kind_string kind) = abs_path (root_elements c @ [kind_string kind])"
    "\<forall>p \<in> set (root_elements c @ [kind_string kind]). plain p"
  using assms filepath_Join_plain(1) [of "root_elements c" "kind_string kind"] by (auto simp: cache_ok_def)

lemma scan_stores_total:
  assumes "cache_ok c" "bounded_reads (sys_ReadDir S)" "PATH_MAX \<le> n"
  shows "scan_stores n S c kinds s \<noteq> None"
proof (induction kinds arbitrary: s)
  case (Cons kind kinds)
  have "scan_store n S c kind s \<noteq> None"
    unfolding scan_store_def store_path(1) [OF assms(1)]
    by (rule WalkDir_total [OF bounded_reads_on_fst [OF assms(2)] store_path(2) [OF assms(1)] assms(3)])
  then show ?case using Cons by (auto simp del: not_None_eq split: option.splits walk_result.splits)
qed simp

lemma GetEntries_total:
  "cache_ok c \<Longrightarrow> bounded_reads (sys_ReadDir S) \<Longrightarrow> PATH_MAX \<le> n \<Longrightarrow> GetEntries n S c w \<noteq> None"
  unfolding GetEntries_def by (rule scan_stores_total)

section \<open>What a scan finds\<close>

text \<open>The entry of digest \<open>d\<close> is there whenever the system is asked: its store and its file answer \<open>lstat\<close>, and the listings of the
  store and of the shard show the shard and the file. Everything else may change at any time.\<close>

definition steady :: "'w sys \<Rightarrow> Cache \<Rightarrow> EntryKind \<Rightarrow> string \<Rightarrow> bool" where
  "steady S c kind d \<longleftrightarrow>
     (let store = abs_path (root_elements c @ [kind_string kind]);
          shard = abs_path (root_elements c @ [kind_string kind, take 2 d]);
          entry = abs_path (root_elements c @ [kind_string kind, take 2 d, d])
      in (\<forall>w. \<exists>st w'. sys_lstat S store w = (Inr st, w') \<and> IsDir st) \<and>
         (\<forall>w dirs err w'. sys_ReadDir S store w = ((dirs, err), w') \<longrightarrow> (\<exists>x \<in> set dirs. de_name x = take 2 d \<and> de_IsDir x)) \<and>
         (\<forall>w dirs err w'. sys_ReadDir S shard w = ((dirs, err), w') \<longrightarrow>
            (\<exists>x \<in> set dirs. de_name x = d \<and> \<not> de_IsDir x \<and> \<not> de_IsSymlink x)) \<and>
         (\<forall>w. \<exists>st w'. sys_lstat S entry w = (Inr st, w') \<and> IsRegular st \<and> \<not> IsSymlink st))"

definition found :: "EntryKind \<Rightarrow> string \<Rightarrow> 'w \<times> EntryInfo list \<Rightarrow> bool" where
  "found kind d s \<longleftrightarrow> (\<exists>e \<in> set (snd s). ei_Key e = key_of kind d \<and> ei_Kind e = kind)"

lemma scan_fn_no_skip: "fst (scan_fn S c path d err s) \<noteq> SkipDir"
  by (auto simp: scan_fn_def de_IsDir_def de_IsSymlink_def split: option.splits sum.splits prod.splits)

lemma scan_fn_found: "keeps (found kind d) (scan_fn S c path e err)"
  by (rule keepsI) (auto simp: scan_fn_def found_def split: option.splits sum.splits prod.splits)

lemma on_fst_found: "keeps (found kind d) (on_fst m)"
  by (rule keepsI) (simp add: found_def on_fst_def split: prod.split)

lemma scan_entry:
  assumes "cache_ok c" "digest d" "steady S c kind d" "\<not> de_IsDir x" "\<not> de_IsSymlink x"
    "walkDir n rd (scan_fn S c) (abs_path (root_elements c @ [kind_string kind, take 2 d, d])) x s = Some (WalkOk, s')"
  shows "found kind d s'"
proof -
  let ?p = "abs_path (root_elements c @ [kind_string kind, take 2 d, d])"
  have pl: "\<forall>p \<in> set (root_elements c @ [kind_string kind, take 2 d, d]). plain p"
    using assms(1) plain_key [OF assms(2), of kind] by (auto simp: cache_ok_def)
  have j: "filepath_Join (diskRoot c) (key_of kind d) = ?p" by (rule Clean_key_path [OF assms(1,2)])
  have "fst (KeyForPath S c ?p (fst s)) = Inr (key_of kind d, kind)"
    using KeyForPath_abs(2) [OF assms(1), of ?p S "fst s" "key_of kind d" kind] ParseKey_key_of [OF assms(2)] j pl by simp
  then obtain w1 where k: "KeyForPath S c ?p (fst s) = (Inr (key_of kind d, kind), w1)" by (metis prod.collapse)
  obtain st w2 where st: "sys_lstat S ?p w1 = (Inr st, w2)" "IsRegular st" "\<not> IsSymlink st"
    using assms(3) unfolding steady_def Let_def by metis
  obtain e where e: "Snapshot S c (key_of kind d) w1 = (Inr e, w2)" "ei_Key e = key_of kind d" "ei_Kind e = kind"
    using st ParseKey_key_of [OF assms(2), of kind] j by (simp add: Snapshot_def fileIdentity_def Let_def)
  obtain m where "n = Suc m" using assms(6) by (cases n) auto
  then have "snd (scan_fn S c ?p (Some x) None s) = s'" using assms(4,6) by (auto split: prod.splits)
  then have "snd s' = snd s @ [e]" using k e(1) assms(4,5) by (auto simp: scan_fn_def)
  then show ?thesis using e by (auto simp: found_def)
qed

lemma scan_store_finds:
  assumes "cache_ok c" "digest d" "steady S c kind d" "scan_store n S c kind s = Some (WalkOk, s')"
  shows "found kind d s'"
proof -
  let ?ps = "root_elements c @ [kind_string kind]" and ?rd = "\<lambda>p. on_fst (sys_ReadDir S p)"
  have pl: "\<forall>p \<in> set ?ps. plain p" "plain (take 2 d)" "plain d"
    using assms(1) plain_key [OF assms(2), of kind] by (auto simp: cache_ok_def)
  have shard: "filepath_Join (abs_path ?ps) (take 2 d) = abs_path (root_elements c @ [kind_string kind, take 2 d])"
    using filepath_Join_plain(1) [OF pl(1,2)] by simp
  have entry: "filepath_Join (abs_path (root_elements c @ [kind_string kind, take 2 d])) d =
      abs_path (root_elements c @ [kind_string kind, take 2 d, d])"
    using filepath_Join_plain(1) [of "?ps @ [take 2 d]" d] pl by simp
  obtain st w1 where st: "sys_lstat S (abs_path ?ps) (fst s) = (Inr st, w1)" "IsDir st"
    using assms(3) unfolding steady_def Let_def by metis
  have reads: "?rd p t = ((dirs, err), t') \<Longrightarrow> \<exists>w w'. sys_ReadDir S p w = ((dirs, err), w')" for p t dirs err t'
    by (auto simp: on_fst_def split: prod.splits)
  note enter = walkDir_enters [where P = "found kind d" and rd = ?rd, OF scan_fn_found on_fst_found scan_fn_no_skip]
  obtain r where w: "walkDir n ?rd (scan_fn S c) (abs_path ?ps) \<lparr>de_name = abs_path ?ps, de_type = file_type st\<rparr> (w1, snd s) = Some (r, s')"
      "r = WalkOk \<or> r = SkipDir"
    using assms(4) st by (auto simp: scan_store_def WalkDir_def on_fst_def store_path(1) [OF assms(1)] split: option.splits if_splits)
  then have w: "walkDir n ?rd (scan_fn S c) (abs_path ?ps) \<lparr>de_name = abs_path ?ps, de_type = file_type st\<rparr> (w1, snd s) = Some (WalkOk, s')"
    using walkDir_no_skip [of "scan_fn S c", OF scan_fn_no_skip] by blast
  show ?thesis
  proof (rule enter [OF _ _ w])
    show "\<exists>x \<in> set dirs. de_name x = take 2 d \<and> de_IsDir x" if "?rd (abs_path ?ps) t = ((dirs, err), t')" for t dirs err t'
      using reads [OF that] assms(3) unfolding steady_def Let_def by blast
    show "found kind d t'" if "de_name x = take 2 d \<and> de_IsDir x"
      "walkDir m ?rd (scan_fn S c) (filepath_Join (abs_path ?ps) (de_name x)) x t = Some (WalkOk, t')" for m x t t'
    proof (rule enter)
      show "walkDir m ?rd (scan_fn S c) (abs_path (root_elements c @ [kind_string kind, take 2 d])) x t = Some (WalkOk, t')"
        using that shard by simp
      show "\<exists>y \<in> set dirs. de_name y = d \<and> \<not> de_IsDir y \<and> \<not> de_IsSymlink y"
        if "?rd (abs_path (root_elements c @ [kind_string kind, take 2 d])) u = ((dirs, err), u')" for u dirs err u'
        using reads [OF that] assms(3) unfolding steady_def Let_def by blast
      show "found kind d u'" if "de_name y = d \<and> \<not> de_IsDir y \<and> \<not> de_IsSymlink y"
        "walkDir k ?rd (scan_fn S c) (filepath_Join (abs_path (root_elements c @ [kind_string kind, take 2 d])) (de_name y)) y u =
           Some (WalkOk, u')" for k y u u'
        using scan_entry [OF assms(1-3), of y k] that entry by simp
    qed (use that in simp)
  qed (use st(2) in \<open>simp add: de_IsDir_def IsDir_def\<close>)
qed

text \<open>A store that is scanned with an error that says it is missing was not there at the start.\<close>

lemma scan_fn_result: "fst (scan_fn S c path d err s) \<in> {WalkOk} \<union> WalkErr ` {e. \<not> is_not_exist e}"
  by (auto simp: scan_fn_def de_IsDir_def de_IsSymlink_def is_not_exist_def split: option.splits sum.splits prod.splits)

lemma scan_stores_finds:
  assumes "cache_ok c" "digest d" "steady S c kind d" "scan_stores n S c kinds s = Some (Inr es, w')" "kind \<in> set kinds \<or> found kind d s"
  shows "found kind d (w', es)"
  using assms(4,5)
proof (induction kinds arbitrary: s)
  case (Cons k kinds)
  obtain r s' where st: "scan_store n S c k s = Some (r, s')" using Cons.prems(1) by (auto split: option.splits)
  have keep: "keeps_opt (found kind d) (scan_store n S c k)"
    unfolding scan_store_def [abs_def] by (rule WalkDir_keeps) (rule scan_fn_found on_fst_found)+
  have "found kind d s'" if "\<not> found kind d s" "kind \<notin> set kinds"
  proof -
    have k: "k = kind" using that Cons.prems(2) by auto
    have "r \<in> {WalkOk} \<union> WalkErr ` {e. \<not> is_not_exist e}"
      using WalkDir_result [OF scan_fn_result _ st [unfolded scan_store_def]] by simp
    then have "r = WalkOk" using st Cons.prems(1) by (auto split: if_splits)
    then show ?thesis using scan_store_finds [OF assms(1-3)] st k by blast
  qed
  then have "kind \<in> set kinds \<or> found kind d s'" using keeps_optD [OF keep _ st] by blast
  moreover have "scan_stores n S c kinds s' = Some (Inr es, w')" using Cons.prems(1) st by (auto split: walk_result.splits if_splits)
  ultimately show ?case by (rule Cons.IH [rotated])
qed (auto simp: found_def)

text \<open>\<open>filepath.EvalSymlinks\<close> answers with a clean path, absolute when its argument is.\<close>

definition clean_links :: "'w sys \<Rightarrow> bool" where
  "clean_links S \<longleftrightarrow> (\<forall>p w q w'. IsAbs p \<longrightarrow> sys_EvalSymlinks S p w = (Inr q, w') \<longrightarrow> IsAbs q \<and> Clean q = q)"

lemma NewCache_ok:
  assumes "clean_links S" "NewCache S start w = (Inr c, w')" "\<forall>w wd w'. sys_getwd S w = (Inr wd, w') \<longrightarrow> IsAbs wd"
  shows "cache_ok c"
proof -
  obtain p w1 w2 where p: "filepath_Abs S (Clean start) w = (Inr p, w1)" "sys_EvalSymlinks S p w1 = (Inr (diskRoot c), w2)"
    using assms(2) by (auto simp: NewCache_def fileIdentity_def split: sum.splits prod.splits if_splits)
  have abs: "IsAbs (Clean q)" if "IsAbs q" for q using Clean_abs [OF that] by (metis IsAbs_abs_path)
  have "IsAbs (filepath_Join wd q)" if "IsAbs wd" for wd q
    using that abs [of "wd @ slash # q"] by (cases wd) (auto simp: filepath_Join_def)
  then have "IsAbs p" using p(1) assms(3) abs
    unfolding filepath_Abs_def by (fastforce split: if_splits sum.splits prod.splits)
  then have "IsAbs (diskRoot c)" "Clean (diskRoot c) = diskRoot c"
    using assms(1) p(2) unfolding clean_links_def by blast+
  then show ?thesis using Clean_abs [of "diskRoot c"] by (auto simp: cache_ok_iff)
qed

section \<open>Traces\<close>

datatype event =
    EvOpen string "oflag list" "errno + fd"
  | EvOpenat fd string "oflag list" "errno + fd"
  | EvFstat fd "errno + filestat"
  | EvFstatat fd string "errno + filestat"
  | EvUnlinkat fd string "errno + unit"
  | EvClose fd
  | EvFlock fd lock_op "errno + unit"
  | EvCreateTemp string "errno + fd \<times> string"
  | EvRemove string "errno + unit"

definition traced_call :: "('w \<Rightarrow> 'a \<times> 'w) \<Rightarrow> ('a \<Rightarrow> event) \<Rightarrow> 'w \<times> event list \<Rightarrow> 'a \<times> ('w \<times> event list)" where
  "traced_call m ev s = (case m (fst s) of (a, w') \<Rightarrow> (a, (w', snd s @ [ev a])))"

text \<open>The same calls with a log; the calls that only look paths up are not logged.\<close>

definition traced :: "'w sys \<Rightarrow> ('w \<times> event list) sys" where
  "traced S =
     \<lparr>sys_getwd = on_fst (sys_getwd S), sys_EvalSymlinks = (\<lambda>p. on_fst (sys_EvalSymlinks S p)),
      sys_lstat = (\<lambda>p. on_fst (sys_lstat S p)), sys_ReadDir = (\<lambda>p. on_fst (sys_ReadDir S p)),
      sys_open = (\<lambda>p fl. traced_call (sys_open S p fl) (EvOpen p fl)),
      sys_openat = (\<lambda>d p fl. traced_call (sys_openat S d p fl) (EvOpenat d p fl)),
      sys_fstat = (\<lambda>d. traced_call (sys_fstat S d) (EvFstat d)),
      sys_fstatat = (\<lambda>d p. traced_call (sys_fstatat S d p) (EvFstatat d p)),
      sys_unlinkat = (\<lambda>d p. traced_call (sys_unlinkat S d p) (EvUnlinkat d p)),
      sys_close = (\<lambda>d. traced_call (sys_close S d) (\<lambda>_. EvClose d)),
      sys_flock = (\<lambda>d l. traced_call (sys_flock S d l) (EvFlock d l))\<rparr>"

lemma traced_simps:
  "sys_open (traced S) p fl = traced_call (sys_open S p fl) (EvOpen p fl)"
  "sys_openat (traced S) d p fl = traced_call (sys_openat S d p fl) (EvOpenat d p fl)"
  "sys_fstat (traced S) d = traced_call (sys_fstat S d) (EvFstat d)"
  "sys_fstatat (traced S) d p = traced_call (sys_fstatat S d p) (EvFstatat d p)"
  "sys_unlinkat (traced S) d p = traced_call (sys_unlinkat S d p) (EvUnlinkat d p)"
  "sys_close (traced S) d = traced_call (sys_close S d) (\<lambda>_. EvClose d)"
  "sys_flock (traced S) d l = traced_call (sys_flock S d l) (EvFlock d l)"
  "sys_lstat (traced S) p = on_fst (sys_lstat S p)" "sys_ReadDir (traced S) p = on_fst (sys_ReadDir S p)"
  "sys_getwd (traced S) = on_fst (sys_getwd S)" "sys_EvalSymlinks (traced S) p = on_fst (sys_EvalSymlinks S p)"
  by (simp_all add: traced_def)

text \<open>Only the full sequence of a deletion reaches \<open>unlinkat\<close>: the root opened without following a link
  and still the directory the cache was opened on, the store and the shard opened below it without
  following links, and the entry's current status equal to the snapshot.\<close>

definition delete_trace :: "Cache \<Rightarrow> EntryInfo \<Rightarrow> errno + unit \<Rightarrow> event list \<Rightarrow> bool" where
  "delete_trace c snap res tr \<longleftrightarrow>
     (\<exists>d r s h rst st. digest d \<and> ei_Key snap = key_of (ei_Kind snap) d \<and>
        st_dev rst = rootDevice c \<and> st_ino rst = rootInode c \<and>
        file_type st = S_IFREG \<and> st_dev st = ei_Device snap \<and> st_ino st = ei_Inode snap \<and> st_size st = ei_Size snap \<and>
        i64 (st_mtime st) = i64 (ei_ModTime snap) \<and>
        tr = [EvOpen (diskRoot c) dir_flags (Inr r), EvFstat r (Inr rst),
              EvOpenat r (kind_string (ei_Kind snap)) dir_flags (Inr s),
              EvOpenat s (take 2 d) dir_flags (Inr h),
              EvFstatat h d (Inr st), EvUnlinkat h d res, EvClose h, EvClose s, EvClose r])"

fun opened_fds :: "event list \<Rightarrow> fd list" where
  "opened_fds [] = []"
| "opened_fds (EvOpen _ _ (Inr f) # es) = f # opened_fds es"
| "opened_fds (EvOpenat _ _ _ (Inr f) # es) = f # opened_fds es"
| "opened_fds (_ # es) = opened_fds es"

fun closed_fds :: "event list \<Rightarrow> fd list" where
  "closed_fds [] = []"
| "closed_fds (EvClose f # es) = f # closed_fds es"
| "closed_fds (_ # es) = closed_fds es"

definition unlinks :: "event list \<Rightarrow> event list" where
  "unlinks = filter (\<lambda>e. case e of EvUnlinkat _ _ _ \<Rightarrow> True | _ \<Rightarrow> False)"

text \<open>The temporary files that were created, and the files that \<open>os.Remove\<close> was called for.\<close>

fun temporaries :: "event list \<Rightarrow> string list" where
  "temporaries [] = []"
| "temporaries (EvCreateTemp _ (Inr (_, t)) # es) = t # temporaries es"
| "temporaries (_ # es) = temporaries es"

fun removals :: "event list \<Rightarrow> string list" where
  "removals [] = []"
| "removals (EvRemove p _ # es) = p # removals es"
| "removals (_ # es) = removals es"

lemma unlinks_append [simp]: "unlinks (a @ b) = unlinks a @ unlinks b"
  by (simp add: unlinks_def)

lemma temporaries_append [simp]: "temporaries (a @ b) = temporaries a @ temporaries b"
  by (induction a rule: temporaries.induct) simp_all

lemma removals_append [simp]: "removals (a @ b) = removals a @ removals b"
  by (induction a rule: removals.induct) simp_all

lemmas delete_defs = Delete_def deleteSnapshot_def with_fd_def unlink_entry_def Let_def
lemmas trace_defs = traced_simps traced_call_def

lemma Delete_trace:
  assumes "Delete (traced S) c snap (w, []) = (res, (w', tr))"
  shows "opened_fds tr = rev (closed_fds tr) \<and>
    (unlinks tr = [] \<and> res \<noteq> Inr () \<or> delete_trace c snap (Inr ()) tr \<and> res = Inr () \<or>
     (\<exists>e. delete_trace c snap (Inl e) tr \<and> res = Inl (Errno e)))"
proof (cases "ParseKey (ei_Key snap) = Inr (ei_Kind snap)")
  case True
  obtain d where d: "digest d" "ei_Key snap = key_of (ei_Kind snap) d" using ParseKey_shape [OF True] .
  show ?thesis
    using assms True d ParseKey_nonempty [OF True]
    by (auto simp: delete_defs trace_defs key_of_split [OF d(1), of "ei_Kind snap"] unlinks_def delete_trace_def
          stat_matches_def UnixNano_def
        split: sum.splits prod.splits if_splits)
qed (use assms in \<open>auto simp: Delete_def deleteSnapshot_def unlinks_def split: if_splits\<close>)

text \<open>Tracing changes nothing but the log.\<close>

definition erases :: "('w \<times> 't \<Rightarrow> 'a \<times> ('w \<times> 't)) \<Rightarrow> ('w \<Rightarrow> 'a \<times> 'w) \<Rightarrow> bool" where
  "erases m' m \<longleftrightarrow> (\<forall>w tr r w' tr'. m' (w, tr) = (r, (w', tr')) \<longrightarrow> m w = (r, w'))"

named_theorems erase_intros \<open>a traced computation erases to the plain one\<close>

lemma erasesI: "(\<And>w tr r w' tr'. m' (w, tr) = (r, (w', tr')) \<Longrightarrow> m w = (r, w')) \<Longrightarrow> erases m' m"
  by (simp add: erases_def)

lemma erasesD: "erases m' m \<Longrightarrow> m' (w, tr) = (r, (w', tr')) \<Longrightarrow> m w = (r, w')"
  unfolding erases_def by blast

lemma erases_call [erase_intros]: "erases (traced_call m ev) m" "erases (on_fst m) m"
  by (auto simp: erases_def traced_call_def on_fst_def split: prod.splits)

lemma erases_return [erase_intros]: "erases (\<lambda>s. (r, s)) (\<lambda>w. (r, w))"
  by (simp add: erases_def)

lemma erases_if [erase_intros]:
  "erases f' f \<Longrightarrow> erases g' g \<Longrightarrow> erases (\<lambda>s. if b then f' s else g' s) (\<lambda>w. if b then f w else g w)"
  by (simp add: erases_def)

lemma erases_case [erase_intros]:
  assumes "erases m' m" "\<And>e. erases (f' e) (f e)" "\<And>a. erases (g' a) (g a)"
  shows "erases (\<lambda>s. case m' s of (Inl e, s1) \<Rightarrow> f' e s1 | (Inr a, s1) \<Rightarrow> g' a s1)
    (\<lambda>w. case m w of (Inl e, w1) \<Rightarrow> f e w1 | (Inr a, w1) \<Rightarrow> g a w1)"
proof (rule erasesI)
  fix w tr r w' tr'
  assume r: "(case m' (w, tr) of (Inl e, s1) \<Rightarrow> f' e s1 | (Inr a, s1) \<Rightarrow> g' a s1) = (r, (w', tr'))"
  obtain x w1 tr1 where x: "m' (w, tr) = (x, (w1, tr1))" by (metis prod.exhaust_sel)
  then have "m w = (x, w1)" by (rule erasesD [OF assms(1)])
  then show "(case m w of (Inl e, w1) \<Rightarrow> f e w1 | (Inr a, w1) \<Rightarrow> g a w1) = (r, w')"
    using r x erasesD [OF assms(2)] erasesD [OF assms(3)] by (cases x) auto
qed

lemma erases_with_fd [erase_intros]:
  assumes "erases b' b" shows "erases (with_fd (traced S) f b') (with_fd S f b)"
proof (rule erasesI)
  fix w tr r w' tr'
  assume r: "with_fd (traced S) f b' (w, tr) = (r, (w', tr'))"
  obtain x w1 tr1 where x: "b' (w, tr) = (x, (w1, tr1))" by (metis prod.exhaust_sel)
  then have "b w = (x, w1)" by (rule erasesD [OF assms])
  then show "with_fd S f b w = (r, w')"
    using r x by (auto simp: with_fd_def trace_defs split: prod.splits)
qed

lemma erases_unlink_entry [erase_intros]: "erases (unlink_entry (traced S) snap f nm) (unlink_entry S snap f nm)"
  unfolding unlink_entry_def [abs_def] traced_simps by (intro erase_intros)

lemma erases_deleteSnapshot [erase_intros]: "erases (deleteSnapshot (traced S) c snap) (deleteSnapshot S c snap)"
  unfolding deleteSnapshot_def [abs_def] Let_def traced_simps by (intro erase_intros)

lemma erases_Delete [erase_intros]: "erases (Delete (traced S) c snap) (Delete S c snap)"
  unfolding Delete_def [abs_def] by (intro erase_intros)

section \<open>Properties\<close>

text \<open>C2: \<open>Delete\<close> unlinks only what it selected. Whatever the kernel answers, a run of \<open>Delete\<close> closes
  exactly the descriptors it opened, in reverse order, and it calls \<open>unlinkat\<close> at most once: after it opened
  the root, the store and the shard as directories and without following links, after the root's device and inode
  were those recorded when the cache was opened, and after the entry itself was a regular file with
  the device, inode, size and modification time of the snapshot. It returns nil exactly when that
  \<open>unlinkat\<close> succeeded.\<close>

theorem Delete_guarded:
  "let (res, w') = Delete S c snap w; (res', (w'', tr)) = Delete (traced S) c snap (w, [])
   in res' = res \<and> w'' = w' \<and> opened_fds tr = rev (closed_fds tr) \<and>
      (unlinks tr = [] \<and> res \<noteq> Inr () \<or> delete_trace c snap (Inr ()) tr \<and> res = Inr () \<or>
       (\<exists>e. delete_trace c snap (Inl e) tr \<and> res = Inl (Errno e)))"
proof -
  obtain res w' tr where "Delete (traced S) c snap (w, []) = (res, (w', tr))" by (metis prod.exhaust_sel)
  from this erasesD [OF erases_Delete this] Delete_trace [OF this] show ?thesis by (simp add: Let_def)
qed

text \<open>C24: a scan returns only entries the kernel reported. Every entry of a successful \<open>GetEntries\<close> has a
  valid key of its kind, the path of that key below the root, and the size, time and identity that
  \<open>lstat\<close> answered for that path for a regular file.\<close>

theorem GetEntries_backed:
  assumes "GetEntries n S c w = Some (Inr entries, w')"
  shows "\<forall>e \<in> set entries. ParseKey (ei_Key e) = Inr (ei_Kind e) \<and>
    ei_Path e = filepath_Join (diskRoot c) (ei_Key e) \<and>
    (\<exists>w1 st w2. sys_lstat S (ei_Path e) w1 = (Inr st, w2) \<and> IsRegular st \<and> st_size st = ei_Size e \<and>
       st_mtime st = ei_ModTime e \<and> st_dev st = ei_Device e \<and> st_ino st = ei_Inode e)"
proof
  fix e assume "e \<in> set entries"
  then have "backed S c e" using scan_stores_backed [of n S c "[ActionCache, ContentCAS]" "(w, [])"] assms
    by (simp add: GetEntries_def)
  then show "ParseKey (ei_Key e) = Inr (ei_Kind e) \<and> ei_Path e = filepath_Join (diskRoot c) (ei_Key e) \<and>
    (\<exists>w1 st w2. sys_lstat S (ei_Path e) w1 = (Inr st, w2) \<and> IsRegular st \<and> st_size st = ei_Size e \<and>
       st_mtime st = ei_ModTime e \<and> st_dev st = ei_Device e \<and> st_ino st = ei_Inode e)"
    unfolding backed_def by blast
qed

text \<open>C12: a scan misses no entry that is there. Take an entry whose store and file answer \<open>lstat\<close>, and which the listings show, whenever
  the system is asked during the scan; whatever happens to everything else in the cache meanwhile, a successful \<open>GetEntries\<close> returns it.\<close>

theorem GetEntries_complete:
  assumes "cache_ok c" "digest d" "steady S c kind d" "GetEntries n S c w = Some (Inr ents, w')"
  shows "\<exists>e \<in> set ents. ei_Key e = key_of kind d \<and> ei_Kind e = kind"
proof -
  have "kind \<in> set [ActionCache, ContentCAS]" by (cases kind) simp_all
  then show ?thesis using scan_stores_finds [OF assms(1-3) assms(4) [unfolded GetEntries_def]] by (simp add: found_def)
qed

text \<open>A cache with one action-cache entry that is always there, and nothing else.\<close>

definition one_entry_sys :: "unit sys" where
  "one_entry_sys =
     \<lparr>sys_getwd = (\<lambda>w. (Inr ''/'', w)), sys_EvalSymlinks = (\<lambda>p w. (Inr p, w)),
      sys_lstat = (\<lambda>p w. (if p = ''/cache/ac'' then Inr \<lparr>st_dev = 7, st_ino = 2, st_mode = S_IFDIR, st_size = 0, st_mtime = 0\<rparr>
         else if p = ''/cache/ac/aa/'' @ replicate 64 CHR ''a''
         then Inr \<lparr>st_dev = 7, st_ino = 4, st_mode = S_IFREG, st_size = 100, st_mtime = 10\<rparr> else Inl ENOENT, w)),
      sys_ReadDir = (\<lambda>p w. ((if p = ''/cache/ac'' then [\<lparr>de_name = ''aa'', de_type = S_IFDIR\<rparr>]
         else [\<lparr>de_name = replicate 64 CHR ''a'', de_type = S_IFREG\<rparr>], None), w)),
      sys_open = (\<lambda>p fl w. (Inl ENOENT, w)), sys_openat = (\<lambda>f p fl w. (Inl ENOENT, w)), sys_fstat = (\<lambda>f w. (Inl ENOENT, w)),
      sys_fstatat = (\<lambda>f p w. (Inl ENOENT, w)), sys_unlinkat = (\<lambda>f p w. (Inl ENOENT, w)), sys_close = (\<lambda>f w. (Inr (), w)),
      sys_flock = (\<lambda>f l w. (Inl EAGAIN, w))\<rparr>"

theorem GetEntries_complete_witness:
  "\<exists>ents w' e. GetEntries 5 one_entry_sys example_cache () = Some (Inr ents, w') \<and> e \<in> set ents \<and>
     ei_Key e = key_of ActionCache (replicate 64 CHR ''a'')"
proof -
  have "case GetEntries 5 one_entry_sys example_cache () of Some (Inr ents, _) \<Rightarrow> True | _ \<Rightarrow> False" by code_simp
  then obtain ents w' where g: "GetEntries 5 one_entry_sys example_cache () = Some (Inr ents, w')"
    by (cases "GetEntries 5 one_entry_sys example_cache ()"; cases "fst (the (GetEntries 5 one_entry_sys example_cache ()))") auto
  have dg: "digest (replicate 64 CHR ''a'')" by code_simp
  have "root_elements example_cache = [''cache'']" "replicate 2 CHR ''a'' = ''aa''" by code_simp+
  then have "steady one_entry_sys example_cache ActionCache (replicate 64 CHR ''a'')"
    by (simp add: steady_def one_entry_sys_def abs_path_def kind_string_def IsDir_def IsRegular_def IsSymlink_def file_type_def
        de_IsDir_def de_IsSymlink_def)
  from GetEntries_complete [OF example_cache_ok dg this g] show ?thesis using g by blast
qed

end
