(* ===== verification/Activity_Lease.thy ===== *)
theory Activity_Lease
  imports Disk_Cache
begin

text \<open>
  The activity lease of \<open>src/eviction/lease.go\<close>: a lock file shared with the Bazel invocations, taken
  exclusively and without waiting. \<open>TryExclusive\<close> returns a function that releases the lock; here it returns the
  descriptor \<open>release\<close> works on. The properties describe the traces of the two: the lock is held exactly
  between them, and no branch leaves a descriptor open.
\<close>

record ActivityLease =
  al_path :: string

definition NewActivityLease :: "string \<Rightarrow> ActivityLease result" where
  "NewActivityLease path =
     (if path = [] then Inl (ErrMsg ''activity lock path must not be empty'') else Inr \<lparr>al_path = path\<rparr>)"

abbreviation lease_flags :: "oflag list" where
  "lease_flags \<equiv> [O_CREATE, O_RDWR]"

text \<open>\<open>Inr (Some file)\<close> is an acquired lease, \<open>Inr None\<close> one that is held by someone else.\<close>

definition TryExclusive :: "'w sys \<Rightarrow> ActivityLease \<Rightarrow> 'w \<Rightarrow> (fd option) result \<times> 'w" where
  "TryExclusive S l w =
     (case sys_open S (al_path l) lease_flags w of
        (Inl e, w1) \<Rightarrow> (Inl (Errno e), w1)
      | (Inr file, w1) \<Rightarrow>
          (case sys_flock S file LOCK_EX_NB w1 of
             (Inl e, w2) \<Rightarrow>
               (case sys_close S file w2 of
                  (_, w3) \<Rightarrow> (if e = EAGAIN then Inr None else Inl (Errno e), w3))
           | (Inr _, w2) \<Rightarrow> (Inr (Some file), w2)))"

text \<open>\<open>errors.Join\<close> of the two results: nil when both are, else an error that is both.\<close>

definition release :: "'w sys \<Rightarrow> fd \<Rightarrow> 'w \<Rightarrow> (errno list) \<times> 'w" where
  "release S file w =
     (case sys_flock S file LOCK_UN w of
        (unlockErr, w1) \<Rightarrow>
          (case sys_close S file w1 of
             (closeErr, w2) \<Rightarrow>
               ((case unlockErr of Inl e \<Rightarrow> [e] | Inr _ \<Rightarrow> []) @ (case closeErr of Inl e \<Rightarrow> [e] | Inr _ \<Rightarrow> []), w2)))"

text \<open>Whether the lock is held after a trace: taken on some descriptor and neither unlocked nor closed
  since.\<close>

fun held :: "event list \<Rightarrow> fd option \<Rightarrow> fd option" where
  "held [] h = h"
| "held (EvFlock f LOCK_EX_NB (Inr _) # es) h = held es (Some f)"
| "held (EvFlock f LOCK_UN (Inr _) # es) h = held es (if h = Some f then None else h)"
| "held (EvClose f # es) h = held es (if h = Some f then None else h)"
| "held (_ # es) h = held es h"

lemma held_append: "held (xs @ ys) h = held ys (held xs h)"
  by (induction xs h rule: held.induct) auto

lemma TryExclusive_erase: "erases (TryExclusive (traced S) l) (TryExclusive S l)"
proof (rule erasesI)
  fix w tr r w' tr' assume "TryExclusive (traced S) l (w, tr) = (r, (w', tr'))"
  then show "TryExclusive S l w = (r, w')"
    by (auto simp: TryExclusive_def trace_defs split: sum.splits prod.splits)
qed

lemma release_erase: "erases (release (traced S) f) (release S f)"
  by (rule erasesI) (auto simp: release_def trace_defs split: prod.splits)

text \<open>What \<open>TryExclusive\<close> and \<open>release\<close> append to a trace.\<close>

lemma TryExclusive_trace:
  assumes "TryExclusive (traced S) l (w, tr) = (r, (w', tr'))"
  obtains es where "tr' = tr @ es" "unlinks es = []" "temporaries es = []" "removals es = []"
    "(\<exists>f. r = Inr (Some f) \<and> es = [EvOpen (al_path l) lease_flags (Inr f), EvFlock f LOCK_EX_NB (Inr ())]) \<or>
     ((\<nexists>f. r = Inr (Some f)) \<and> opened_fds es = closed_fds es)"
  using assms
  by (auto simp: TryExclusive_def trace_defs unlinks_def split: sum.splits prod.splits if_splits)

lemma release_trace:
  assumes "release (traced S) f (w, tr) = (r, (w', tr'))"
  obtains u where "tr' = tr @ [EvFlock f LOCK_UN u, EvClose f]"
  using assms by (auto simp: release_def trace_defs split: prod.splits)

section \<open>Properties\<close>

text \<open>C31: the lease is balanced. Whatever the kernel answers, \<open>TryExclusive\<close> either acquires the lease, and
  then the lock is held on the descriptor it opened, or leaves no lock and no descriptor behind;
  it reports a held lock by \<open>EAGAIN\<close> as not acquired and not as an error; and \<open>release\<close> after it leaves
  neither lock nor descriptor, whether the unlock succeeds or not.\<close>

theorem TryExclusive_balanced:
  "let (r, (w1, tr1)) = TryExclusive (traced S) l (w, [])
   in (case r of
         Inr (Some f) \<Rightarrow>
           opened_fds tr1 = [f] \<and> closed_fds tr1 = [] \<and> held tr1 None = Some f \<and>
           (let (_, (w2, tr2)) = release (traced S) f (w1, tr1)
            in held tr2 None = None \<and> opened_fds tr2 = closed_fds tr2)
       | Inr None \<Rightarrow> opened_fds tr1 = closed_fds tr1 \<and> held tr1 None = None \<and>
           (\<exists>f. EvFlock f LOCK_EX_NB (Inl EAGAIN) \<in> set tr1)
       | Inl e \<Rightarrow> opened_fds tr1 = closed_fds tr1 \<and> held tr1 None = None \<and>
           (\<forall>f. EvFlock f LOCK_EX_NB (Inl EAGAIN) \<notin> set tr1))"
  by (auto simp: TryExclusive_def release_def trace_defs Let_def split: sum.splits prod.splits option.splits)

end
