(* ===== verification/Inotify.thy ===== *)
theory Inotify
  imports OS_Interface
begin

unbundle bit_operations_syntax

text \<open>
  The inotify wrapper of \<open>src/eviction/internal/inotify\<close>: the watcher with its two maps, from paths to
  watches and from watch descriptors to paths, the operations on it, and the decoding of one event of the
  buffer the reader fills. The three system calls are the fields of \<open>ino_sys\<close>. The mutex makes
  every method atomic. The reader goroutine and its channels are in \<open>Inotify_Reader\<close>.

  The property: what the two maps say after any calls of \<open>AddWatch\<close>, \<open>RemoveWatch\<close> and \<open>Close\<close>. The lemmas on
  decoding say that one event is given back as the kernel encoded it, under the path of its watch.
\<close>

section \<open>Event masks\<close>

abbreviation InAccess :: u32 where "InAccess \<equiv> 0x1"
abbreviation InModify :: u32 where "InModify \<equiv> 0x2"
abbreviation InAttrib :: u32 where "InAttrib \<equiv> 0x4"
abbreviation InCloseWrite :: u32 where "InCloseWrite \<equiv> 0x8"
abbreviation InCloseNowrite :: u32 where "InCloseNowrite \<equiv> 0x10"
abbreviation InClose :: u32 where "InClose \<equiv> 0x18"
abbreviation InOpen :: u32 where "InOpen \<equiv> 0x20"
abbreviation InMovedFrom :: u32 where "InMovedFrom \<equiv> 0x40"
abbreviation InMovedTo :: u32 where "InMovedTo \<equiv> 0x80"
abbreviation InMove :: u32 where "InMove \<equiv> 0xC0"
abbreviation InCreate :: u32 where "InCreate \<equiv> 0x100"
abbreviation InDelete :: u32 where "InDelete \<equiv> 0x200"
abbreviation InDeleteSelf :: u32 where "InDeleteSelf \<equiv> 0x400"
abbreviation InMoveSelf :: u32 where "InMoveSelf \<equiv> 0x800"
abbreviation InAllEvents :: u32 where "InAllEvents \<equiv> 0xFFF"
abbreviation InUnmount :: u32 where "InUnmount \<equiv> 0x2000"
abbreviation InQOverflow :: u32 where "InQOverflow \<equiv> 0x4000"
abbreviation InIgnored :: u32 where "InIgnored \<equiv> 0x8000"
abbreviation InDontFollow :: u32 where "InDontFollow \<equiv> 0x2000000"
abbreviation InMaskAdd :: u32 where "InMaskAdd \<equiv> 0x20000000"
abbreviation InIsdir :: u32 where "InIsdir \<equiv> 0x40000000"

record Event =
  ev_Mask :: u32
  ev_Cookie :: u32
  ev_Name :: string

definition HasEvent :: "Event \<Rightarrow> u32 \<Rightarrow> bool" where
  "HasEvent e h \<longleftrightarrow> ev_Mask e AND h = h"

section \<open>The watcher\<close>

record watch =
  watch_wd :: u32
  watch_flags :: u32

record Watcher =
  wt_fd :: fd
  wt_watches :: "string \<rightharpoonup> watch"
  wt_paths :: "int \<rightharpoonup> string"
  wt_isClosed :: bool

record 'w ino_sys =
  inotify_init1 :: "('w, fd) call"
  inotify_add_watch :: "fd \<Rightarrow> string \<Rightarrow> u32 \<Rightarrow> ('w, int) call"
  inotify_rm_watch :: "fd \<Rightarrow> u32 \<Rightarrow> ('w, unit) call"

definition NewWatcher :: "'w ino_sys \<Rightarrow> 'w \<Rightarrow> Watcher result \<times> 'w" where
  "NewWatcher I w =
     (case inotify_init1 I w of
        (Inl e, w') \<Rightarrow> (Inl (Errno e), w')
      | (Inr fd, w') \<Rightarrow>
          (Inr \<lparr>wt_fd = fd, wt_watches = Map.empty, wt_paths = Map.empty, wt_isClosed = False\<rparr>, w'))"

definition Watcher_Close :: "Watcher \<Rightarrow> Watcher" where
  "Watcher_Close wt = (if wt_isClosed wt then wt else wt\<lparr>wt_isClosed := True\<rparr>)"

definition AddWatch :: "'w ino_sys \<Rightarrow> Watcher \<Rightarrow> string \<Rightarrow> u32 \<Rightarrow> 'w \<Rightarrow> (unit result \<times> Watcher) \<times> 'w" where
  "AddWatch I wt path flags w =
     (if wt_isClosed wt then ((Inl (ErrMsg ''inotify instance already closed''), wt), w)
      else case wt_watches wt path of
        Some entry \<Rightarrow>
          let wt1 = wt\<lparr>wt_watches := (wt_watches wt)(path \<mapsto> entry\<lparr>watch_flags := watch_flags entry OR flags\<rparr>)\<rparr>
          in (case inotify_add_watch I (wt_fd wt) path (flags OR InMaskAdd) w of
                (Inl e, w') \<Rightarrow> ((Inl (Errno e), wt1), w')
              | (Inr wd, w') \<Rightarrow> ((Inr (), wt1), w'))
      | None \<Rightarrow>
          (case inotify_add_watch I (wt_fd wt) path flags w of
             (Inl e, w') \<Rightarrow> ((Inl (Errno e), wt), w')
           | (Inr wd, w') \<Rightarrow>
               ((Inr (), wt\<lparr>wt_watches := (wt_watches wt)(path \<mapsto> \<lparr>watch_wd = word_of_int wd, watch_flags = flags\<rparr>),
                            wt_paths := (wt_paths wt)(wd \<mapsto> path)\<rparr>), w')))"

definition Watch :: "'w ino_sys \<Rightarrow> Watcher \<Rightarrow> string \<Rightarrow> 'w \<Rightarrow> (unit result \<times> Watcher) \<times> 'w" where
  "Watch I wt path w = AddWatch I wt path InAllEvents w"

text \<open>\<open>EINVAL\<close> of \<open>inotify_rm_watch\<close> means the watch is gone already.\<close>

abbreviation EINVAL :: errno where "EINVAL \<equiv> Eother 22"

definition RemoveWatch :: "'w ino_sys \<Rightarrow> Watcher \<Rightarrow> string \<Rightarrow> 'w \<Rightarrow> (unit result \<times> Watcher) \<times> 'w" where
  "RemoveWatch I wt path w =
     (case wt_watches wt path of
        None \<Rightarrow> ((Inl (ErrMsg ''can't remove non-existent inotify watch''), wt), w)
      | Some entry \<Rightarrow>
          (case inotify_rm_watch I (wt_fd wt) (watch_wd entry) w of
             (r, w') \<Rightarrow>
               if (case r of Inl e \<Rightarrow> e \<noteq> EINVAL | Inr _ \<Rightarrow> False)
               then ((Inl (Errno (projl r)), wt), w')
               else ((Inr (), wt\<lparr>wt_watches := (wt_watches wt)(path := None),
                                wt_paths := (wt_paths wt)(uint (watch_wd entry) := None)\<rparr>), w')))"

section \<open>Reading events\<close>

text \<open>\<open>ErrEventOverflow\<close> is kept apart from other errors because the event loop tests for it.\<close>

datatype watcher_error = ErrEventOverflow | WatcherErr goerr

text \<open>\<open>struct inotify_event\<close> on a little-endian machine: \<open>wd\<close>, \<open>mask\<close>, \<open>cookie\<close>, \<open>len\<close> and the name.\<close>

type_synonym byte = "8 word"

definition le32 :: "byte list \<Rightarrow> u32" where
  "le32 bs = ucast (bs ! 0) OR push_bit 8 (ucast (bs ! 1)) OR push_bit 16 (ucast (bs ! 2)) OR
     push_bit 24 (ucast (bs ! 3))"

abbreviation SizeofInotifyEvent :: nat where
  "SizeofInotifyEvent \<equiv> 16"

definition byte_char :: "byte \<Rightarrow> char" where
  "byte_char b = char_of (unat b)"

definition trim_nul :: "byte list \<Rightarrow> byte list" where
  "trim_nul bs = rev (dropWhile (\<lambda>b. b = 0) (rev bs))"

text \<open>What one event of the buffer leads to: an overflow, nothing for a watch descriptor without a path, or an event
  to send. The name is a slice of an array of \<open>PathMax\<close> bytes, so a longer one panics. The kernel
  returns whole events only: the name is never cut off by the end of what was read.\<close>

datatype decoded = Overflow | Unknown | Known Event

abbreviation PathMax :: nat where
  "PathMax \<equiv> 4096"

definition name_len :: "byte list \<Rightarrow> nat" where
  "name_len bs = unat (le32 (drop 12 bs))"

definition event_len :: "byte list \<Rightarrow> nat" where
  "event_len bs = SizeofInotifyEvent + name_len bs"

definition read_event :: "(int \<rightharpoonup> string) \<Rightarrow> byte list \<Rightarrow> decoded option" where
  "read_event paths bs =
     (let wd = sint (le32 bs); mask = le32 (drop 4 bs); cookie = le32 (drop 8 bs); nameLen = name_len bs
      in if mask AND InQOverflow \<noteq> 0 then Some Overflow
         else case paths wd of
           None \<Rightarrow> Some Unknown
         | Some name \<Rightarrow>
             if nameLen = 0 then Some (Known \<lparr>ev_Mask = mask, ev_Cookie = cookie, ev_Name = name\<rparr>)
             else if PathMax < nameLen then None
             else Some (Known \<lparr>ev_Mask = mask, ev_Cookie = cookie,
               ev_Name = name @ ''/'' @ map byte_char (trim_nul (take nameLen (drop SizeofInotifyEvent bs)))\<rparr>))"

section \<open>What the kernel writes\<close>

record kernel_event =
  ke_wd :: int
  ke_mask :: u32
  ke_cookie :: u32
  ke_name :: "byte list"
  ke_pad :: nat

definition enc32 :: "u32 \<Rightarrow> byte list" where
  "enc32 x = [ucast x, ucast (drop_bit 8 x), ucast (drop_bit 16 x), ucast (drop_bit 24 x)]"

definition encode_event :: "kernel_event \<Rightarrow> byte list" where
  "encode_event k = enc32 (word_of_int (ke_wd k)) @ enc32 (ke_mask k) @ enc32 (ke_cookie k) @
     enc32 (of_nat (length (ke_name k) + ke_pad k)) @ ke_name k @ replicate (ke_pad k) 0"

definition kernel_event_ok :: "kernel_event \<Rightarrow> bool" where
  "kernel_event_ok k \<longleftrightarrow> - (2 ^ 31) \<le> ke_wd k \<and> ke_wd k < 2 ^ 31 \<and>
     length (ke_name k) + ke_pad k \<le> PathMax \<and> 0 \<notin> set (ke_name k)"

definition delivered :: "(int \<rightharpoonup> string) \<Rightarrow> kernel_event \<Rightarrow> decoded" where
  "delivered paths k =
     (if ke_mask k AND InQOverflow \<noteq> 0 then Overflow
      else case paths (ke_wd k) of
        None \<Rightarrow> Unknown
      | Some p \<Rightarrow>
          Known \<lparr>ev_Mask = ke_mask k, ev_Cookie = ke_cookie k,
             ev_Name = (if length (ke_name k) + ke_pad k = 0 then p else p @ ''/'' @ map byte_char (ke_name k))\<rparr>)"

lemma le32_bytes:
  "ucast (ucast x :: byte) OR push_bit 8 (ucast (ucast (drop_bit 8 x) :: byte)) OR
   push_bit 16 (ucast (ucast (drop_bit 16 x) :: byte)) OR push_bit 24 (ucast (ucast (drop_bit 24 x) :: byte)) = (x :: u32)"
proof (rule bit_word_eqI)
  fix n assume "n < LENGTH(32)"
  then show "bit (ucast (ucast x :: byte) OR push_bit 8 (ucast (ucast (drop_bit 8 x) :: byte)) OR
      push_bit 16 (ucast (ucast (drop_bit 16 x) :: byte)) OR push_bit 24 (ucast (ucast (drop_bit 24 x) :: byte)) :: u32) n
    = bit x n"
    by (cases "n < 8"; cases "n < 16"; cases "n < 24") (auto simp: bit_simps)
qed

lemma le32_enc32: "le32 (enc32 x @ bs) = x"
  using le32_bytes [of x] by (simp add: le32_def enc32_def)

lemma length_enc32 [simp]: "length (enc32 x) = 4"
  by (simp add: enc32_def)

lemma trim_nul_pad: "0 \<notin> set name \<Longrightarrow> trim_nul (name @ replicate n 0) = name"
proof -
  assume "0 \<notin> set name"
  then have "dropWhile (\<lambda>b. b = 0) (rev name) = rev name" by (cases name rule: rev_cases) auto
  moreover have "dropWhile (\<lambda>b. b = 0) (replicate n 0 @ bs) = dropWhile (\<lambda>b. b = 0) bs" for bs :: "byte list"
    by (induction n) auto
  ultimately show ?thesis by (simp add: trim_nul_def)
qed

lemma read_event_encode:
  assumes "kernel_event_ok k"
  shows "read_event paths (encode_event k @ bs) = Some (delivered paths k)" "event_len (encode_event k @ bs) = length (encode_event k)"
proof -
  let ?n = "length (ke_name k) + ke_pad k"
  have wd: "sint (word_of_int (ke_wd k) :: u32) = ke_wd k"
    using assms by (simp add: kernel_event_ok_def signed_of_int signed_take_bit_int_eq_self)
  have n: "unat (of_nat ?n :: u32) = ?n" using assms
    by (simp only: kernel_event_ok_def unsigned_of_nat) (simp add: take_bit_nat_eq_self)
  let ?h = "\<lambda>r. enc32 (word_of_int (ke_wd k)) @ enc32 (ke_mask k) @ enc32 (ke_cookie k) @ enc32 (of_nat ?n) @ r"
  have f: "le32 (?h r) = word_of_int (ke_wd k)" "le32 (drop 4 (?h r)) = ke_mask k" "le32 (drop 8 (?h r)) = ke_cookie k"
    "le32 (drop 12 (?h r)) = of_nat ?n" "drop 16 (?h r) = r" for r
    by (simp_all add: le32_enc32)
  have e: "encode_event k @ bs = ?h (ke_name k @ replicate (ke_pad k) 0 @ bs)" by (simp add: encode_event_def)
  have nm: "trim_nul (take ?n (ke_name k @ replicate (ke_pad k) 0 @ bs)) = ke_name k"
    using assms by (simp add: kernel_event_ok_def trim_nul_pad)
  have len: "length (encode_event k) = 16 + ?n" by (simp add: encode_event_def)
  have le: "?n \<le> PathMax" using assms by (simp add: kernel_event_ok_def)
  have nl: "name_len (encode_event k @ bs) = ?n" unfolding name_len_def e f n ..
  show "event_len (encode_event k @ bs) = length (encode_event k)" by (simp add: event_len_def nl len)
  show "read_event paths (encode_event k @ bs) = Some (delivered paths k)"
    unfolding read_event_def Let_def nl unfolding e f wd nm delivered_def
    using le by (auto split: option.split)
qed

section \<open>The two maps\<close>

text \<open>\<open>paths\<close> leads only to paths whose watch has that descriptor (\<open>names_ok\<close>), and the other way round (\<open>maps_ok\<close>). The kernel
  identifies a watch by the inode: a path that is not watched yet, but leads to an inode that is watched under another path,
  is answered with the descriptor of that watch (\<open>reuses\<close>).\<close>

definition wd_of :: "Watcher \<Rightarrow> string \<rightharpoonup> int" where
  "wd_of wt p = map_option (\<lambda>a. uint (watch_wd a)) (wt_watches wt p)"

definition names_ok :: "Watcher \<Rightarrow> bool" where
  "names_ok wt \<longleftrightarrow> (\<forall>d p. wt_paths wt d = Some p \<longrightarrow> wd_of wt p = Some d)"

definition maps_ok :: "Watcher \<Rightarrow> bool" where
  "maps_ok wt \<longleftrightarrow> (\<forall>d p. wt_paths wt d = Some p \<longleftrightarrow> wd_of wt p = Some d)"

text \<open>Watch descriptors are positive 32-bit integers.\<close>

definition descriptors_ok :: "'w ino_sys \<Rightarrow> bool" where
  "descriptors_ok I \<longleftrightarrow> (\<forall>f p m w wd w'. inotify_add_watch I f p m w = (Inr wd, w') \<longrightarrow> 0 < wd \<and> wd < 2 ^ 31)"

definition reuses :: "'w ino_sys \<Rightarrow> Watcher \<Rightarrow> string \<Rightarrow> u32 \<Rightarrow> 'w \<Rightarrow> bool" where
  "reuses I wt path flags w \<longleftrightarrow> \<not> wt_isClosed wt \<and> wt_watches wt path = None \<and>
     (case inotify_add_watch I (wt_fd wt) path flags w of (Inl _, _) \<Rightarrow> False | (Inr wd, _) \<Rightarrow> wt_paths wt wd \<noteq> None)"

lemma maps_names: "maps_ok wt \<Longrightarrow> names_ok wt"
  by (simp add: maps_ok_def names_ok_def)

lemma NewWatcher_maps: "NewWatcher I w = (Inr wt, w') \<Longrightarrow> maps_ok wt \<and> \<not> wt_isClosed wt"
  by (auto simp: NewWatcher_def maps_ok_def wd_of_def split: sum.splits prod.splits)

lemma AddWatch_again:
  assumes "wt_watches wt path = Some a" "AddWatch I wt path flags w = ((r, wt'), w')"
  shows "wd_of wt' = wd_of wt" "wt_paths wt' = wt_paths wt"
proof -
  have "wt' = wt \<or> wt' = wt\<lparr>wt_watches := (wt_watches wt)(path \<mapsto> a\<lparr>watch_flags := watch_flags a OR flags\<rparr>)\<rparr>"
    using assms by (auto simp: AddWatch_def Let_def split: sum.splits prod.splits if_splits)
  then show "wd_of wt' = wd_of wt" "wt_paths wt' = wt_paths wt" using assms(1) by (auto simp: wd_of_def fun_eq_iff)
qed

text \<open>What a call of \<open>AddWatch\<close> does to the two maps: nothing, or one new pair.\<close>

lemma AddWatch_cases:
  assumes "descriptors_ok I" "AddWatch I wt path flags w = ((r, wt'), w')"
  obtains "wd_of wt' = wd_of wt" "wt_paths wt' = wt_paths wt" "\<not> reuses I wt path flags w"
  | wd where "wt_watches wt path = None" "inotify_add_watch I (wt_fd wt) path flags w = (Inr wd, w')"
      "wd_of wt' = (wd_of wt)(path \<mapsto> wd)" "wt_paths wt' = (wt_paths wt)(wd \<mapsto> path)"
      "reuses I wt path flags w \<longleftrightarrow> wt_paths wt wd \<noteq> None"
proof (cases "wt_isClosed wt \<or> wt_watches wt path \<noteq> None \<or> isl (fst (inotify_add_watch I (wt_fd wt) path flags w))")
  case True
  then have "wt' = wt \<or> (\<exists>a. wt_watches wt path = Some a)"
    using assms(2) by (auto simp: AddWatch_def isl_def split: if_splits option.splits sum.splits prod.splits)
  then have "wd_of wt' = wd_of wt" "wt_paths wt' = wt_paths wt" using AddWatch_again [OF _ assms(2)] by blast+
  moreover have "\<not> reuses I wt path flags w" using True by (auto simp: reuses_def split: prod.splits sum.splits)
  ultimately show ?thesis using that(1) by blast
next
  case False
  then obtain wd w1 where wd: "inotify_add_watch I (wt_fd wt) path flags w = (Inr wd, w1)"
    by (cases "inotify_add_watch I (wt_fd wt) path flags w"; cases "fst (inotify_add_watch I (wt_fd wt) path flags w)") auto
  then have "0 < wd \<and> wd < 2 ^ 31" using assms(1) by (simp add: descriptors_ok_def) blast
  then have u: "uint (word_of_int wd :: u32) = wd" by (simp add: uint_word_of_int)
  have wt': "wt' = wt\<lparr>wt_watches := (wt_watches wt)(path \<mapsto> \<lparr>watch_wd = word_of_int wd, watch_flags = flags\<rparr>),
      wt_paths := (wt_paths wt)(wd \<mapsto> path)\<rparr>" "w' = w1" using assms(2) False wd by (auto simp: AddWatch_def)
  then show ?thesis using that(2) [of wd] False wd u by (auto simp: reuses_def wd_of_def fun_eq_iff)
qed

lemma AddWatch_names:
  assumes "descriptors_ok I" "AddWatch I wt path flags w = ((r, wt'), w')" "names_ok wt"
  shows "names_ok wt'"
  using assms(1,2)
proof (cases rule: AddWatch_cases)
  case 1
  then show ?thesis using assms(3) by (simp add: names_ok_def)
next
  case (2 wd)
  have "wd_of wt path = None" using 2(1) by (simp add: wd_of_def)
  then show ?thesis using assms(3) unfolding names_ok_def 2(3,4) by auto
qed

lemma AddWatch_maps:
  assumes "descriptors_ok I" "AddWatch I wt path flags w = ((r, wt'), w')" "maps_ok wt"
  shows "maps_ok wt' \<longleftrightarrow> \<not> reuses I wt path flags w"
  using assms(1,2)
proof (cases rule: AddWatch_cases)
  case 1
  then show ?thesis using assms(3) by (simp add: maps_ok_def)
next
  case (2 wd)
  have none: "wd_of wt path = None" using 2(1) by (simp add: wd_of_def)
  have inv: "wt_paths wt d = Some p \<longleftrightarrow> wd_of wt p = Some d" for d p using assms(3) by (simp add: maps_ok_def)
  show ?thesis
  proof (cases "wt_paths wt wd")
    case None
    then have "wd_of wt p \<noteq> Some wd" for p using inv [of wd p] by simp
    then show ?thesis using None none 2(5) inv unfolding maps_ok_def 2(3,4) by (auto split: if_splits)
  next
    case (Some q)
    then have "wd_of wt q = Some wd" "q \<noteq> path" using inv none by auto
    then have "wd_of wt' q = Some wd" "wt_paths wt' wd \<noteq> Some q" using 2(3,4) by auto
    then show ?thesis using Some 2(5) unfolding maps_ok_def by blast
  qed
qed

lemma RemoveWatch_cases:
  assumes "RemoveWatch I wt path w = ((r, wt'), w')"
  obtains "wt' = wt" "r \<noteq> Inr ()"
  | d where "r = Inr ()" "wd_of wt path = Some d" "wd_of wt' = (wd_of wt)(path := None)" "wt_paths wt' = (wt_paths wt)(d := None)"
proof (cases "wt_watches wt path")
  case None
  then show ?thesis using that(1) assms by (auto simp: RemoveWatch_def)
next
  case (Some a)
  obtain x w1 where x: "inotify_rm_watch I (wt_fd wt) (watch_wd a) w = (x, w1)" by fastforce
  show ?thesis
  proof (cases "\<exists>e. x = Inl e \<and> e \<noteq> EINVAL")
    case True
    then show ?thesis using that(1) assms Some x by (auto simp: RemoveWatch_def)
  next
    case False
    then have "r = Inr ()"
      "wt' = wt\<lparr>wt_watches := (wt_watches wt)(path := None), wt_paths := (wt_paths wt)(uint (watch_wd a) := None)\<rparr>"
      using assms Some x by (auto simp: RemoveWatch_def split: sum.splits)
    then show ?thesis using Some by (intro that(2) [of "uint (watch_wd a)"]) (auto simp: wd_of_def fun_eq_iff)
  qed
qed

lemma RemoveWatch_names:
  assumes "RemoveWatch I wt path w = ((r, wt'), w')" "names_ok wt"
  shows "names_ok wt' \<and> (r = Inr () \<longrightarrow> wt_watches wt' path = None \<and> path \<notin> ran (wt_paths wt'))"
  using assms(1)
proof (cases rule: RemoveWatch_cases)
  case (2 d)
  have "wt_paths wt x = Some path \<Longrightarrow> x = d" for x using assms(2) 2(2) by (auto simp: names_ok_def)
  then have gone: "wt_paths wt' x \<noteq> Some path" for x using 2(4) by auto
  have "wd_of wt' p = Some x" if "wt_paths wt' x = Some p" for x p
  proof -
    have "p \<noteq> path" using that gone by blast
    then show ?thesis using that assms(2) unfolding names_ok_def 2(3,4) by (simp split: if_splits)
  qed
  moreover have "wd_of wt' path = None" using 2(3) by simp
  ultimately show ?thesis using gone by (simp add: names_ok_def ran_def wd_of_def)
qed (use assms(2) in auto)

lemma RemoveWatch_maps:
  assumes "RemoveWatch I wt path w = ((r, wt'), w')" "maps_ok wt"
  shows "maps_ok wt'"
  using assms(1)
proof (cases rule: RemoveWatch_cases)
  case (2 d)
  have inv: "wt_paths wt x = Some p \<longleftrightarrow> wd_of wt p = Some x" for x p using assms(2) by (simp add: maps_ok_def)
  have "wt_paths wt' x = Some p \<longleftrightarrow> wd_of wt' p = Some x" for x p
    using inv [of x p] inv [of x path] inv [of d p] inv [of d path] 2(2) unfolding 2(3,4) by (cases "p = path"; cases "x = d") auto
  then show ?thesis by (simp add: maps_ok_def)
qed (use assms(2) in simp)

text \<open>Any sequence of calls of the methods of a watcher, and whether one of them was answered with a descriptor in use.\<close>

datatype watcher_call = AddCall string u32 | RemoveCall string | CloseCall

fun watcher_do :: "'w ino_sys \<Rightarrow> watcher_call \<Rightarrow> Watcher \<times> 'w \<Rightarrow> Watcher \<times> 'w" where
  "watcher_do I (AddCall path flags) (wt, w) = (case AddWatch I wt path flags w of ((_, wt'), w') \<Rightarrow> (wt', w'))"
| "watcher_do I (RemoveCall path) (wt, w) = (case RemoveWatch I wt path w of ((_, wt'), w') \<Rightarrow> (wt', w'))"
| "watcher_do I CloseCall (wt, w) = (Watcher_Close wt, w)"

fun call_reuses :: "'w ino_sys \<Rightarrow> watcher_call \<Rightarrow> Watcher \<times> 'w \<Rightarrow> bool" where
  "call_reuses I (AddCall path flags) (wt, w) = reuses I wt path flags w"
| "call_reuses I _ s = False"

primrec watcher_calls :: "'w ino_sys \<Rightarrow> watcher_call list \<Rightarrow> Watcher \<times> 'w \<Rightarrow> bool \<Rightarrow> (Watcher \<times> 'w) \<times> bool" where
  "watcher_calls I [] s shared = (s, shared)"
| "watcher_calls I (c # cs) s shared = watcher_calls I cs (watcher_do I c s) (shared \<or> call_reuses I c s)"

lemma Close_maps [simp]: "names_ok (Watcher_Close wt) = names_ok wt" "maps_ok (Watcher_Close wt) = maps_ok wt"
  by (simp_all add: names_ok_def maps_ok_def wd_of_def Watcher_Close_def)

lemma watcher_do_maps:
  assumes "descriptors_ok I" "names_ok (fst s)"
  shows "names_ok (fst (watcher_do I c s)) \<and>
    (maps_ok (fst s) \<longrightarrow> maps_ok (fst (watcher_do I c s)) = (\<not> call_reuses I c s))"
  using assms AddWatch_names [OF assms(1)] AddWatch_maps [OF assms(1)]
  by (cases "(I, c, s)" rule: watcher_do.cases) (auto split: prod.split dest: RemoveWatch_names RemoveWatch_maps)

lemma watcher_calls_maps:
  assumes "descriptors_ok I"
  shows "watcher_calls I cs s shared = ((wt, w), shared') \<Longrightarrow> names_ok (fst s) \<Longrightarrow> \<not> shared \<longrightarrow> maps_ok (fst s) \<Longrightarrow>
    names_ok wt \<and> (\<not> shared' \<longrightarrow> maps_ok wt)"
proof (induction cs arbitrary: s shared)
  case (Cons c cs)
  then show ?case using watcher_do_maps [OF assms Cons.prems(2), of c] by fastforce
qed auto

section \<open>Properties\<close>

definition sample_ino :: "int \<Rightarrow> unit ino_sys" where
  "sample_ino wd = \<lparr>inotify_init1 = (\<lambda>w. (Inr 3, w)), inotify_add_watch = (\<lambda>_ _ _ w. (Inr wd, w)),
     inotify_rm_watch = (\<lambda>_ _ w. (Inr (), w))\<rparr>"

definition sample_watcher :: Watcher where
  "sample_watcher = \<lparr>wt_fd = 3, wt_watches = [''/c/ac'' \<mapsto> \<lparr>watch_wd = 7, watch_flags = InOpen\<rparr>],
     wt_paths = [7 \<mapsto> ''/c/ac''], wt_isClosed = False\<rparr>"



end
