(* ===== verification/Array_Heap.thy ===== *)
theory Array_Heap
  imports Hoshino_Prelude
begin

text \<open>
  The sifting loops of Go's \<open>container/heap\<close> on a plain list, for any strict weak order, and the
  argument that they restore the heap property. The pointer-level heap of \<open>Minheap\<close> refines these
  functions; the locale states the only thing the argument needs of a comparison, and \<open>Minheap\<close>
  interprets it with the comparison of \<open>minheap.Nodes.Less\<close>.
\<close>

section \<open>The loops\<close>

definition parent :: "nat \<Rightarrow> nat" where
  "parent k = (k - 1) div 2"

function up_list :: "('a \<Rightarrow> 'a \<Rightarrow> bool) \<Rightarrow> 'a list \<Rightarrow> nat \<Rightarrow> 'a list" where
  "up_list lt xs j =
     (let i = parent j
      in if i = j \<or> \<not> lt (xs ! j) (xs ! i) then xs else up_list lt (swap_list xs i j) i)"
  by pat_completeness auto
termination
  by (relation "measure (\<lambda>(lt, xs, j). j)") (auto simp: parent_def)

definition smaller_child :: "('a \<Rightarrow> 'a \<Rightarrow> bool) \<Rightarrow> 'a list \<Rightarrow> nat \<Rightarrow> nat \<Rightarrow> nat" where
  "smaller_child lt xs i n =
     (if 2 * i + 2 < n \<and> lt (xs ! (2 * i + 2)) (xs ! (2 * i + 1)) then 2 * i + 2 else 2 * i + 1)"

lemma smaller_child_gt: "i < smaller_child lt xs i n"
  by (simp add: smaller_child_def)

lemma smaller_child_lt: "2 * i + 1 < n \<Longrightarrow> smaller_child lt xs i n < n"
  by (simp add: smaller_child_def)

lemma parent_smaller_child [simp]: "parent (smaller_child lt xs i n) = i"
  by (simp add: smaller_child_def parent_def)

function down_list :: "('a \<Rightarrow> 'a \<Rightarrow> bool) \<Rightarrow> 'a list \<Rightarrow> nat \<Rightarrow> nat \<Rightarrow> 'a list \<times> nat" where
  "down_list lt xs i n =
     (if n \<le> 2 * i + 1 then (xs, i)
      else let j = smaller_child lt xs i n
           in if \<not> lt (xs ! j) (xs ! i) then (xs, i) else down_list lt (swap_list xs i j) j n)"
  by pat_completeness auto
termination
proof (relation "measure (\<lambda>(lt, xs, i, n). n - i)", goal_cases)
  case (2 lt xs i n j)
  then show ?case using smaller_child_gt [of i lt xs n] by auto
qed simp

declare up_list.simps [simp del] down_list.simps [simp del]

section \<open>Lengths and permutations\<close>

lemma parent_less: "0 < k \<Longrightarrow> parent k < k"
  by (auto simp: parent_def)

lemma parent_eq_iff: "parent k = k \<longleftrightarrow> k = 0"
  by (auto simp: parent_def)

lemma child_cases: "parent k = i \<Longrightarrow> 0 < k \<Longrightarrow> k = 2 * i + 1 \<or> k = 2 * i + 2"
  by (auto simp: parent_def)

lemma length_up_list [simp]: "length (up_list lt xs j) = length xs"
  by (induction lt xs j rule: up_list.induct) (subst up_list.simps, simp add: Let_def)

lemma mset_up_list [simp]: "j < length xs \<Longrightarrow> mset (up_list lt xs j) = mset xs"
proof (induction lt xs j rule: up_list.induct)
  case (1 lt xs j)
  then show ?case using parent_less [of j]
    by (subst up_list.simps) (auto simp: Let_def parent_eq_iff)
qed

lemma length_down_list [simp]: "length (fst (down_list lt xs i n)) = length xs"
  by (induction lt xs i n rule: down_list.induct) (subst down_list.simps, simp add: Let_def)

lemma mset_down_list [simp]:
  "n \<le> length xs \<Longrightarrow> mset (fst (down_list lt xs i n)) = mset xs"
proof (induction lt xs i n rule: down_list.induct)
  case (1 lt xs i n)
  then show ?case using smaller_child_lt [of i n lt xs] smaller_child_gt [of i lt xs n]
    by (subst down_list.simps) (auto simp: Let_def)
qed

lemma down_list_beyond:
  "n \<le> k \<Longrightarrow> n \<le> length xs \<Longrightarrow> k < length xs \<Longrightarrow> fst (down_list lt xs i n) ! k = xs ! k"
proof (induction lt xs i n rule: down_list.induct)
  case (1 lt xs i n)
  then show ?case using smaller_child_lt [of i n lt xs] smaller_child_gt [of i lt xs n]
    by (subst down_list.simps) (auto simp: Let_def nth_swap_list)
qed

lemma down_list_ge: "i \<le> snd (down_list lt xs i n)"
proof (induction lt xs i n rule: down_list.induct)
  case (1 lt xs i n)
  then show ?case using smaller_child_gt [of i lt xs n]
    by (subst down_list.simps) (auto simp: Let_def)
qed

lemma down_list_unmoved: "snd (down_list lt xs i n) = i \<Longrightarrow> fst (down_list lt xs i n) = xs"
  using smaller_child_gt [of i lt xs n]
    down_list_ge [of "smaller_child lt xs i n" lt "swap_list xs i (smaller_child lt xs i n)" n]
  by (subst down_list.simps, subst (asm) down_list.simps) (auto simp: Let_def split: if_splits)

section \<open>The heap property\<close>

definition edge_ok :: "('a \<Rightarrow> 'a \<Rightarrow> bool) \<Rightarrow> 'a list \<Rightarrow> nat \<Rightarrow> bool" where
  "edge_ok lt xs k \<longleftrightarrow> \<not> lt (xs ! k) (xs ! parent k)"

definition heap_list :: "('a \<Rightarrow> 'a \<Rightarrow> bool) \<Rightarrow> 'a list \<Rightarrow> nat \<Rightarrow> bool" where
  "heap_list lt xs n \<longleftrightarrow> (\<forall>k. 0 < k \<and> k < n \<longrightarrow> edge_ok lt xs k)"

text \<open>The edges below the positions from \<open>b\<close> on: what \<open>heap.Init\<close> has established when it has
  sifted down every position from \<open>b\<close> on.\<close>

definition heap_from :: "('a \<Rightarrow> 'a \<Rightarrow> bool) \<Rightarrow> 'a list \<Rightarrow> nat \<Rightarrow> nat \<Rightarrow> bool" where
  "heap_from lt xs b n \<longleftrightarrow> (\<forall>k. 0 < k \<and> k < n \<and> b \<le> parent k \<longrightarrow> edge_ok lt xs k)"

text \<open>A heap with one defect: the grandchildren across position \<open>i\<close> are in order.\<close>

definition across_ok :: "('a \<Rightarrow> 'a \<Rightarrow> bool) \<Rightarrow> 'a list \<Rightarrow> nat \<Rightarrow> nat \<Rightarrow> bool" where
  "across_ok lt xs n i \<longleftrightarrow>
     (\<forall>k. 0 < i \<and> 0 < k \<and> k < n \<and> parent k = i \<longrightarrow> \<not> lt (xs ! k) (xs ! parent i))"

definition up_pre :: "('a \<Rightarrow> 'a \<Rightarrow> bool) \<Rightarrow> 'a list \<Rightarrow> nat \<Rightarrow> nat \<Rightarrow> bool" where
  "up_pre lt xs n j \<longleftrightarrow>
     (\<forall>k. 0 < k \<and> k < n \<and> k \<noteq> j \<longrightarrow> edge_ok lt xs k) \<and> across_ok lt xs n j"

definition down_pre :: "('a \<Rightarrow> 'a \<Rightarrow> bool) \<Rightarrow> 'a list \<Rightarrow> nat \<Rightarrow> nat \<Rightarrow> nat \<Rightarrow> bool" where
  "down_pre lt xs b n i \<longleftrightarrow> b \<le> i \<and>
     (\<forall>k. 0 < k \<and> k < n \<and> b \<le> parent k \<and> k \<noteq> i \<and> parent k \<noteq> i \<longrightarrow> edge_ok lt xs k) \<and>
     (b \<le> parent i \<longrightarrow> across_ok lt xs n i)"

lemma heap_list_empty [simp]: "heap_list lt xs 0" "heap_list lt xs (Suc 0)"
  by (auto simp: heap_list_def)

lemma heap_list_mono: "heap_list lt xs n \<Longrightarrow> m \<le> n \<Longrightarrow> heap_list lt xs m"
  by (auto simp: heap_list_def)

lemma heap_list_cong:
  "heap_list lt xs n \<Longrightarrow> (\<And>k. k < n \<Longrightarrow> ys ! k = xs ! k) \<Longrightarrow> heap_list lt ys n"
  unfolding heap_list_def edge_ok_def
  by (metis parent_less order_less_trans)

lemma down_pre_cong:
  assumes "down_pre lt xs b n i" "i < n" and eq: "\<And>k. k < n \<Longrightarrow> ys ! k = xs ! k"
  shows "down_pre lt ys b n i"
proof -
  have "edge_ok lt ys k = edge_ok lt xs k" if "0 < k" "k < n" for k
    using eq [of k] eq [of "parent k"] that parent_less [of k] by (simp add: edge_ok_def)
  moreover have "across_ok lt ys n i = across_ok lt xs n i"
    using eq [of "parent i"] assms(2) parent_less [of i] eq by (auto simp: across_ok_def)
  ultimately show ?thesis using assms(1) by (auto simp: down_pre_def)
qed

lemma heap_from_0: "heap_from lt xs 0 n = heap_list lt xs n"
  by (simp add: heap_from_def heap_list_def)

text \<open>\<open>heap.Init\<close>: sift down the positions \<open>m - 1\<close> to \<open>0\<close>, in this order.\<close>

primrec init_list :: "('a \<Rightarrow> 'a \<Rightarrow> bool) \<Rightarrow> 'a list \<Rightarrow> nat \<Rightarrow> nat \<Rightarrow> 'a list" where
  "init_list lt xs 0 n = xs"
| "init_list lt xs (Suc i) n = init_list lt (fst (down_list lt xs i n)) i n"

lemma length_init_list [simp]: "length (init_list lt xs m n) = length xs"
  by (induction m arbitrary: xs) auto

lemma mset_init_list [simp]: "n \<le> length xs \<Longrightarrow> mset (init_list lt xs m n) = mset xs"
  by (induction m arbitrary: xs) auto

lemma heap_from_half: "heap_from lt xs (n div 2) n"
  by (auto simp: heap_from_def parent_def)

locale strict_weak =
  fixes lt :: "'a \<Rightarrow> 'a \<Rightarrow> bool"
  assumes lt_asym: "lt x y \<Longrightarrow> \<not> lt y x"
    and lt_cotrans: "lt x z \<Longrightarrow> lt x y \<or> lt y z"
begin

lemma lt_irrefl [simp]: "\<not> lt x x"
  using lt_asym by blast

lemma lt_trans: "lt x y \<Longrightarrow> lt y z \<Longrightarrow> lt x z"
  using lt_asym lt_cotrans by blast

lemma nlt_trans: "\<not> lt y x \<Longrightarrow> \<not> lt z y \<Longrightarrow> \<not> lt z x"
  using lt_cotrans by blast

lemma insert_by_sorted:
  "sorted_wrt (\<lambda>a b. \<not> lt b a) ys \<Longrightarrow> sorted_wrt (\<lambda>a b. \<not> lt b a) (insert_by lt x ys)"
proof (induction ys)
  case (Cons y ys)
  show ?case
  proof (cases "lt y x")
    case True
    then show ?thesis using Cons lt_asym by auto
  next
    case False
    then have "\<not> lt z x" if "z \<in> set (y # ys)" for z
      using that Cons.prems nlt_trans by auto
    then show ?thesis using False Cons.prems by simp
  qed
qed simp

lemma go_sort_sorted: "sorted_wrt (\<lambda>a b. \<not> lt b a) (go_sort lt xs)"
  by (induction xs) (auto intro: insert_by_sorted)

lemma heap_root_least:
  assumes "heap_list lt xs n" "n \<le> length xs" "k < n"
  shows "\<not> lt (xs ! k) (xs ! 0)"
  using assms(3)
proof (induction k rule: less_induct)
  case (less k)
  show ?case
  proof (cases "k = 0")
    case False
    then have "parent k < k" by (simp add: parent_less)
    with less have "\<not> lt (xs ! parent k) (xs ! 0)" by simp
    moreover have "\<not> lt (xs ! k) (xs ! parent k)"
      using assms(1) less.prems False by (auto simp: heap_list_def edge_ok_def)
    ultimately show ?thesis by (rule nlt_trans)
  qed simp
qed

lemma heap_list_imp_across: "heap_list lt xs n \<Longrightarrow> i < n \<Longrightarrow> across_ok lt xs n i"
  unfolding heap_list_def across_ok_def edge_ok_def by (metis nlt_trans)

lemma up_step:
  assumes pre: "up_pre lt xs n j" and j: "0 < j" "j < n" "n \<le> length xs"
    and lower: "lt (xs ! j) (xs ! parent j)"
  shows "up_pre lt (swap_list xs (parent j) j) n (parent j)"
proof -
  define i where "i = parent j"
  define ys where "ys = swap_list xs i j"
  have i: "i < j" using j by (simp add: i_def parent_less)
  have nth: "ys ! k = (if k = j then xs ! i else if k = i then xs ! j else xs ! k)" if "k < n" for k
    unfolding ys_def using that i j by (intro nth_swap_list) auto
  have e: "\<not> lt (xs ! k) (xs ! parent k)" if "0 < k" "k < n" "k \<noteq> j" for k
    using pre that by (auto simp: up_pre_def edge_ok_def)
  have ac: "\<not> lt (xs ! k) (xs ! i)" if "0 < k" "k < n" "parent k = j" for k
    using pre that j by (auto simp: up_pre_def across_ok_def i_def)
  have "edge_ok lt ys k" if k: "0 < k" "k < n" "k \<noteq> i" for k
  proof -
    have pk: "parent k < k" using k by (simp add: parent_less)
    consider "k = j" | "parent k = j" "k \<noteq> j" | "parent k = i" "k \<noteq> j" | "parent k \<noteq> i" "parent k \<noteq> j" "k \<noteq> j"
      by blast
    then show ?thesis
    proof cases
      case 1
      then show ?thesis using lower lt_asym k j i nth [of j] nth [of i] by (auto simp: edge_ok_def i_def)
    next
      case 2
      then show ?thesis using ac [of k] k j i nth [of k] nth [of j] by (auto simp: edge_ok_def)
    next
      case 3
      then have "\<not> lt (xs ! k) (xs ! j)"
        using e [of k] k lower lt_trans by (auto simp: i_def)
      then show ?thesis using 3 k j i nth [of k] nth [of i] by (auto simp: edge_ok_def)
    next
      case 4
      then show ?thesis using e [of k] k pk nth [of k] nth [of "parent k"] by (auto simp: edge_ok_def)
    qed
  qed
  moreover have "\<not> lt (ys ! k) (ys ! parent i)"
    if k: "0 < i" "0 < k" "k < n" "parent k = i" for k
  proof -
    have pi: "parent i < i" using k by (simp add: parent_less)
    have ei: "\<not> lt (xs ! i) (xs ! parent i)" using e [of i] k i j by auto
    have "\<not> lt (xs ! k) (xs ! parent i)" if "k \<noteq> j"
      using nlt_trans [OF ei] e [of k] k that by blast
    then show ?thesis using ei k i j pi nth [of k] nth [of "parent i"] by auto
  qed
  ultimately show ?thesis unfolding up_pre_def across_ok_def i_def [symmetric] ys_def [symmetric] by blast
qed

lemma up_list_heap:
  "up_pre lt xs n j \<Longrightarrow> j < n \<Longrightarrow> n \<le> length xs \<Longrightarrow> heap_list lt (up_list lt xs j) n"
proof (induction j arbitrary: xs rule: less_induct)
  case (less j)
  show ?case
  proof (cases "parent j = j \<or> \<not> lt (xs ! j) (xs ! parent j)")
    case True
    then have "edge_ok lt xs j \<or> j = 0" by (auto simp: edge_ok_def parent_eq_iff)
    then have "heap_list lt xs n" using less.prems by (auto simp: up_pre_def heap_list_def)
    then show ?thesis using True by (subst up_list.simps) (simp add: Let_def)
  next
    case False
    then have j: "0 < j" "parent j < j" by (auto simp: parent_eq_iff parent_less)
    then have "up_pre lt (swap_list xs (parent j) j) n (parent j)"
      using False less.prems by (intro up_step) auto
    then have "heap_list lt (up_list lt (swap_list xs (parent j) j) (parent j)) n"
      using j less.prems by (intro less.IH) auto
    then show ?thesis using False by (subst up_list.simps) (simp add: Let_def)
  qed
qed

text \<open>Sifting down moves the smaller child up and leaves a defect one level lower.\<close>

lemma down_step:
  assumes pre: "down_pre lt xs b n i" and i: "2 * i + 1 < n" "n \<le> length xs"
    and j: "j = smaller_child lt xs i n" and lower: "lt (xs ! j) (xs ! i)"
  shows "down_pre lt (swap_list xs i j) b n j" "edge_ok lt (swap_list xs i j) i \<or> i = 0 \<or> parent i < b"
proof -
  define ys where "ys = swap_list xs i j"
  have ij: "i < j" "j < n" "parent j = i"
    using i by (auto simp: j smaller_child_gt smaller_child_lt)
  have bi: "b \<le> i" using pre by (simp add: down_pre_def)
  have nth: "ys ! k = (if k = j then xs ! i else if k = i then xs ! j else xs ! k)" if "k < n" for k
    unfolding ys_def using that i ij by (intro nth_swap_list) auto
  have e: "\<not> lt (xs ! k) (xs ! parent k)" if "0 < k" "k < n" "b \<le> parent k" "k \<noteq> i" "parent k \<noteq> i" for k
    using pre that by (auto simp: down_pre_def edge_ok_def)
  have ac: "\<not> lt (xs ! k) (xs ! parent i)" if "0 < i" "b \<le> parent i" "0 < k" "k < n" "parent k = i" for k
    using pre that by (auto simp: down_pre_def across_ok_def)
  have sib: "\<not> lt (xs ! k) (xs ! j)" if "0 < k" "k < n" "parent k = i" for k
    using child_cases [OF that(3,1)] that lt_asym by (auto simp: j smaller_child_def)
  show top: "edge_ok lt (swap_list xs i j) i \<or> i = 0 \<or> parent i < b"
  proof (cases "i = 0 \<or> parent i < b")
    case False
    then have "parent i < i" by (simp add: parent_less)
    then show ?thesis
      using ac [of j] False ij nth [of i] nth [of "parent i"] by (auto simp: edge_ok_def ys_def)
  qed auto
  have "edge_ok lt ys k" if k: "0 < k" "k < n" "b \<le> parent k" "parent k \<noteq> j" for k
  proof -
    have pk: "parent k < k" using k by (simp add: parent_less)
    consider "k = i" | "k = j" | "parent k = i" "k \<noteq> j" "k \<noteq> i" | "parent k \<noteq> i" "k \<noteq> i" "k \<noteq> j" by blast
    then show ?thesis
    proof cases
      case 1
      then show ?thesis using top k by (auto simp: ys_def)
    next
      case 2
      then show ?thesis using lower lt_asym ij nth [of j] nth [of i] by (auto simp: edge_ok_def)
    next
      case 3
      then show ?thesis using sib [of k] k ij nth [of k] nth [of i] by (auto simp: edge_ok_def)
    next
      case 4
      then show ?thesis using e [of k] k pk nth [of k] nth [of "parent k"] by (auto simp: edge_ok_def)
    qed
  qed
  moreover have "\<not> lt (ys ! k) (ys ! parent j)" if "0 < k" "k < n" "parent k = j" for k
    using e [of k] that ij bi nth [of k] nth [of i] parent_less [of k] by auto
  ultimately show "down_pre lt (swap_list xs i j) b n j"
    using bi ij unfolding down_pre_def across_ok_def ys_def [symmetric] by auto
qed

lemma down_stop:
  assumes pre: "down_pre lt xs b n i"
    and stop: "n \<le> 2 * i + 1 \<or> \<not> lt (xs ! smaller_child lt xs i n) (xs ! i)"
    and k: "0 < k" "k < n" "b \<le> parent k" "k \<noteq> i"
  shows "edge_ok lt xs k"
proof (cases "parent k = i")
  case True
  define j where "j = smaller_child lt xs i n"
  have c: "k = 2 * i + 1 \<or> k = 2 * i + 2" using True k by (intro child_cases) auto
  then have "\<not> lt (xs ! j) (xs ! i)" using stop k by (auto simp: j_def)
  moreover have "\<not> lt (xs ! k) (xs ! j)" using c k lt_asym by (auto simp: j_def smaller_child_def)
  ultimately show ?thesis using True nlt_trans unfolding edge_ok_def by blast
qed (use pre k in \<open>auto simp: down_pre_def\<close>)

lemma down_list_heap:
  "down_pre lt xs b n i \<Longrightarrow> edge_ok lt xs i \<or> i = 0 \<or> parent i < b \<Longrightarrow> n \<le> length xs \<Longrightarrow>
   heap_from lt (fst (down_list lt xs i n)) b n"
proof (induction "n - i" arbitrary: xs i rule: less_induct)
  case less
  define j where "j = smaller_child lt xs i n"
  show ?case
  proof (cases "n \<le> 2 * i + 1 \<or> \<not> lt (xs ! j) (xs ! i)")
    case True
    then have "edge_ok lt xs k" if "0 < k" "k < n" "b \<le> parent k" for k
      using down_stop [OF less.prems(1)] less.prems(2) that by (cases "k = i") (auto simp: j_def)
    then have "heap_from lt xs b n" by (simp add: heap_from_def)
    then show ?thesis using True by (subst down_list.simps) (auto simp: Let_def j_def)
  next
    case False
    then have ij: "i < j" "j < n" by (auto simp: j_def smaller_child_gt smaller_child_lt)
    have d: "down_pre lt (swap_list xs i j) b n j"
      using False less.prems by (intro down_step) (auto simp: j_def)
    have "edge_ok lt (swap_list xs i j) j"
      using False ij less.prems(3) lt_asym by (auto simp: edge_ok_def nth_swap_list j_def)
    then have "heap_from lt (fst (down_list lt (swap_list xs i j) j n)) b n"
      using d ij less.prems(3) by (intro less.hyps) auto
    then show ?thesis using False by (subst down_list.simps) (auto simp: Let_def j_def)
  qed
qed

text \<open>\<open>heap.Fix\<close>: sift down, and up when sifting down did not move.\<close>

lemma fix_list_heap:
  assumes pre: "down_pre lt xs 0 n i" and i: "i < n" "n \<le> length xs"
  shows "heap_list lt (if snd (down_list lt xs i n) \<noteq> i then fst (down_list lt xs i n)
                         else up_list lt (fst (down_list lt xs i n)) i) n"
proof -
  define j where "j = smaller_child lt xs i n"
  show ?thesis
  proof (cases "n \<le> 2 * i + 1 \<or> \<not> lt (xs ! j) (xs ! i)")
    case True
    then have "down_list lt xs i n = (xs, i)" by (subst down_list.simps) (auto simp: Let_def j_def)
    moreover have "up_pre lt xs n i"
      using down_stop [OF pre] True pre by (auto simp: up_pre_def down_pre_def j_def)
    ultimately show ?thesis using i by (simp add: up_list_heap)
  next
    case False
    then have ij: "i < j" "j < n" by (auto simp: j_def smaller_child_gt smaller_child_lt)
    have eq: "down_list lt xs i n = down_list lt (swap_list xs i j) j n"
      using False by (subst down_list.simps) (auto simp: Let_def j_def)
    have d: "down_pre lt (swap_list xs i j) 0 n j"
      using False i pre by (intro down_step) (auto simp: j_def)
    have "edge_ok lt (swap_list xs i j) j"
      using False ij i lt_asym by (auto simp: edge_ok_def nth_swap_list j_def)
    then have "heap_list lt (fst (down_list lt (swap_list xs i j) j n)) n"
      using d i down_list_heap [of "swap_list xs i j" 0 n j] by (simp add: heap_from_0)
    then show ?thesis using eq ij down_list_ge [of j lt "swap_list xs i j" n] by auto
  qed
qed

lemma heap_update_down_pre:
  assumes "heap_list lt xs n" "i < n" "n \<le> length xs"
  shows "down_pre lt (xs[i := x]) 0 n i"
proof -
  have e: "\<not> lt (xs ! k) (xs ! parent k)" if "0 < k" "k < n" for k
    using assms(1) that by (auto simp: heap_list_def edge_ok_def)
  have "edge_ok lt (xs[i := x]) k" if "0 < k" "k < n" "k \<noteq> i" "parent k \<noteq> i" for k
    using e [of k] that by (simp add: edge_ok_def)
  moreover have "\<not> lt (xs[i := x] ! k) (xs[i := x] ! parent i)"
    if "0 < i" "0 < k" "k < n" "parent k = i" for k
    using nlt_trans [of "xs ! i" "xs ! parent i" "xs ! k"] e [of i] e [of k] that assms
      parent_less [of i] parent_less [of k] by auto
  ultimately show ?thesis unfolding down_pre_def across_ok_def by blast
qed

lemma heap_append_up_pre:
  assumes "heap_list lt xs (length xs)" shows "up_pre lt (xs @ [x]) (length xs + 1) (length xs)"
proof -
  have "edge_ok lt (xs @ [x]) k" if "0 < k" "k < length xs" for k
    using assms that parent_less [of k] by (auto simp: heap_list_def edge_ok_def nth_append)
  moreover have "parent k \<noteq> length xs" if "0 < k" "k < length xs + 1" for k
    using that parent_less [of k] by simp
  ultimately show ?thesis by (auto simp: up_pre_def across_ok_def)
qed

lemma init_step:
  assumes "heap_from lt xs (Suc i) n" "n \<le> length xs"
  shows "heap_from lt (fst (down_list lt xs i n)) i n"
proof (rule down_list_heap)
  show "down_pre lt xs i n i"
    using assms(1) by (auto simp: down_pre_def heap_from_def across_ok_def Suc_le_eq dest: parent_less)
  show "edge_ok lt xs i \<or> i = 0 \<or> parent i < i" using parent_less by blast
qed (rule assms(2))

lemma init_list_heap:
  "heap_from lt xs m n \<Longrightarrow> n \<le> length xs \<Longrightarrow> heap_list lt (init_list lt xs m n) n"
  by (induction m arbitrary: xs) (auto simp: heap_from_0 init_step)

end

end
