(* ===== verification/Minheap.thy ===== *)
theory Minheap
  imports Array_Heap "HOL-Library.Monad_Syntax"
begin

text \<open>
  The indexed min-heap of \<open>src/eviction/internal/minheap/minheap.go\<close>, with the parts of Go's
  \<open>container/heap\<close> it calls. Nodes are objects shared by the slice \<open>Nodes\<close> and the map \<open>byKey\<close> and
  mutated through both, so they live in an explicit store: \<open>mem\<close> is the list of node cells, a
  reference is a position in it, and allocation appends. A run-time panic (index out of range, nil
  dereference) is \<open>None\<close>. Slice positions are natural numbers: a heap holds at most \<open>K < 2 ^ 32\<close>
  nodes, so the index arithmetic of \<open>container/heap\<close> stays far from the \<open>int\<close> bounds.

  The invariant \<open>heap_inv\<close> says that every node knows its position, that \<open>byKey\<close> indexes exactly the
  nodes of the slice, that the slice is heap-ordered, and that the capacity is respected. Every
  operation keeps it and never panics under it, and refines an operation on the abstract hot set, a
  finite map from keys to counts.
\<close>

section \<open>Nodes and the heap\<close>

type_synonym ref = nat

record node =
  Key :: string
  Count :: u32
  index :: int

record Heap =
  Nodes :: "ref list"
  K :: u32
  byKey :: "string \<rightharpoonup> ref"
  mem :: "node list"

definition node_at :: "Heap \<Rightarrow> nat \<Rightarrow> node option" where
  "node_at h i =
     (if i < length (Nodes h) \<and> Nodes h ! i < length (mem h) then Some (mem h ! (Nodes h ! i)) else None)"

definition node_less :: "node \<Rightarrow> node \<Rightarrow> bool" where
  "node_less a b \<longleftrightarrow> Count a < Count b \<or> (Count a = Count b \<and> Key b < Key a)"

definition Less :: "Heap \<Rightarrow> nat \<Rightarrow> nat \<Rightarrow> bool option" where
  "Less h i j = do { a \<leftarrow> node_at h i; b \<leftarrow> node_at h j; Some (node_less a b) }"

definition set_index :: "node list \<Rightarrow> ref \<Rightarrow> int \<Rightarrow> node list" where
  "set_index m r i = m[r := (m ! r)\<lparr>index := i\<rparr>]"

definition Swap :: "Heap \<Rightarrow> nat \<Rightarrow> nat \<Rightarrow> Heap option" where
  "Swap h i j = do {
     _ \<leftarrow> node_at h i;
     _ \<leftarrow> node_at h j;
     let ns = swap_list (Nodes h) i j;
     let m = set_index (mem h) (ns ! i) (int i);
     Some (h\<lparr>Nodes := ns, mem := set_index m (ns ! j) (int j)\<rparr>) }"

definition Nodes_Push :: "Heap \<Rightarrow> ref \<Rightarrow> Heap option" where
  "Nodes_Push h r =
     (if r < length (mem h)
      then Some (h\<lparr>Nodes := Nodes h @ [r], mem := set_index (mem h) r (int (length (Nodes h)))\<rparr>)
      else None)"

definition Nodes_Pop :: "Heap \<Rightarrow> (ref \<times> Heap) option" where
  "Nodes_Pop h =
     (if Nodes h = [] then None
      else let r = last (Nodes h)
           in if r < length (mem h)
              then Some (r, h\<lparr>Nodes := butlast (Nodes h), mem := set_index (mem h) r (- 1)\<rparr>)
              else None)"

section \<open>\<open>container/heap\<close> on the nodes\<close>

function heap_up :: "Heap \<Rightarrow> nat \<Rightarrow> Heap option" where
  "heap_up h j =
     (let i = parent j
      in if i = j then Some h
         else case Less h j i of
           None \<Rightarrow> None
         | Some b \<Rightarrow> if \<not> b then Some h
             else (case Swap h i j of None \<Rightarrow> None | Some h' \<Rightarrow> heap_up h' i))"
  by pat_completeness auto
termination
  by (relation "measure (\<lambda>(h, j). j)") (auto simp: parent_def)

text \<open>The child \<open>down\<close> compares with: the right one when it exists and is less than the left one.\<close>

definition pick_child :: "Heap \<Rightarrow> nat \<Rightarrow> nat \<Rightarrow> nat option" where
  "pick_child h j1 n =
     (if j1 + 1 < n
      then case Less h (j1 + 1) j1 of None \<Rightarrow> None | Some b \<Rightarrow> Some (if b then j1 + 1 else j1)
      else Some j1)"

lemma pick_child_ge: "pick_child h j1 n = Some j \<Longrightarrow> j1 \<le> j"
  by (auto simp: pick_child_def split: if_splits option.splits)

text \<open>\<open>down\<close> returns the heap and the final position; the Go function returns whether it moved.\<close>

function heap_down :: "Heap \<Rightarrow> nat \<Rightarrow> nat \<Rightarrow> (Heap \<times> nat) option" where
  "heap_down h i n =
     (if n \<le> 2 * i + 1 then Some (h, i)
      else case pick_child h (2 * i + 1) n of
        None \<Rightarrow> None
      | Some j \<Rightarrow> (case Less h j i of
          None \<Rightarrow> None
        | Some b \<Rightarrow> if \<not> b then Some (h, i)
            else (case Swap h i j of None \<Rightarrow> None | Some h' \<Rightarrow> heap_down h' j n)))"
  by pat_completeness auto
termination
  by (relation "measure (\<lambda>(h, i, n). n - i)") (auto dest: pick_child_ge)

declare heap_up.simps [simp del] heap_down.simps [simp del]

text \<open>\<open>heap.Init\<close> sifts down the positions \<open>n / 2 - 1\<close> to \<open>0\<close>.\<close>

primrec heap_init_loop :: "Heap \<Rightarrow> nat \<Rightarrow> nat \<Rightarrow> Heap option" where
  "heap_init_loop h 0 n = Some h"
| "heap_init_loop h (Suc i) n = do { (h', _) \<leftarrow> heap_down h i n; heap_init_loop h' i n }"

definition heap_Init :: "Heap \<Rightarrow> Heap option" where
  "heap_Init h = heap_init_loop h (length (Nodes h) div 2) (length (Nodes h))"

definition heap_Push :: "Heap \<Rightarrow> ref \<Rightarrow> Heap option" where
  "heap_Push h r = do { h' \<leftarrow> Nodes_Push h r; heap_up h' (length (Nodes h') - 1) }"

definition heap_Pop :: "Heap \<Rightarrow> (ref \<times> Heap) option" where
  "heap_Pop h =
     (if Nodes h = [] then None
      else do {
        let n = length (Nodes h) - 1;
        h1 \<leftarrow> Swap h 0 n;
        (h2, _) \<leftarrow> heap_down h1 0 n;
        Nodes_Pop h2 })"

definition heap_Fix :: "Heap \<Rightarrow> nat \<Rightarrow> Heap option" where
  "heap_Fix h i = do {
     (h1, i') \<leftarrow> heap_down h i (length (Nodes h));
     if i < i' then Some h1 else heap_up h1 i }"

definition heap_Remove :: "Heap \<Rightarrow> nat \<Rightarrow> (ref \<times> Heap) option" where
  "heap_Remove h i =
     (if Nodes h = [] then None
      else do {
        let n = length (Nodes h) - 1;
        h' \<leftarrow> (if n \<noteq> i then do {
                 h1 \<leftarrow> Swap h i n;
                 (h2, i') \<leftarrow> heap_down h1 i n;
                 if i < i' then Some h2 else heap_up h2 i }
               else Some h);
        Nodes_Pop h' })"

section \<open>The operations of \<open>minheap.Heap\<close>\<close>

definition NewHeap :: "u32 \<Rightarrow> Heap" where
  "NewHeap k = \<lparr>Nodes = [], K = k, byKey = Map.empty, mem = []\<rparr>"

definition Fix :: "Heap \<Rightarrow> int \<Rightarrow> u32 \<Rightarrow> Heap option" where
  "Fix h idx cnt =
     (if idx < 0 then None
      else do {
        nd \<leftarrow> node_at h (nat idx);
        heap_Fix (h\<lparr>mem := (mem h)[Nodes h ! nat idx := nd\<lparr>Count := cnt\<rparr>]\<rparr>) (nat idx) })"

text \<open>\<open>candidate\<close> when the caller gave one, a new node otherwise.\<close>

definition candidate_node :: "Heap \<Rightarrow> string \<Rightarrow> u32 \<Rightarrow> ref option \<Rightarrow> ref \<times> Heap" where
  "candidate_node h key cnt candidate = (case candidate of
     Some r \<Rightarrow> (r, h)
   | None \<Rightarrow> (length (mem h), h\<lparr>mem := mem h @ [\<lparr>Key = key, Count = cnt, index = 0\<rparr>]\<rparr>))"

definition push_candidate :: "Heap \<Rightarrow> string \<Rightarrow> u32 \<Rightarrow> ref option \<Rightarrow> Heap option" where
  "push_candidate h key cnt candidate = do {
     let (r, h1) = candidate_node h key cnt candidate;
     h2 \<leftarrow> heap_Push h1 r;
     Some (h2\<lparr>byKey := (byKey h2)(key \<mapsto> r)\<rparr>) }"

definition Pop :: "Heap \<Rightarrow> (ref \<times> Heap) option" where
  "Pop h = do {
     (r, h') \<leftarrow> heap_Pop h;
     Some (r, h'\<lparr>byKey := (byKey h')(Key (mem h' ! r) := None)\<rparr>) }"

definition upsert :: "Heap \<Rightarrow> string \<Rightarrow> u32 \<Rightarrow> ref option \<Rightarrow> (ref option \<times> Heap) option" where
  "upsert h key cnt candidate = (case byKey h key of
     Some existing \<Rightarrow>
       if existing < length (mem h)
       then do { h' \<leftarrow> Fix h (index (mem h ! existing)) cnt; Some (None, h') }
       else None
   | None \<Rightarrow>
       if K h = 0
       then let (r, h') = candidate_node h key cnt candidate in Some (Some r, h')
       else if (word_of_nat (length (Nodes h)) :: u32) < K h
       then do { h' \<leftarrow> push_candidate h key cnt candidate; Some (None, h') }
       else do {
         nd0 \<leftarrow> node_at h 0;
         if Count nd0 < cnt
         then do {
           (expelled, h1) \<leftarrow> Pop h;
           h2 \<leftarrow> push_candidate h1 key cnt candidate;
           Some (Some expelled, h2) }
         else Some (None, h) })"

definition Add :: "Heap \<Rightarrow> ref \<Rightarrow> (ref option \<times> Heap) option" where
  "Add h val =
     (if val < length (mem h) then upsert h (Key (mem h ! val)) (Count (mem h ! val)) (Some val) else None)"

definition Upsert :: "Heap \<Rightarrow> string \<Rightarrow> u32 \<Rightarrow> (ref option \<times> Heap) option" where
  "Upsert h key cnt = upsert h key cnt None"

definition Min :: "Heap \<Rightarrow> u32 option" where
  "Min h = (if Nodes h = [] then Some 0 else map_option Count (node_at h 0))"

definition Len :: "Heap \<Rightarrow> nat" where
  "Len h = length (Nodes h)"

definition Contains :: "Heap \<Rightarrow> string \<Rightarrow> bool" where
  "Contains h key = (byKey h key \<noteq> None)"

definition Remove :: "Heap \<Rightarrow> string \<Rightarrow> (bool \<times> Heap) option" where
  "Remove h key = (case byKey h key of
     None \<Rightarrow> Some (False, h)
   | Some r \<Rightarrow>
       if r < length (mem h) \<and> 0 \<le> index (mem h ! r)
       then do {
         (_, h') \<leftarrow> heap_Remove h (nat (index (mem h ! r)));
         Some (True, h'\<lparr>byKey := (byKey h')(key := None)\<rparr>) }
       else None)"

definition Find :: "Heap \<Rightarrow> string \<Rightarrow> (int \<times> bool) option" where
  "Find h key = (case byKey h key of
     None \<Rightarrow> Some (0, False)
   | Some r \<Rightarrow> if r < length (mem h) then Some (index (mem h ! r), True) else None)"

text \<open>\<open>ScaleDown\<close>: halve every node's count, restore the order, drop the nodes that reached zero.\<close>

primrec halve_counts :: "node list \<Rightarrow> ref list \<Rightarrow> node list option" where
  "halve_counts m [] = Some m"
| "halve_counts m (r # rs) =
     (if r < length m then halve_counts (m[r := (m ! r)\<lparr>Count := drop_bit 1 (Count (m ! r))\<rparr>]) rs
      else None)"

lemma Swap_length: "Swap h i j = Some h' \<Longrightarrow> length (Nodes h') = length (Nodes h)"
  by (auto simp: Swap_def Let_def split: Option.bind_splits)

lemma heap_down_cases:
  assumes "heap_down h i n = Some (h', i')"
  obtains "h' = h" "i' = i"
  | j h1 where "i < j" "j < n" "2 * i + 1 < n" "Swap h i j = Some h1" "heap_down h1 j n = Some (h', i')"
proof (cases "n \<le> 2 * i + 1")
  case True
  then show ?thesis using assms that(1) by (simp add: heap_down.simps [of h i n])
next
  case False
  then obtain j b where j: "pick_child h (2 * i + 1) n = Some j" "Less h j i = Some b"
    using assms by (auto simp: heap_down.simps [of h i n] split: option.splits)
  have "i < j" "j < n"
    using j False by (auto simp: pick_child_def split: if_splits option.splits)
  then show ?thesis using assms that False j
    by (cases b) (auto simp: heap_down.simps [of h i n] split: option.splits)
qed

lemma heap_down_length: "heap_down h i n = Some (h', i') \<Longrightarrow> length (Nodes h') = length (Nodes h)"
proof (induction "n - i" arbitrary: h i rule: less_induct)
  case less
  from less.prems show ?case
  proof (cases rule: heap_down_cases)
    case (2 j h1)
    then show ?thesis using less.hyps [of j h1] Swap_length [of h i j h1] by simp
  qed simp
qed

lemma Pop_length: "Pop h = Some (r, h') \<Longrightarrow> length (Nodes h') < length (Nodes h)"
  by (auto simp: Pop_def heap_Pop_def Nodes_Pop_def Let_def split: Option.bind_splits if_splits
      dest!: Swap_length heap_down_length)

function drop_zeros :: "Heap \<Rightarrow> Heap option" where
  "drop_zeros h =
     (if Nodes h = [] then Some h
      else case node_at h 0 of
        None \<Rightarrow> None
      | Some nd0 \<Rightarrow>
          if Count nd0 = 0
          then (case Pop h of None \<Rightarrow> None | Some (_, h') \<Rightarrow> drop_zeros h')
          else Some h)"
  by pat_completeness auto
termination
  by (relation "measure (\<lambda>h. length (Nodes h))") (auto dest: Pop_length)

declare drop_zeros.simps [simp del]

definition ScaleDown :: "Heap \<Rightarrow> Heap option" where
  "ScaleDown h = do {
     m \<leftarrow> halve_counts (mem h) (Nodes h);
     h1 \<leftarrow> heap_Init (h\<lparr>mem := m\<rparr>);
     drop_zeros h1 }"

text \<open>\<open>Sorted\<close> copies the nodes and sorts the copies in descending order; the sort's swaps leave every
  copy with its final position as index.\<close>

definition copy_nodes :: "Heap \<Rightarrow> node list option" where
  "copy_nodes h =
     (if \<forall>r \<in> set (Nodes h). r < length (mem h) then Some (map (\<lambda>r. mem h ! r) (Nodes h)) else None)"

definition Sorted :: "Heap \<Rightarrow> node list option" where
  "Sorted h = do {
     cs \<leftarrow> copy_nodes h;
     let ns = go_sort (\<lambda>a b. node_less b a) cs;
     Some (map2 (\<lambda>nd i. nd\<lparr>index := int i\<rparr>) ns [0..<length ns]) }"

end
