(* ===== verification/Minheap_Refinement.thy ===== *)
theory Minheap_Refinement
  imports Minheap
begin

text \<open>
  Correctness of the indexed min-heap. \<open>wf_heap\<close> relates the node store, the slice and the positions the
  nodes record; \<open>entries\<close> reads the slice as key/count pairs. On well-formed heaps the loops of
  \<open>container/heap\<close> never panic and act on \<open>entries\<close> as the list functions of \<open>Array_Heap\<close> do.
  \<open>heap_inv\<close> adds the heap order, the index \<open>byKey\<close> and the capacity; \<open>hot\<close> is the map a heap stands
  for. The interface locale \<open>hot_set\<close> states what the users of the heap rely on.
\<close>

section \<open>The order of the entries\<close>

type_synonym entry = "string \<times> u32"

definition entry_less :: "entry \<Rightarrow> entry \<Rightarrow> bool" where
  "entry_less a b \<longleftrightarrow> snd a < snd b \<or> (snd a = snd b \<and> fst b < fst a)"

interpretation entry_order: strict_weak entry_less
  by unfold_locales (auto simp: entry_less_def)

lemma entry_less_total: "entry_less a b \<or> a = b \<or> entry_less b a"
  by (cases a; cases b) (auto simp: entry_less_def neq_iff)

definition entry_of :: "node \<Rightarrow> entry" where
  "entry_of nd = (Key nd, Count nd)"

lemma node_less_entry: "node_less a b = entry_less (entry_of a) (entry_of b)"
  by (simp add: node_less_def entry_less_def entry_of_def)

section \<open>Well-formed stores\<close>

definition wf_heap :: "Heap \<Rightarrow> bool" where
  "wf_heap h \<longleftrightarrow> distinct (Nodes h) \<and> (\<forall>r \<in> set (Nodes h). r < length (mem h)) \<and>
     (\<forall>i < length (Nodes h). index (mem h ! (Nodes h ! i)) = int i)"

definition entries :: "Heap \<Rightarrow> entry list" where
  "entries h = map (\<lambda>r. entry_of (mem h ! r)) (Nodes h)"

text \<open>\<open>same_objects h h'\<close>: the same nodes with the same keys and counts, perhaps in other positions.\<close>

definition same_objects :: "Heap \<Rightarrow> Heap \<Rightarrow> bool" where
  "same_objects h h' \<longleftrightarrow> K h' = K h \<and> byKey h' = byKey h \<and> set (Nodes h') = set (Nodes h) \<and>
     length (Nodes h') = length (Nodes h) \<and> length (mem h') = length (mem h) \<and>
     (\<forall>r < length (mem h). entry_of (mem h' ! r) = entry_of (mem h ! r))"

lemma same_objects_refl [simp]: "same_objects h h"
  by (simp add: same_objects_def)

lemma same_objects_trans [trans]:
  "same_objects h1 h2 \<Longrightarrow> same_objects h2 h3 \<Longrightarrow> same_objects h1 h3"
  by (simp add: same_objects_def)

lemma length_entries [simp]: "length (entries h) = length (Nodes h)"
  by (simp add: entries_def)

lemma nth_entries: "i < length (Nodes h) \<Longrightarrow> entries h ! i = entry_of (mem h ! (Nodes h ! i))"
  by (simp add: entries_def)

lemma entry_of_set_index [simp]: "entry_of (set_index m r i ! k) = entry_of (m ! k)"
  by (cases "r < length m") (auto simp: set_index_def nth_list_update entry_of_def list_update_beyond)

lemma length_set_index [simp]: "length (set_index m r i) = length m"
  by (simp add: set_index_def)

lemma index_set_index:
  "r < length m \<Longrightarrow> index (set_index m r i ! k) = (if k = r then i else index (m ! k))"
  by (simp add: set_index_def nth_list_update)

lemma node_at_wf: "wf_heap h \<Longrightarrow> i < length (Nodes h) \<Longrightarrow> node_at h i = Some (mem h ! (Nodes h ! i))"
  by (auto simp: node_at_def wf_heap_def)

lemma Less_wf:
  "wf_heap h \<Longrightarrow> i < length (Nodes h) \<Longrightarrow> j < length (Nodes h) \<Longrightarrow>
   Less h i j = Some (entry_less (entries h ! i) (entries h ! j))"
  by (simp add: Less_def node_at_wf nth_entries node_less_entry)

lemma Swap_wf:
  assumes "wf_heap h" "i < length (Nodes h)" "j < length (Nodes h)"
  obtains h' where "Swap h i j = Some h'" "wf_heap h'" "same_objects h h'"
    "entries h' = swap_list (entries h) i j"
proof
  define ns where "ns = swap_list (Nodes h) i j"
  define m where "m = set_index (set_index (mem h) (ns ! i) (int i)) (ns ! j) (int j)"
  show eq: "Swap h i j = Some (h\<lparr>Nodes := ns, mem := m\<rparr>)"
    using assms by (simp add: Swap_def node_at_wf Let_def ns_def m_def)
  have d: "distinct ns" "set ns = set (Nodes h)" "length ns = length (Nodes h)"
    using assms by (auto simp: ns_def wf_heap_def)
  have r: "\<forall>r \<in> set ns. r < length (mem h)" using d assms(1) by (simp add: wf_heap_def)
  have "index (m ! (ns ! k)) = int k" if k: "k < length ns" for k
  proof -
    have "ns ! k = Nodes h ! k" if "k \<noteq> i" "k \<noteq> j"
      using k that assms(2,3) d by (simp add: ns_def nth_swap_list)
    moreover have "ns ! k < length (mem h)" "ns ! i < length (mem h)" "ns ! j < length (mem h)"
      using k d r assms by (metis nth_mem)+
    ultimately show ?thesis using k d assms
      by (auto simp: m_def index_set_index nth_eq_iff_index_eq wf_heap_def)
  qed
  then show "wf_heap (h\<lparr>Nodes := ns, mem := m\<rparr>)" using d r by (simp add: wf_heap_def m_def)
  show "same_objects h (h\<lparr>Nodes := ns, mem := m\<rparr>)" using d by (simp add: same_objects_def m_def)
  show "entries (h\<lparr>Nodes := ns, mem := m\<rparr>) = swap_list (entries h) i j"
    using assms by (simp add: entries_def m_def ns_def map_swap_list)
qed

section \<open>The loops refine the list functions\<close>

lemma heap_up_refines:
  assumes "wf_heap h" "j < length (Nodes h)"
  shows "\<exists>h'. heap_up h j = Some h' \<and> wf_heap h' \<and> same_objects h h' \<and>
           entries h' = up_list entry_less (entries h) j"
  using assms
proof (induction j arbitrary: h rule: less_induct)
  case (less j)
  show ?case
  proof (cases "parent j = j \<or> \<not> entry_less (entries h ! j) (entries h ! parent j)")
    case True
    then show ?thesis using less.prems parent_less [of j]
      by (subst heap_up.simps, subst up_list.simps) (auto simp: Let_def Less_wf parent_eq_iff)
  next
    case False
    then have j: "parent j < j" by (simp add: parent_less parent_eq_iff)
    then obtain h1 where h1: "Swap h (parent j) j = Some h1" "wf_heap h1" "same_objects h h1"
      "entries h1 = swap_list (entries h) (parent j) j"
      using less.prems Swap_wf [of h "parent j" j] by auto
    moreover have "parent j < length (Nodes h1)" using h1 j less.prems by (simp add: same_objects_def)
    ultimately obtain h2 where "heap_up h1 (parent j) = Some h2" "wf_heap h2" "same_objects h1 h2"
      "entries h2 = up_list entry_less (entries h1) (parent j)"
      using less.IH [OF j] by blast
    then show ?thesis using False h1 j less.prems
      by (subst heap_up.simps, subst up_list.simps)
         (auto simp: Let_def Less_wf intro: same_objects_trans)
  qed
qed

lemma pick_child_refines:
  "wf_heap h \<Longrightarrow> n \<le> length (Nodes h) \<Longrightarrow> Suc (2 * i) < n \<Longrightarrow>
   pick_child h (Suc (2 * i)) n = Some (smaller_child entry_less (entries h) i n)"
  by (auto simp: pick_child_def smaller_child_def Less_wf)

lemma heap_down_refines:
  assumes "wf_heap h" "n \<le> length (Nodes h)"
  shows "\<exists>h' i'. heap_down h i n = Some (h', i') \<and> wf_heap h' \<and> same_objects h h' \<and>
           (entries h', i') = down_list entry_less (entries h) i n"
  using assms
proof (induction "n - i" arbitrary: h i rule: less_induct)
  case less
  define j where "j = smaller_child entry_less (entries h) i n"
  show ?case
  proof (cases "n \<le> 2 * i + 1 \<or> \<not> entry_less (entries h ! j) (entries h ! i)")
    case True
    then show ?thesis using less.prems smaller_child_lt [of i n entry_less "entries h"]
      by (subst heap_down.simps, subst down_list.simps)
         (auto simp: Let_def j_def Less_wf pick_child_refines)
  next
    case False
    then have ij: "i < j" "j < n" by (auto simp: j_def smaller_child_gt smaller_child_lt)
    then obtain h1 where h1: "Swap h i j = Some h1" "wf_heap h1" "same_objects h h1"
      "entries h1 = swap_list (entries h) i j"
      using less.prems Swap_wf [of h i j] by auto
    moreover have "n \<le> length (Nodes h1)" using h1 less.prems by (simp add: same_objects_def)
    moreover have "n - j < n - i" using ij by simp
    ultimately obtain h2 i' where "heap_down h1 j n = Some (h2, i')" "wf_heap h2" "same_objects h1 h2"
      "(entries h2, i') = down_list entry_less (entries h1) j n"
      using less.hyps [of j h1] by blast
    then show ?thesis using False h1 ij less.prems
      by (subst heap_down.simps, subst down_list.simps)
         (auto simp: Let_def j_def Less_wf pick_child_refines intro: same_objects_trans)
  qed
qed

lemma heap_init_loop_refines:
  assumes "wf_heap h" "n \<le> length (Nodes h)"
  shows "\<exists>h'. heap_init_loop h m n = Some h' \<and> wf_heap h' \<and> same_objects h h' \<and>
           entries h' = init_list entry_less (entries h) m n"
  using assms
proof (induction m arbitrary: h)
  case (Suc m)
  obtain h1 i' where h1: "heap_down h m n = Some (h1, i')" "wf_heap h1" "same_objects h h1"
    "(entries h1, i') = down_list entry_less (entries h) m n"
    using heap_down_refines [OF Suc.prems, of m] by blast
  moreover have "n \<le> length (Nodes h1)" using h1 Suc.prems by (simp add: same_objects_def)
  ultimately obtain h2 where "heap_init_loop h1 m n = Some h2" "wf_heap h2" "same_objects h1 h2"
    "entries h2 = init_list entry_less (entries h1) m n"
    using Suc.IH by blast
  then show ?case using h1 by (auto intro: same_objects_trans simp flip: h1(4))
qed simp

text \<open>The loops leave the slice alone beyond their bound.\<close>

lemma Swap_beyond: "Swap h i j = Some h' \<Longrightarrow> k \<noteq> i \<Longrightarrow> k \<noteq> j \<Longrightarrow> Nodes h' ! k = Nodes h ! k"
  by (auto simp: Swap_def Let_def swap_list_def split: Option.bind_splits)

lemma heap_down_beyond: "heap_down h i n = Some (h', i') \<Longrightarrow> i < n \<Longrightarrow> n \<le> k \<Longrightarrow> Nodes h' ! k = Nodes h ! k"
proof (induction "n - i" arbitrary: h i rule: less_induct)
  case less
  from less.prems(1) show ?case
  proof (cases rule: heap_down_cases)
    case (2 j h1)
    then show ?thesis using less.hyps [of j h1] less.prems Swap_beyond [of h i j h1 k] by simp
  qed simp
qed

lemma heap_up_beyond: "heap_up h j = Some h' \<Longrightarrow> j < k \<Longrightarrow> Nodes h' ! k = Nodes h ! k"
proof (induction j arbitrary: h rule: less_induct)
  case (less j)
  show ?case
  proof (cases "parent j = j \<or> Less h j (parent j) \<noteq> Some True")
    case True
    then show ?thesis using less.prems
      by (auto simp: heap_up.simps [of h j] Let_def split: option.splits if_splits)
  next
    case False
    then obtain h1 where h1: "Swap h (parent j) j = Some h1" "heap_up h1 (parent j) = Some h'"
      using less.prems by (auto simp: heap_up.simps [of h j] Let_def split: option.splits)
    moreover have "parent j < j" using False by (simp add: parent_less parent_eq_iff)
    ultimately show ?thesis using less.IH [of "parent j" h1] less.prems Swap_beyond [of h _ j h1 k] by simp
  qed
qed

section \<open>The operations of \<open>container/heap\<close>\<close>

definition ordered :: "Heap \<Rightarrow> bool" where
  "ordered h \<longleftrightarrow> heap_list entry_less (entries h) (length (Nodes h))"

lemma heap_Init_ok:
  assumes "wf_heap h"
  shows "\<exists>h'. heap_Init h = Some h' \<and> wf_heap h' \<and> same_objects h h' \<and> ordered h'"
  using heap_init_loop_refines [OF assms order_refl, of "length (Nodes h) div 2"]
    entry_order.init_list_heap [OF heap_from_half, of "length (Nodes h)" "entries h"]
  by (auto simp: heap_Init_def ordered_def same_objects_def)

text \<open>\<open>heap.Fix\<close> after a change at position \<open>i\<close>, and the same two sifts inside \<open>heap.Remove\<close>.\<close>

lemma sift_both:
  assumes "wf_heap h" "n \<le> length (Nodes h)" "i < n" "down_pre entry_less (entries h) 0 n i"
  shows "\<exists>h1 i' h2. heap_down h i n = Some (h1, i') \<and>
      (if i < i' then Some h1 else heap_up h1 i) = Some h2 \<and> wf_heap h2 \<and> same_objects h h2 \<and>
      heap_list entry_less (entries h2) n \<and> mset (entries h2) = mset (entries h) \<and>
      (\<forall>k. n \<le> k \<and> k < length (Nodes h) \<longrightarrow> Nodes h2 ! k = Nodes h ! k)"
proof -
  obtain h1 i' where h1: "heap_down h i n = Some (h1, i')" "wf_heap h1" "same_objects h h1"
    "(entries h1, i') = down_list entry_less (entries h) i n"
    using heap_down_refines [OF assms(1,2), of i] by blast
  have l: "i < length (Nodes h1)" using h1 assms by (simp add: same_objects_def)
  obtain h3 where h3: "heap_up h1 i = Some h3" "wf_heap h3" "same_objects h1 h3"
    "entries h3 = up_list entry_less (entries h1) i"
    using heap_up_refines [OF h1(2) l] by blast
  have e1: "fst (down_list entry_less (entries h) i n) = entries h1"
    "snd (down_list entry_less (entries h) i n) = i'" using h1(4) by (metis fst_conv snd_conv)+
  have moved: "i < i' \<longleftrightarrow> i' \<noteq> i"
    using down_list_ge [of i entry_less "entries h" n] by (auto simp: e1)
  have "heap_list entry_less (if i' \<noteq> i then entries h1 else up_list entry_less (entries h1) i) n"
    using entry_order.fix_list_heap [OF assms(4,3)] assms(2) by (cases "i' = i") (simp_all add: e1)
  moreover have "mset (entries h1) = mset (entries h)"
    using mset_down_list [of n "entries h" entry_less i] assms(2) by (simp add: e1)
  moreover have "Nodes h1 ! k = Nodes h ! k" "Nodes h3 ! k = Nodes h ! k" if "n \<le> k" for k
    using that assms(3) heap_down_beyond [OF h1(1)] heap_up_beyond [OF h3(1)] by auto
  ultimately show ?thesis using h1 h3 l
    by (cases "i < i'") (auto simp: moved intro: same_objects_trans)
qed

text \<open>Removing position \<open>i\<close>: swap it with the last one, restore the order below it, drop the last.\<close>

lemma Nodes_Pop_wf:
  assumes "wf_heap h" "Nodes h \<noteq> []" "heap_list entry_less (entries h) (length (Nodes h) - 1)"
  obtains h' where "Nodes_Pop h = Some (last (Nodes h), h')" "wf_heap h'" "ordered h'"
    "Nodes h' = butlast (Nodes h)" "K h' = K h" "byKey h' = byKey h" "length (mem h') = length (mem h)"
    "\<And>r. entry_of (mem h' ! r) = entry_of (mem h ! r)"
proof
  define r where "r = last (Nodes h)"
  define h' where "h' = h\<lparr>Nodes := butlast (Nodes h), mem := set_index (mem h) r (- 1)\<rparr>"
  have r: "r < length (mem h)" using assms(1,2) by (simp add: wf_heap_def r_def)
  show "Nodes_Pop h = Some (last (Nodes h), h')"
    using assms(2) r by (simp add: Nodes_Pop_def Let_def r_def h'_def)
  have ne: "butlast (Nodes h) ! k \<noteq> r" if "k < length (Nodes h) - 1" for k
    using that assms(1,2) by (simp add: wf_heap_def r_def last_conv_nth nth_butlast nth_eq_iff_index_eq)
  show "wf_heap h'" using assms(1) r ne
    by (auto simp: wf_heap_def h'_def index_set_index nth_butlast distinct_butlast dest: in_set_butlastD)
  have "entries h' ! k = entries h ! k" if "k < length (Nodes h) - 1" for k
    using that by (simp add: nth_entries h'_def nth_butlast)
  then show "ordered h'"
    using heap_list_cong [OF assms(3)] by (simp add: ordered_def h'_def)
qed auto

lemma swap_last_down_pre:
  assumes "heap_list entry_less xs (length xs)" "i < n" "n < length xs"
  shows "down_pre entry_less (swap_list xs i n) 0 n i"
proof (rule down_pre_cong)
  show "down_pre entry_less (xs[i := xs ! n]) 0 n i"
    using assms by (intro entry_order.heap_update_down_pre) (auto intro: heap_list_mono)
qed (use assms in \<open>auto simp: swap_list_def nth_list_update\<close>)

text \<open>What removing the node \<open>r\<close> from the slice leaves: the other nodes, in heap order.\<close>

definition removed :: "Heap \<Rightarrow> ref \<Rightarrow> Heap \<Rightarrow> bool" where
  "removed h r h' \<longleftrightarrow> wf_heap h' \<and> ordered h' \<and> set (Nodes h') = set (Nodes h) - {r} \<and>
     K h' = K h \<and> byKey h' = byKey h \<and> length (mem h') = length (mem h) \<and>
     (\<forall>k < length (mem h). entry_of (mem h' ! k) = entry_of (mem h ! k))"

lemma removed_last:
  assumes "wf_heap h2" "same_objects h h2" "Nodes h2 \<noteq> []"
    "heap_list entry_less (entries h2) (length (Nodes h2) - 1)"
  shows "\<exists>h'. Nodes_Pop h2 = Some (last (Nodes h2), h') \<and> removed h (last (Nodes h2)) h'"
proof -
  obtain h' where h': "Nodes_Pop h2 = Some (last (Nodes h2), h')" "wf_heap h'" "ordered h'"
    "Nodes h' = butlast (Nodes h2)" "K h' = K h2" "byKey h' = byKey h2" "length (mem h') = length (mem h2)"
    "\<And>r. entry_of (mem h' ! r) = entry_of (mem h2 ! r)"
    using Nodes_Pop_wf [OF assms(1,3,4)] by metis
  have "distinct (Nodes h2)" using assms(1) by (simp add: wf_heap_def)
  then have "set (butlast (Nodes h2)) = set (Nodes h2) - {last (Nodes h2)}"
    using assms(3) by (metis append_butlast_last_id distinct_append set_append Diff_insert_absorb Un_insert_right
        boolean_algebra_cancel.sup0 disjoint_insert(1) list.simps(15) empty_set)
  then show ?thesis using h' assms(2) by (auto simp: removed_def same_objects_def)
qed

lemma heap_Remove_ok:
  assumes "wf_heap h" "ordered h" "i < length (Nodes h)"
  shows "\<exists>h'. heap_Remove h i = Some (Nodes h ! i, h') \<and> removed h (Nodes h ! i) h'"
proof -
  define n where "n = length (Nodes h) - 1"
  have ne: "Nodes h \<noteq> []" using assms(3) by auto
  have o: "heap_list entry_less (entries h) (length (Nodes h))" using assms(2) by (simp add: ordered_def)
  show ?thesis
  proof (cases "n = i")
    case True
    then have "last (Nodes h) = Nodes h ! i" using ne by (simp add: last_conv_nth n_def)
    then show ?thesis
      using True removed_last [OF assms(1) same_objects_refl ne heap_list_mono [OF o]] ne
      by (simp add: heap_Remove_def n_def)
  next
    case False
    then have i: "i < n" "n < length (Nodes h)" using assms(3) by (auto simp: n_def)
    then obtain h1 where h1: "Swap h i n = Some h1" "wf_heap h1" "same_objects h h1"
      "entries h1 = swap_list (entries h) i n"
      using Swap_wf [OF assms(1,3), of n] by auto
    have len: "length (Nodes h1) = length (Nodes h)" using h1(3) by (simp add: same_objects_def)
    have "down_pre entry_less (entries h1) 0 n i"
      unfolding h1(4) using o i by (intro swap_last_down_pre) auto
    then obtain h2 i' h3 where h2: "heap_down h1 i n = Some (h2, i')"
      "(if i < i' then Some h2 else heap_up h2 i) = Some h3" "wf_heap h3" "same_objects h1 h3"
      "heap_list entry_less (entries h3) n" "\<forall>k. n \<le> k \<and> k < length (Nodes h1) \<longrightarrow> Nodes h3 ! k = Nodes h1 ! k"
      using sift_both [OF h1(2), of n i] i len by auto
    have so: "same_objects h h3" using h1(3) h2(4) by (rule same_objects_trans)
    then have len3: "length (Nodes h3) = length (Nodes h)" by (simp add: same_objects_def)
    have "Nodes h1 ! n = Nodes h ! i"
      using h1(1) i by (auto simp: Swap_def Let_def swap_list_def nth_list_update split: Option.bind_splits)
    then have "Nodes h3 ! n = Nodes h ! i" using h2(6) i len by simp
    moreover have "Nodes h3 \<noteq> []" using len3 ne by auto
    ultimately have "last (Nodes h3) = Nodes h ! i" by (simp add: last_conv_nth len3 n_def)
    then show ?thesis
      using removed_last [OF h2(3) so \<open>Nodes h3 \<noteq> []\<close>] h2 h1 False ne len3
      by (auto simp: heap_Remove_def n_def)
  qed
qed

lemma heap_Pop_ok:
  assumes "wf_heap h" "ordered h" "Nodes h \<noteq> []"
  shows "\<exists>h'. heap_Pop h = Some (Nodes h ! 0, h') \<and> removed h (Nodes h ! 0) h'"
proof -
  define n where "n = length (Nodes h) - 1"
  have n: "0 < length (Nodes h)" "n < length (Nodes h)" using assms(3) by (auto simp: n_def)
  have o: "heap_list entry_less (entries h) (length (Nodes h))" using assms(2) by (simp add: ordered_def)
  obtain h1 where h1: "Swap h 0 n = Some h1" "wf_heap h1" "same_objects h h1"
    "entries h1 = swap_list (entries h) 0 n"
    using Swap_wf [OF assms(1) n] by auto
  have len: "length (Nodes h1) = length (Nodes h)" using h1(3) by (simp add: same_objects_def)
  obtain h2 i' where h2: "heap_down h1 0 n = Some (h2, i')" "wf_heap h2" "same_objects h1 h2"
    "(entries h2, i') = down_list entry_less (entries h1) 0 n"
    using heap_down_refines [OF h1(2), of n 0] n len by auto
  have so: "same_objects h h2" using h1(3) h2(3) by (rule same_objects_trans)
  then have len2: "length (Nodes h2) = length (Nodes h)" by (simp add: same_objects_def)
  have "heap_list entry_less (entries h2) n"
  proof (cases "n = 0")
    case False
    then have "down_pre entry_less (entries h1) 0 n 0"
      unfolding h1(4) using o n by (intro swap_last_down_pre) auto
    then have "heap_from entry_less (fst (down_list entry_less (entries h1) 0 n)) 0 n"
      using n len by (intro entry_order.down_list_heap) auto
    then show ?thesis using h2(4) by (metis fst_conv heap_from_0)
  qed simp
  moreover have "last (Nodes h2) = Nodes h ! 0"
  proof -
    have "Nodes h1 ! n = Nodes h ! 0"
      using h1(1) n by (auto simp: Swap_def Let_def swap_list_def nth_list_update split: Option.bind_splits)
    moreover have "Nodes h2 ! n = Nodes h1 ! n"
      using heap_down_beyond [OF h2(1)] h2(1) by (cases "n = 0") (auto simp: heap_down.simps [of h1 0 0])
    ultimately show ?thesis using n len2 by (subst last_conv_nth) (auto simp: n_def)
  qed
  moreover have "Nodes h2 \<noteq> []" using len2 assms(3) by auto
  ultimately show ?thesis
    using removed_last [OF h2(2) so] h1 h2 assms(3) len2 by (auto simp: heap_Pop_def n_def)
qed

section \<open>The invariant and the hot set\<close>

definition index_ok :: "Heap \<Rightarrow> bool" where
  "index_ok h \<longleftrightarrow> (\<forall>k r. byKey h k = Some r \<longleftrightarrow> r \<in> set (Nodes h) \<and> Key (mem h ! r) = k)"

definition heap_inv :: "Heap \<Rightarrow> bool" where
  "heap_inv h \<longleftrightarrow> wf_heap h \<and> ordered h \<and> index_ok h \<and> length (Nodes h) \<le> unat (K h)"

definition hot :: "Heap \<Rightarrow> string \<rightharpoonup> u32" where
  "hot h k = map_option (\<lambda>r. Count (mem h ! r)) (byKey h k)"

lemma entry_of_eqD: "entry_of a = entry_of b \<Longrightarrow> Key a = Key b \<and> Count a = Count b"
  by (simp add: entry_of_def)

lemma index_ok_refs: "index_ok h \<Longrightarrow> wf_heap h \<Longrightarrow> byKey h k = Some r \<Longrightarrow> r < length (mem h)"
  by (auto simp: index_ok_def wf_heap_def)

lemma index_okD:
  assumes "index_ok h" "byKey h k = Some r" shows "r \<in> set (Nodes h)" "Key (mem h ! r) = k"
  using assms by (auto simp: index_ok_def)

lemma index_okI2: "index_ok h \<Longrightarrow> r \<in> set (Nodes h) \<Longrightarrow> byKey h (Key (mem h ! r)) = Some r"
  by (simp add: index_ok_def)

lemma index_okI:
  "(\<And>k r. byKey h k = Some r \<Longrightarrow> r \<in> set (Nodes h) \<and> Key (mem h ! r) = k) \<Longrightarrow>
   (\<And>r. r \<in> set (Nodes h) \<Longrightarrow> byKey h (Key (mem h ! r)) = Some r) \<Longrightarrow> index_ok h"
  unfolding index_ok_def by blast

lemma hot_iff: assumes "index_ok h" shows "hot h k = Some c \<longleftrightarrow> (k, c) \<in> set (entries h)"
proof
  assume "hot h k = Some c"
  then obtain r where "byKey h k = Some r" "c = Count (mem h ! r)" by (auto simp: hot_def)
  then show "(k, c) \<in> set (entries h)"
    using index_okD [OF assms] by (force simp: entries_def entry_of_def)
next
  assume "(k, c) \<in> set (entries h)"
  then obtain r where "r \<in> set (Nodes h)" "k = Key (mem h ! r)" "c = Count (mem h ! r)"
    by (auto simp: entries_def entry_of_def)
  then show "hot h k = Some c" using index_okI2 [OF assms] by (simp add: hot_def)
qed

lemma map_graph_eq: "(\<And>k c. m k = Some c \<longleftrightarrow> m' k = Some c) \<Longrightarrow> m = m'"
  by (intro ext) (metis not_Some_eq)

lemma same_objects_entries:
  assumes "same_objects h h'" "wf_heap h" shows "set (entries h') = set (entries h)"
  using assms by (auto simp: entries_def same_objects_def wf_heap_def image_iff)

lemma same_objects_inv:
  assumes "same_objects h h'" "wf_heap h" "wf_heap h'" "index_ok h"
  shows "index_ok h'" "hot h' = hot h"
proof -
  have "Key (mem h' ! r) = Key (mem h ! r)" if "r \<in> set (Nodes h)" for r
    using assms(1,2) that by (intro entry_of_eqD [THEN conjunct1]) (auto simp: same_objects_def wf_heap_def)
  then show ix: "index_ok h'" using assms(1,4) by (auto simp: index_ok_def same_objects_def)
  show "hot h' = hot h"
    by (rule map_graph_eq) (simp add: hot_iff [OF ix] hot_iff [OF assms(4)] same_objects_entries [OF assms(1,2)])
qed

lemma hot_graph: "heap_inv h \<Longrightarrow> hot h k = Some c \<longleftrightarrow> (k, c) \<in> set (entries h)"
  by (simp add: heap_inv_def hot_iff)

lemma distinct_keys: assumes "heap_inv h" shows "distinct (map fst (entries h))"
proof -
  have "inj_on (\<lambda>r. Key (mem h ! r)) (set (Nodes h))"
    using assms by (auto simp: heap_inv_def index_ok_def intro!: inj_onI) (metis option.inject)
  then show ?thesis using assms
    by (simp add: entries_def comp_def entry_of_def distinct_map heap_inv_def wf_heap_def)
qed

lemma hot_map_of: "heap_inv h \<Longrightarrow> hot h = map_of (entries h)"
  using hot_graph distinct_keys by (intro ext) (metis map_of_eq_Some_iff not_Some_eq)

lemma dom_hot: "dom (hot h) = dom (byKey h)"
  by (auto simp: hot_def)

lemma card_dom_hot: "heap_inv h \<Longrightarrow> card (dom (hot h)) = length (Nodes h)"
  using distinct_keys [of h] distinct_card [of "map fst (entries h)"]
  by (simp add: hot_map_of dom_map_of_conv_image_fst)

lemma heap_inv_NewHeap: "heap_inv (NewHeap k)" "hot (NewHeap k) = Map.empty"
  by (auto simp: heap_inv_def NewHeap_def wf_heap_def ordered_def index_ok_def hot_def)

section \<open>The operations of \<open>minheap.Heap\<close>\<close>

lemma Fix_ok:
  assumes inv: "heap_inv h" and r: "byKey h key = Some r"
  shows "\<exists>h'. Fix h (index (mem h ! r)) cnt = Some h' \<and> heap_inv h' \<and> K h' = K h \<and>
           byKey h' = byKey h \<and> hot h' = (hot h)(key \<mapsto> cnt)"
proof -
  have wf: "wf_heap h" and ord: "ordered h" and ix: "index_ok h" using inv by (auto simp: heap_inv_def)
  obtain i where i: "i < length (Nodes h)" "Nodes h ! i = r"
    using ix r by (metis index_ok_def in_set_conv_nth)
  then have idx: "index (mem h ! r) = int i" and rl: "r < length (mem h)"
    using wf by (auto simp: wf_heap_def)
  define h1 where "h1 = h\<lparr>mem := (mem h)[r := (mem h ! r)\<lparr>Count := cnt\<rparr>]\<rparr>"
  have wf1: "wf_heap h1" using wf rl by (auto simp: wf_heap_def h1_def nth_list_update)
  have ix1: "index_ok h1" using ix rl by (auto simp: index_ok_def h1_def nth_list_update)
  have "entries h1 ! k = (entries h)[i := (key, cnt)] ! k" if "k < length (Nodes h)" for k
  proof -
    have "Nodes h ! k = r \<longleftrightarrow> k = i" using wf i that by (auto simp: wf_heap_def nth_eq_iff_index_eq)
    moreover have "Key (mem h ! r) = key" using ix r by (simp add: index_ok_def)
    ultimately show ?thesis using that i rl
      by (auto simp: nth_entries h1_def entry_of_def nth_list_update)
  qed
  then have "entries h1 = (entries h)[i := (key, cnt)]"
    by (intro nth_equalityI) (auto simp: h1_def)
  then have "down_pre entry_less (entries h1) 0 (length (Nodes h1)) i"
    using ord i entry_order.heap_update_down_pre [of "entries h" "length (Nodes h)" i]
    by (simp add: ordered_def h1_def)
  then obtain h2 i' h3 where h3: "heap_down h1 i (length (Nodes h1)) = Some (h2, i')"
    "(if i < i' then Some h2 else heap_up h2 i) = Some h3" "wf_heap h3" "same_objects h1 h3"
    "heap_list entry_less (entries h3) (length (Nodes h1))"
    using sift_both [OF wf1 order_refl, of i] i by (auto simp: h1_def)
  then have eq: "Fix h (index (mem h ! r)) cnt = Some h3"
    using node_at_wf [OF wf i(1)] idx i(2) by (simp add: Fix_def heap_Fix_def h1_def)
  have "hot h1 = (hot h)(key \<mapsto> cnt)"
  proof
    fix k
    have "byKey h k = Some r \<longleftrightarrow> k = key" using index_okD(2) [OF ix] r by metis
    then show "hot h1 k = ((hot h)(key \<mapsto> cnt)) k"
      using r rl by (cases "byKey h k") (auto simp: hot_def h1_def nth_list_update)
  qed
  then show ?thesis
    using eq h3 same_objects_inv [OF h3(4) wf1 h3(3) ix1] inv
    by (auto simp: heap_inv_def ordered_def same_objects_def h1_def)
qed

text \<open>\<open>fresh_node h r e\<close>: a node outside the heap that holds the entry \<open>e\<close>.\<close>

definition fresh_node :: "Heap \<Rightarrow> ref \<Rightarrow> entry \<Rightarrow> bool" where
  "fresh_node h r e \<longleftrightarrow> r < length (mem h) \<and> r \<notin> set (Nodes h) \<and> entry_of (mem h ! r) = e"

lemma heap_Push_ok:
  assumes wf: "wf_heap h" and ord: "ordered h" and fresh: "fresh_node h r e"
  shows "\<exists>h'. heap_Push h r = Some h' \<and> wf_heap h' \<and> ordered h' \<and>
           set (Nodes h') = insert r (set (Nodes h)) \<and> length (Nodes h') = Suc (length (Nodes h)) \<and>
           K h' = K h \<and> byKey h' = byKey h \<and> length (mem h') = length (mem h) \<and>
           (\<forall>k < length (mem h). entry_of (mem h' ! k) = entry_of (mem h ! k))"
proof -
  define h1 where "h1 = h\<lparr>Nodes := Nodes h @ [r], mem := set_index (mem h) r (int (length (Nodes h)))\<rparr>"
  have rl: "r < length (mem h)" "r \<notin> set (Nodes h)" using fresh by (auto simp: fresh_node_def)
  have push: "Nodes_Push h r = Some h1" using rl by (simp add: Nodes_Push_def h1_def)
  have wf1: "wf_heap h1"
    using wf rl by (auto simp: wf_heap_def h1_def index_set_index nth_append less_Suc_eq)
  have "entries h1 = entries h @ [entry_of (mem h ! r)]" by (simp add: entries_def h1_def)
  then have pre: "up_pre entry_less (entries h1) (length (Nodes h1)) (length (Nodes h))"
    using ord entry_order.heap_append_up_pre [of "entries h"] by (simp add: ordered_def h1_def)
  obtain h2 where h2: "heap_up h1 (length (Nodes h)) = Some h2" "wf_heap h2" "same_objects h1 h2"
    "entries h2 = up_list entry_less (entries h1) (length (Nodes h))"
    using heap_up_refines [OF wf1, of "length (Nodes h)"] by (auto simp: h1_def)
  have "heap_list entry_less (entries h2) (length (Nodes h1))"
    unfolding h2(4) using pre by (intro entry_order.up_list_heap) (auto simp: h1_def)
  then show ?thesis using push h2
    by (auto simp: heap_Push_def ordered_def same_objects_def h1_def)
qed

lemma candidate_node_ok:
  assumes "heap_inv h" "\<And>r. candidate = Some r \<Longrightarrow> fresh_node h r (key, cnt)"
    "candidate_node h key cnt candidate = (r, h1)"
  shows "heap_inv h1" "hot h1 = hot h" "K h1 = K h" "Nodes h1 = Nodes h" "byKey h1 = byKey h"
    "fresh_node h1 r (key, cnt)" "\<forall>q < length (mem h). q < length (mem h1) \<and> mem h1 ! q = mem h ! q"
proof -
  have "heap_inv h1 \<and> hot h1 = hot h \<and> K h1 = K h \<and> Nodes h1 = Nodes h \<and> byKey h1 = byKey h \<and>
      fresh_node h1 r (key, cnt) \<and> (\<forall>q < length (mem h). q < length (mem h1) \<and> mem h1 ! q = mem h ! q)"
  proof (cases candidate)
  case None
  define nd where "nd = \<lparr>Key = key, Count = cnt, index = 0\<rparr>"
  have h1: "h1 = h\<lparr>mem := mem h @ [nd]\<rparr>" "r = length (mem h)"
    using assms(3) None by (auto simp: candidate_node_def nd_def)
  have old: "mem h1 ! q = mem h ! q" if "q \<in> set (Nodes h)" for q
    using assms(1) that by (auto simp: h1 nth_append heap_inv_def wf_heap_def)
  then have "entries h1 = entries h" by (simp add: entries_def h1)
  moreover have "wf_heap h1" using assms(1) old by (auto simp: heap_inv_def wf_heap_def h1 less_Suc_eq)
  moreover have ix: "index_ok h1" using assms(1) old by (auto simp: heap_inv_def index_ok_def h1)
  moreover have "hot h1 = hot h"
    by (rule map_graph_eq) (use hot_iff [OF ix] hot_graph [OF assms(1)] \<open>entries h1 = entries h\<close> in simp)
  moreover have "fresh_node h1 r (key, cnt)"
    using assms(1) by (auto simp: fresh_node_def h1 nd_def entry_of_def heap_inv_def wf_heap_def)
  ultimately show ?thesis
    using assms(1) by (auto simp: heap_inv_def ordered_def h1 nth_append)
  qed (use assms in \<open>auto simp: candidate_node_def\<close>)
  then show "heap_inv h1" "hot h1 = hot h" "K h1 = K h" "Nodes h1 = Nodes h" "byKey h1 = byKey h"
    "fresh_node h1 r (key, cnt)" "\<forall>q < length (mem h). q < length (mem h1) \<and> mem h1 ! q = mem h ! q"
    by auto
qed

lemma push_candidate_ok:
  assumes inv: "heap_inv h" and new: "byKey h key = None" and room: "length (Nodes h) < unat (K h)"
    and cand: "\<And>r. candidate = Some r \<Longrightarrow> fresh_node h r (key, cnt)"
  shows "\<exists>h'. push_candidate h key cnt candidate = Some h' \<and> heap_inv h' \<and> K h' = K h \<and>
           hot h' = (hot h)(key \<mapsto> cnt) \<and> (\<forall>q < length (mem h). entry_of (mem h' ! q) = entry_of (mem h ! q))"
proof -
  obtain r h1 where c: "candidate_node h key cnt candidate = (r, h1)" by fastforce
  note c1 = candidate_node_ok [OF inv cand c]
  have wf1: "wf_heap h1" "ordered h1" "index_ok h1" using c1(1) by (auto simp: heap_inv_def)
  obtain h2 where h2: "heap_Push h1 r = Some h2" "wf_heap h2" "ordered h2"
    "set (Nodes h2) = insert r (set (Nodes h1))" "length (Nodes h2) = Suc (length (Nodes h1))"
    "K h2 = K h1" "byKey h2 = byKey h1" "length (mem h2) = length (mem h1)"
    "\<forall>k < length (mem h1). entry_of (mem h2 ! k) = entry_of (mem h1 ! k)"
    using heap_Push_ok [OF wf1(1,2) c1(6)] by blast
  define h3 where "h3 = h2\<lparr>byKey := (byKey h2)(key \<mapsto> r)\<rparr>"
  have r: "r < length (mem h1)" "r \<notin> set (Nodes h1)" "entry_of (mem h2 ! r) = (key, cnt)"
    using c1(6) h2(9) by (auto simp: fresh_node_def)
  have old: "entry_of (mem h2 ! q) = entry_of (mem h1 ! q)" if "q \<in> set (Nodes h1)" for q
    using h2(9) wf1(1) that by (auto simp: wf_heap_def)
  have same: "Nodes h3 = Nodes h2" "mem h3 = mem h2" "K h3 = K h2" by (simp_all add: h3_def)
  have keys: "Key (mem h2 ! q) = Key (mem h1 ! q)" if "q \<in> set (Nodes h1)" for q
    using old [OF that] by (simp add: entry_of_def)
  have kr: "Key (mem h2 ! r) = key" using r(3) by (simp add: entry_of_def)
  have ix: "index_ok h3"
  proof (rule index_okI)
    fix k q assume "byKey h3 k = Some q"
    then show "q \<in> set (Nodes h3) \<and> Key (mem h3 ! q) = k"
      using index_okD [OF wf1(3), of k q] h2(4,7) kr keys [of q]
      by (cases "k = key") (simp_all add: h3_def)
  next
    fix q assume q: "q \<in> set (Nodes h3)"
    show "byKey h3 (Key (mem h3 ! q)) = Some q"
    proof (cases "q = r")
      case False
      with q have "byKey h1 (Key (mem h1 ! q)) = Some q" "q \<in> set (Nodes h1)"
        using index_okI2 [OF wf1(3)] h2(4) by (auto simp: same)
      moreover have "Key (mem h1 ! q) \<noteq> key" using calculation new c1(5) by auto
      ultimately show ?thesis using keys h2(7) by (simp add: h3_def)
    qed (simp add: h3_def kr)
  qed
  have "hot h3 k = ((hot h1)(key \<mapsto> cnt)) k" for k
  proof (cases "k = key")
    case True
    then show ?thesis using r(3) by (simp add: hot_def h3_def entry_of_def)
  next
    case False
    then show ?thesis using old index_okD [OF wf1(3)] h2(7)
      by (cases "byKey h1 k") (auto simp: hot_def h3_def entry_of_def)
  qed
  then have "hot h3 = (hot h)(key \<mapsto> cnt)" using c1(2) by auto
  moreover have "heap_inv h3"
    using h2 ix room c1 by (auto simp: heap_inv_def same wf_heap_def ordered_def entries_def)
  moreover have "push_candidate h key cnt candidate = Some h3"
    using c h2(1) by (simp add: push_candidate_def h3_def)
  moreover have "\<forall>q < length (mem h). entry_of (mem h3 ! q) = entry_of (mem h ! q)"
    using c1(7) h2(9) by (auto simp: same)
  ultimately show ?thesis using h2(6) c1(3) same by auto
qed

text \<open>Taking a node out of the slice and its key out of the index.\<close>

lemma removed_inv:
  assumes inv: "heap_inv h" and key: "byKey h key = Some r" and rem: "removed h r h'"
    and h'': "h'' = h'\<lparr>byKey := (byKey h')(key := None)\<rparr>"
  shows "heap_inv h''" "hot h'' = (hot h)(key := None)" "K h'' = K h"
proof -
  have wf: "wf_heap h" and ix: "index_ok h" using inv by (auto simp: heap_inv_def)
  have ent: "entry_of (mem h' ! q) = entry_of (mem h ! q)" if "q \<in> set (Nodes h)" for q
    using rem wf that by (auto simp: removed_def wf_heap_def)
  have one: "byKey h k = Some r \<longleftrightarrow> k = key" for k using key index_okD(2) [OF ix] by metis
  have keys: "Key (mem h' ! q) = Key (mem h ! q)" if "q \<in> set (Nodes h)" for q
    using ent [OF that] by (simp add: entry_of_def)
  have nodes: "set (Nodes h') = set (Nodes h) - {r}" "byKey h' = byKey h" using rem by (auto simp: removed_def)
  have ix'': "index_ok h''"
  proof (rule index_okI)
    fix k q assume "byKey h'' k = Some q"
    then have k: "k \<noteq> key" "byKey h k = Some q" by (auto simp: h'' nodes split: if_splits)
    then have "q \<noteq> r" using one by auto
    then show "q \<in> set (Nodes h'') \<and> Key (mem h'' ! q) = k"
      using index_okD [OF ix k(2)] keys [of q] by (simp add: h'' nodes)
  next
    fix q assume "q \<in> set (Nodes h'')"
    then have q: "q \<in> set (Nodes h)" "q \<noteq> r" by (auto simp: h'' nodes)
    then have "byKey h (Key (mem h ! q)) = Some q" by (intro index_okI2 [OF ix])
    moreover have "Key (mem h ! q) \<noteq> key" using calculation key q(2) by auto
    ultimately show "byKey h'' (Key (mem h'' ! q)) = Some q" using keys q by (simp add: h'' nodes)
  qed
  have "card (set (Nodes h')) \<le> card (set (Nodes h))"
    using rem by (intro card_mono) (auto simp: removed_def)
  then have "length (Nodes h') \<le> length (Nodes h)"
    using rem wf distinct_card [of "Nodes h'"] distinct_card [of "Nodes h"]
    by (simp add: removed_def wf_heap_def)
  then show "heap_inv h''"
    using rem ix'' inv by (auto simp: heap_inv_def removed_def h'' wf_heap_def ordered_def entries_def)
  show "K h'' = K h" using rem by (simp add: h'' removed_def)
  show "hot h'' = (hot h)(key := None)"
  proof
    fix k
    show "hot h'' k = ((hot h)(key := None)) k"
      using rem ent index_okD(1) [OF ix, of k]
      by (cases "byKey h k") (auto simp: hot_def h'' removed_def entry_of_def)
  qed
qed

lemma Remove_ok:
  assumes "heap_inv h"
  shows "\<exists>h'. Remove h key = Some (key \<in> dom (hot h), h') \<and> heap_inv h' \<and> K h' = K h \<and>
           hot h' = (hot h)(key := None)"
proof (cases "byKey h key")
  case None
  then have "hot h key = None" by (simp add: hot_def)
  then show ?thesis using None assms by (auto simp: Remove_def fun_upd_idem_iff)
next
  case (Some r)
  have wf: "wf_heap h" "ordered h" "index_ok h" using assms by (auto simp: heap_inv_def)
  obtain i where i: "i < length (Nodes h)" "Nodes h ! i = r"
    using index_okD(1) [OF wf(3) Some] by (metis in_set_conv_nth)
  then have r: "index (mem h ! r) = int i" "r < length (mem h)" using wf(1) by (auto simp: wf_heap_def)
  obtain h1 where h1: "heap_Remove h i = Some (r, h1)" "removed h r h1"
    using heap_Remove_ok [OF wf(1,2) i(1)] i(2) by auto
  then show ?thesis
    using removed_inv [OF assms Some h1(2) refl] Some r
    by (auto simp: Remove_def hot_def)
qed

definition least_entry :: "(string \<rightharpoonup> u32) \<Rightarrow> entry \<Rightarrow> bool" where
  "least_entry m e \<longleftrightarrow> m (fst e) = Some (snd e) \<and> (\<forall>k c. m k = Some c \<longrightarrow> \<not> entry_less (k, c) e)"

lemma root_least: assumes "heap_inv h" "Nodes h \<noteq> []" shows "least_entry (hot h) (entries h ! 0)"
proof -
  have "entries h ! 0 \<in> set (entries h)" using assms(2) by (intro nth_mem) simp
  moreover have "\<not> entry_less e (entries h ! 0)" if "e \<in> set (entries h)" for e
    using assms(1) that entry_order.heap_root_least [of "entries h" "length (Nodes h)"]
    by (auto simp: heap_inv_def ordered_def in_set_conv_nth)
  ultimately show ?thesis by (auto simp: least_entry_def hot_graph [OF assms(1)])
qed

lemma Pop_ok:
  assumes "heap_inv h" "Nodes h \<noteq> []"
  shows "\<exists>r h' k c. Pop h = Some (r, h') \<and> heap_inv h' \<and> K h' = K h \<and> entries h ! 0 = (k, c) \<and>
           entry_of (mem h' ! r) = (k, c) \<and> hot h' = (hot h)(k := None) \<and> r \<notin> set (Nodes h') \<and>
           r < length (mem h') \<and> length (Nodes h') < length (Nodes h) \<and>
           (\<forall>q e. fresh_node h q e \<longrightarrow> fresh_node h' q e)"
proof -
  have wf: "wf_heap h" "ordered h" "index_ok h" using assms(1) by (auto simp: heap_inv_def)
  define r where "r = Nodes h ! 0"
  obtain h1 where h1: "heap_Pop h = Some (r, h1)" "removed h r h1"
    using heap_Pop_ok [OF wf(1,2) assms(2)] by (auto simp: r_def)
  have r: "r \<in> set (Nodes h)" "r < length (mem h)" using assms(2) wf(1) by (auto simp: r_def wf_heap_def)
  have e: "entry_of (mem h1 ! r) = entry_of (mem h ! r)" using h1(2) r by (simp add: removed_def)
  then have k: "Key (mem h1 ! r) = Key (mem h ! r)" by (simp add: entry_of_def)
  define h2 where "h2 = h1\<lparr>byKey := (byKey h1)(Key (mem h ! r) := None)\<rparr>"
  have "Pop h = Some (r, h2)" using h1(1) k by (simp add: Pop_def h2_def)
  moreover have "entries h ! 0 = (Key (mem h ! r), Count (mem h ! r))"
    using assms(2) by (simp add: nth_entries r_def entry_of_def)
  ultimately show ?thesis
    using removed_inv [OF assms(1) index_okI2 [OF wf(3) r(1)] h1(2) h2_def] e r h1(2) Pop_length [of h r h2]
    by (auto simp: h2_def removed_def entry_of_def fresh_node_def)
qed

text \<open>What \<open>Upsert\<close> and \<open>Add\<close> promise of the hot set: an existing key gets the new count, a new one is
  taken when there is room, and otherwise replaces the least entry when its count is greater.\<close>

definition upsert_spec ::
  "u32 \<Rightarrow> (string \<rightharpoonup> u32) \<Rightarrow> string \<Rightarrow> u32 \<Rightarrow> entry option \<Rightarrow> (string \<rightharpoonup> u32) \<Rightarrow> bool" where
  "upsert_spec cap m key cnt out m' \<longleftrightarrow>
     (if key \<in> dom m then m' = m(key \<mapsto> cnt) \<and> out = None
      else if cap = 0 then m' = m \<and> out = Some (key, cnt)
      else if card (dom m) < unat cap then m' = m(key \<mapsto> cnt) \<and> out = None
      else \<exists>k c. least_entry m (k, c) \<and>
             (if c < cnt then m' = m(k := None, key \<mapsto> cnt) \<and> out = Some (k, c) else m' = m \<and> out = None))"

lemma upsert_ok:
  assumes inv: "heap_inv h" and cand: "\<And>r. candidate = Some r \<Longrightarrow> fresh_node h r (key, cnt)"
  shows "\<exists>out h'. upsert h key cnt candidate = Some (out, h') \<and> heap_inv h' \<and> K h' = K h \<and>
           upsert_spec (K h) (hot h) key cnt (map_option (\<lambda>r. entry_of (mem h' ! r)) out) (hot h')"
proof (cases "byKey h key")
  case (Some r)
  have "r < length (mem h)" using inv Some by (auto simp: heap_inv_def intro: index_ok_refs)
  moreover have "key \<in> dom (hot h)" using Some by (simp add: dom_hot domI)
  ultimately show ?thesis using Some Fix_ok [OF inv Some, of cnt]
    by (auto simp: upsert_def upsert_spec_def)
next
  case None
  then have out: "key \<notin> dom (hot h)" by (auto simp: dom_hot)
  have len: "length (Nodes h) \<le> unat (K h)" using inv by (simp add: heap_inv_def)
  then have w: "(word_of_nat (length (Nodes h)) :: u32) < K h \<longleftrightarrow> length (Nodes h) < unat (K h)"
    using unsigned_less [of "K h", where ?'a = nat] by (simp add: word_less_nat_alt unsigned_of_nat take_bit_nat_eq_self)
  consider "K h = 0" | "K h \<noteq> 0" "length (Nodes h) < unat (K h)" | "K h \<noteq> 0" "length (Nodes h) = unat (K h)"
    using len by fastforce
  then show ?thesis
  proof cases
    case 1
    obtain r h1 where c: "candidate_node h key cnt candidate = (r, h1)" by fastforce
    from candidate_node_ok [OF inv cand c] show ?thesis using 1 None out c
      by (auto simp: upsert_def upsert_spec_def fresh_node_def)
  next
    case 2
    with push_candidate_ok [OF inv None _ cand, of candidate] show ?thesis using None out w
      by (auto simp: upsert_def upsert_spec_def card_dom_hot [OF inv])
  next
    case 3
    then have ne: "Nodes h \<noteq> []" by (auto simp: unat_eq_0)
    obtain r h1 k c where p: "Pop h = Some (r, h1)" "heap_inv h1" "K h1 = K h" "entries h ! 0 = (k, c)"
      "entry_of (mem h1 ! r) = (k, c)" "hot h1 = (hot h)(k := None)" "length (Nodes h1) < length (Nodes h)"
      "r < length (mem h1)" "\<forall>q e. fresh_node h q e \<longrightarrow> fresh_node h1 q e"
      using Pop_ok [OF inv ne] by blast
    have least: "least_entry (hot h) (k, c)" using root_least [OF inv ne] p(4) by simp
    have nd: "node_at h 0 = Some (mem h ! (Nodes h ! 0))" "Count (mem h ! (Nodes h ! 0)) = c"
      using inv ne p(4) by (auto simp: heap_inv_def node_at_wf nth_entries entry_of_def)
    have new: "byKey h1 key = None"
      using out p(6) dom_hot [of h1] by (metis domIff fun_upd_apply)
    obtain h2 where h2: "push_candidate h1 key cnt candidate = Some h2" "heap_inv h2" "K h2 = K h1"
      "hot h2 = (hot h1)(key \<mapsto> cnt)" "entry_of (mem h2 ! r) = (k, c)"
      using push_candidate_ok [OF p(2) new, of candidate cnt] p(3,5,7,8,9) 3 cand by auto
    have "upsert_spec (K h) (hot h) key cnt (if c < cnt then Some (k, c) else None)
        (if c < cnt then hot h2 else hot h)"
      using least out 3 h2(4) p(6) by (auto simp: upsert_spec_def card_dom_hot [OF inv] intro!: exI [of _ k] exI [of _ c])
    then show ?thesis using nd p(1,3) h2 None w 3 inv by (auto simp: upsert_def)
  qed
qed

lemma Upsert_ok:
  "heap_inv h \<Longrightarrow> \<exists>out h'. Upsert h key cnt = Some (out, h') \<and> heap_inv h' \<and> K h' = K h \<and>
     upsert_spec (K h) (hot h) key cnt (map_option (\<lambda>r. entry_of (mem h' ! r)) out) (hot h')"
  using upsert_ok [of h None key cnt] by (simp add: Upsert_def)

lemma Add_ok:
  assumes "heap_inv h" "fresh_node h r (key, cnt)"
  shows "\<exists>out h'. Add h r = Some (out, h') \<and> heap_inv h' \<and> K h' = K h \<and>
     upsert_spec (K h) (hot h) key cnt (map_option (\<lambda>r. entry_of (mem h' ! r)) out) (hot h')"
  using upsert_ok [OF assms(1), of "Some r" key cnt] assms(2)
  by (auto simp: Add_def fresh_node_def entry_of_def)

lemma halve_counts_ok:
  assumes "distinct rs" "\<forall>r \<in> set rs. r < length m"
  shows "\<exists>m'. halve_counts m rs = Some m' \<and> length m' = length m \<and>
     (\<forall>q < length m. m' ! q = (if q \<in> set rs then (m ! q)\<lparr>Count := drop_bit 1 (Count (m ! q))\<rparr> else m ! q))"
  using assms
proof (induction rs arbitrary: m)
  case (Cons r rs)
  then show ?case
    using Cons.IH [of "m[r := (m ! r)\<lparr>Count := drop_bit 1 (Count (m ! r))\<rparr>]"]
    by (auto simp: nth_list_update)
qed simp

definition drop_zero_counts :: "(string \<rightharpoonup> u32) \<Rightarrow> string \<rightharpoonup> u32" where
  "drop_zero_counts m k = (case m k of None \<Rightarrow> None | Some c \<Rightarrow> if c = 0 then None else Some c)"

lemma drop_zeros_ok:
  assumes "heap_inv h"
  shows "\<exists>h'. drop_zeros h = Some h' \<and> heap_inv h' \<and> K h' = K h \<and> hot h' = drop_zero_counts (hot h)"
  using assms
proof (induction "length (Nodes h)" arbitrary: h rule: less_induct)
  case less
  show ?case
  proof (cases "Nodes h = []")
    case True
    then have "hot h = Map.empty" using hot_graph [OF less.prems] by (auto simp: entries_def map_graph_eq)
    then show ?thesis using True less.prems
      by (auto simp: drop_zeros.simps [of h] drop_zero_counts_def)
  next
    case False
    obtain r h1 k c where p: "Pop h = Some (r, h1)" "heap_inv h1" "K h1 = K h" "entries h ! 0 = (k, c)"
      "hot h1 = (hot h)(k := None)" "length (Nodes h1) < length (Nodes h)"
      using Pop_ok [OF less.prems False] by blast
    have least: "least_entry (hot h) (k, c)" using root_least [OF less.prems False] p(4) by simp
    have nd: "node_at h 0 = Some (mem h ! (Nodes h ! 0))" "Count (mem h ! (Nodes h ! 0)) = c"
      using less.prems False p(4) by (auto simp: heap_inv_def node_at_wf nth_entries entry_of_def)
    show ?thesis
    proof (cases "c = 0")
      case True
      obtain h2 where "drop_zeros h1 = Some h2" "heap_inv h2" "K h2 = K h1" "hot h2 = drop_zero_counts (hot h1)"
        using less.hyps [OF p(6,2)] by blast
      moreover have "drop_zero_counts (hot h1) = drop_zero_counts (hot h)"
        using least True p(5) by (auto simp: drop_zero_counts_def least_entry_def)
      ultimately show ?thesis using False nd p(1,3) True by (simp add: drop_zeros.simps [of h])
    next
      case c: False
      have "0 < c" using c by (simp add: word_gt_0)
      then have "d \<noteq> 0" if "hot h k' = Some d" for k' d
        using least that by (auto simp: least_entry_def entry_less_def)
      then have "drop_zero_counts (hot h) = hot h"
        by (auto simp: drop_zero_counts_def split: option.splits)
      then show ?thesis using False nd c less.prems by (simp add: drop_zeros.simps [of h])
    qed
  qed
qed

lemma ScaleDown_ok:
  assumes "heap_inv h"
  shows "\<exists>h'. ScaleDown h = Some h' \<and> heap_inv h' \<and> K h' = K h \<and>
           hot h' = drop_zero_counts (map_option (drop_bit 1) \<circ> hot h)"
proof -
  have wf: "wf_heap h" and ix: "index_ok h" using assms by (auto simp: heap_inv_def)
  obtain m where m: "halve_counts (mem h) (Nodes h) = Some m" "length m = length (mem h)"
    "\<forall>q < length (mem h). m ! q = (if q \<in> set (Nodes h) then (mem h ! q)\<lparr>Count := drop_bit 1 (Count (mem h ! q))\<rparr>
       else mem h ! q)"
    using halve_counts_ok [of "Nodes h" "mem h"] wf by (auto simp: wf_heap_def)
  define h1 where "h1 = h\<lparr>mem := m\<rparr>"
  have cell: "mem h1 ! q = (mem h ! q)\<lparr>Count := drop_bit 1 (Count (mem h ! q))\<rparr>" if "q \<in> set (Nodes h)" for q
    using that wf m by (auto simp: h1_def wf_heap_def)
  have wf1: "wf_heap h1" using wf cell m(2) by (auto simp: wf_heap_def h1_def)
  have ix1: "index_ok h1" using ix cell by (auto simp: index_ok_def h1_def)
  obtain h2 where h2: "heap_Init h1 = Some h2" "wf_heap h2" "same_objects h1 h2" "ordered h2"
    using heap_Init_ok [OF wf1] by blast
  have inv2: "heap_inv h2" "hot h2 = hot h1" "K h2 = K h"
    using same_objects_inv [OF h2(3) wf1 h2(2) ix1] h2 assms
    by (auto simp: heap_inv_def same_objects_def h1_def)
  have "hot h1 k = (map_option (drop_bit 1) \<circ> hot h) k" for k
    using cell index_okD(1) [OF ix, of k] by (cases "byKey h k") (auto simp: hot_def h1_def)
  then have "hot h1 = map_option (drop_bit 1) \<circ> hot h" by auto
  then show ?thesis using drop_zeros_ok [OF inv2(1)] inv2 h2(1) m(1)
    by (auto simp: ScaleDown_def h1_def)
qed

interpretation node_desc: strict_weak "\<lambda>a b. node_less b a"
  by unfold_locales (auto simp: node_less_def)

lemma sorted_distinct_strict:
  "sorted_wrt (\<lambda>a b. \<not> entry_less a b) es \<Longrightarrow> distinct es \<Longrightarrow> sorted_wrt (\<lambda>a b. entry_less b a) es"
proof (induction es)
  case (Cons e es)
  have "entry_less x e" if "x \<in> set es" for x
    using that Cons.prems entry_less_total [of x e] by auto
  then show ?case using Cons by simp
qed simp

lemma Sorted_ok:
  assumes "heap_inv h"
  shows "\<exists>ns. Sorted h = Some ns \<and> sorted_wrt (\<lambda>a b. entry_less (entry_of b) (entry_of a)) ns \<and>
           distinct (map Key ns) \<and> map_of (map entry_of ns) = hot h \<and> length ns = length (Nodes h) \<and>
           (\<forall>i < length ns. index (ns ! i) = int i)"
proof -
  define cs where "cs = map (\<lambda>r. mem h ! r) (Nodes h)"
  define ss where "ss = go_sort (\<lambda>a b. node_less b a) cs"
  define ns where "ns = map2 (\<lambda>nd i. nd\<lparr>index := int i\<rparr>) ss [0..<length ss]"
  have eq: "Sorted h = Some ns"
    using assms by (simp add: Sorted_def copy_nodes_def heap_inv_def wf_heap_def cs_def ss_def ns_def)
  have nth: "ns ! i = (ss ! i)\<lparr>index := int i\<rparr>" if "i < length ss" for i
    using that by (simp add: ns_def)
  have len: "length ns = length ss" "length ss = length (Nodes h)" by (simp_all add: ns_def ss_def cs_def)
  have ent: "map entry_of ns = map entry_of ss"
    by (rule nth_equalityI) (auto simp: len nth entry_of_def)
  have "mset (map entry_of ss) = mset (entries h)"
    by (simp add: ss_def cs_def entries_def multiset.map_comp comp_def)
  then have ms: "mset (map entry_of ns) = mset (entries h)" by (simp add: ent)
  then have d: "distinct (map fst (map entry_of ns))"
    using distinct_keys [OF assms] by (metis mset_eq_imp_distinct_iff mset_map)
  have "map_of (map entry_of ns) = map_of (entries h)"
    using d distinct_keys [OF assms] mset_eq_setD [OF ms] by (intro map_graph_eq) (metis map_of_eq_Some_iff)
  moreover have "sorted_wrt (\<lambda>a b. \<not> entry_less a b) (map entry_of ns)"
    using node_desc.go_sort_sorted [of cs] by (simp add: ent ss_def sorted_wrt_map node_less_entry)
  then have "sorted_wrt (\<lambda>a b. entry_less b a) (map entry_of ns)"
    using d by (intro sorted_distinct_strict) (auto simp only: distinct_map)
  ultimately show ?thesis using eq d len nth
    by (auto simp: hot_map_of [OF assms] sorted_wrt_map comp_def entry_of_def)
qed

lemma Find_ok:
  assumes "heap_inv h"
  shows "\<exists>i. Find h key = Some (i, key \<in> dom (hot h)) \<and>
     (key \<in> dom (hot h) \<longrightarrow> (\<exists>h'. Fix h i cnt = Some h' \<and> heap_inv h' \<and> K h' = K h \<and> hot h' = (hot h)(key \<mapsto> cnt)))"
proof (cases "byKey h key")
  case (Some r)
  moreover have "r < length (mem h)" using assms Some by (auto simp: heap_inv_def intro: index_ok_refs)
  ultimately show ?thesis using Fix_ok [OF assms Some, of cnt] by (auto simp: Find_def hot_def)
qed (auto simp: Find_def hot_def)

lemma Min_ok:
  assumes "heap_inv h"
  shows "if Nodes h = [] then Min h = Some 0 else \<exists>k c. Min h = Some c \<and> least_entry (hot h) (k, c)"
proof (cases "Nodes h = []")
  case False
  then have "Min h = Some (snd (entries h ! 0))"
    using assms by (simp add: Min_def heap_inv_def node_at_wf nth_entries entry_of_def)
  then show ?thesis using root_least [OF assms False] False
    by (cases "entries h ! 0") auto
qed (simp add: Min_def)

section \<open>The interface the estimator relies on\<close>

definition all_entries :: "(string \<Rightarrow> u32 \<Rightarrow> bool) \<Rightarrow> (string \<rightharpoonup> u32) \<Rightarrow> bool" where
  "all_entries P m \<longleftrightarrow> (\<forall>k c. m k = Some c \<longrightarrow> P k c)"

locale hot_set =
  fixes inv :: "'h \<Rightarrow> bool" and view :: "'h \<Rightarrow> string \<rightharpoonup> u32" and cap :: "'h \<Rightarrow> u32"
    and ups :: "'h \<Rightarrow> string \<Rightarrow> u32 \<Rightarrow> ('r option \<times> 'h) option" and ent :: "'h \<Rightarrow> 'r \<Rightarrow> entry"
    and find :: "'h \<Rightarrow> string \<Rightarrow> (int \<times> bool) option" and fixat :: "'h \<Rightarrow> int \<Rightarrow> u32 \<Rightarrow> 'h option"
    and rem :: "'h \<Rightarrow> string \<Rightarrow> (bool \<times> 'h) option" and scale :: "'h \<Rightarrow> 'h option"
    and minc :: "'h \<Rightarrow> u32 option" and len :: "'h \<Rightarrow> nat"
  assumes ups_spec: "inv h \<Longrightarrow> \<exists>out h'. ups h k c = Some (out, h') \<and> inv h' \<and> cap h' = cap h \<and>
      upsert_spec (cap h) (view h) k c (map_option (ent h') out) (view h')"
    and find_spec: "inv h \<Longrightarrow> \<exists>i. find h k = Some (i, k \<in> dom (view h)) \<and>
      (k \<in> dom (view h) \<longrightarrow>
         (\<exists>h'. fixat h i c = Some h' \<and> inv h' \<and> cap h' = cap h \<and> view h' = (view h)(k \<mapsto> c)))"
    and rem_spec: "inv h \<Longrightarrow> \<exists>h'. rem h k = Some (k \<in> dom (view h), h') \<and> inv h' \<and> cap h' = cap h \<and>
      view h' = (view h)(k := None)"
    and scale_spec: "inv h \<Longrightarrow> \<exists>h'. scale h = Some h' \<and> inv h' \<and> cap h' = cap h \<and>
      view h' = drop_zero_counts (map_option (drop_bit 1) \<circ> view h)"
    and minc_spec: "inv h \<Longrightarrow> \<exists>m. minc h = Some m \<and> (view h \<noteq> Map.empty \<longrightarrow> (\<exists>k. least_entry (view h) (k, m)))"
    and len_spec: "inv h \<Longrightarrow> len h = card (dom (view h)) \<and> len h \<le> unat (cap h)"
begin

lemma ups_entries:
  assumes "inv h" "ups h k c = Some (out, h')" "all_entries P (view h)" "P k c"
  shows "inv h'" "cap h' = cap h" "all_entries P (view h')" "dom (view h') \<subseteq> insert k (dom (view h))"
proof -
  have s: "inv h'" "cap h' = cap h" "upsert_spec (cap h) (view h) k c (map_option (ent h') out) (view h')"
    using ups_spec [OF assms(1), of k c] assms(2) by auto
  then have "view h' = view h \<or> view h' = (view h)(k \<mapsto> c) \<or> (\<exists>q. view h' = (view h)(q := None, k \<mapsto> c))"
    by (auto simp: upsert_spec_def split: if_splits)
  with s show "inv h'" "cap h' = cap h" "all_entries P (view h')" "dom (view h') \<subseteq> insert k (dom (view h))"
    using assms(3,4) by (auto simp: all_entries_def split: if_splits)
qed

lemma find_fix_entries:
  assumes "inv h" "find h k = Some (i, True)" "fixat h i c = Some h'" "all_entries P (view h)" "P k c"
  shows "inv h'" "cap h' = cap h" "all_entries P (view h')" "view h' = (view h)(k \<mapsto> c)" "k \<in> dom (view h)"
  using find_spec [OF assms(1), of k c] assms by (auto simp: all_entries_def)

lemma rem_entries:
  assumes "inv h" "rem h k = Some (b, h')" "all_entries P (view h)"
  shows "inv h'" "cap h' = cap h" "all_entries P (view h')" "view h' = (view h)(k := None)"
  using rem_spec [OF assms(1), of k] assms by (auto simp: all_entries_def)

lemma scale_entries:
  assumes "inv h" "scale h = Some h'" "all_entries P (view h)"
    "\<And>k c. P k c \<Longrightarrow> drop_bit 1 c \<noteq> 0 \<Longrightarrow> P k (drop_bit 1 c)"
  shows "inv h'" "cap h' = cap h" "all_entries P (view h')" "dom (view h') \<subseteq> dom (view h)"
proof -
  have s: "inv h'" "cap h' = cap h" "view h' = drop_zero_counts (map_option (drop_bit 1) \<circ> view h)"
    using scale_spec [OF assms(1)] assms(2) by auto
  then show "inv h'" "cap h' = cap h" by auto
  show "all_entries P (view h')"
    using assms(3,4) s(3)
    by (auto simp: all_entries_def drop_zero_counts_def split: option.splits if_splits)
  show "dom (view h') \<subseteq> dom (view h)"
    using s(3) by (auto simp: drop_zero_counts_def split: option.splits if_splits)
qed

end

interpretation mh: hot_set heap_inv hot K Upsert "\<lambda>h r. entry_of (mem h ! r)" Find Fix Remove ScaleDown Min Len
proof (unfold_locales, goal_cases)
  case (1 h k c) then show ?case by (rule Upsert_ok)
next
  case (2 h k c) then show ?case by (rule Find_ok)
next
  case (3 h k) then show ?case by (rule Remove_ok)
next
  case (4 h) then show ?case by (rule ScaleDown_ok)
next
  case (5 h)
  have "hot h = Map.empty" if "Nodes h = []"
    using that hot_map_of [OF 5] by (simp add: entries_def)
  then show ?case using Min_ok [OF 5] by (auto split: if_splits)
next
  case (6 h) then show ?case by (simp add: card_dom_hot Len_def heap_inv_def)
qed

section \<open>Properties\<close>

text \<open>A run of the operations of \<open>minheap.Heap\<close> that change it. \<open>Add\<close> gets a new node from its caller. A panic is \<open>None\<close> and ends the
  run.\<close>

datatype heap_op = OpUpsert string u32 | OpAdd string u32 | OpRemove string | OpFix int u32 | OpScaleDown | OpPop

fun heap_step :: "Heap \<Rightarrow> heap_op \<Rightarrow> Heap option" where
  "heap_step h (OpUpsert k c) = map_option snd (Upsert h k c)"
| "heap_step h (OpAdd k c) = (case candidate_node h k c None of (r, h1) \<Rightarrow> map_option snd (Add h1 r))"
| "heap_step h (OpRemove k) = map_option snd (Remove h k)"
| "heap_step h (OpFix i c) = Fix h i c"
| "heap_step h OpScaleDown = ScaleDown h"
| "heap_step h OpPop = map_option snd (Pop h)"

primrec heap_run :: "Heap \<Rightarrow> heap_op list \<Rightarrow> Heap option" where
  "heap_run h [] = Some h"
| "heap_run h (e # es) = (case heap_step h e of None \<Rightarrow> None | Some h' \<Rightarrow> heap_run h' es)"

text \<open>The two misuses: \<open>Pop\<close> of an empty heap, and \<open>Fix\<close> of a position outside it.\<close>

definition misuse :: "Heap \<Rightarrow> heap_op \<Rightarrow> bool" where
  "misuse h e \<longleftrightarrow> (e = OpPop \<and> Nodes h = []) \<or> (\<exists>i c. e = OpFix i c \<and> (i < 0 \<or> int (length (Nodes h)) \<le> i))"

lemma misuse_panics: "misuse h e \<Longrightarrow> heap_step h e = None"
  by (auto simp: misuse_def Pop_def heap_Pop_def Fix_def node_at_def)

lemma Fix_position_ok:
  assumes "heap_inv h" "0 \<le> i" "i < int (length (Nodes h))"
  shows "\<exists>h'. Fix h i c = Some h' \<and> heap_inv h' \<and> K h' = K h"
proof -
  have wf: "wf_heap h" "index_ok h" using assms(1) by (auto simp: heap_inv_def)
  have "Nodes h ! nat i \<in> set (Nodes h)" using assms(2,3) by simp
  then have "byKey h (Key (mem h ! (Nodes h ! nat i))) = Some (Nodes h ! nat i)" by (rule index_okI2 [OF wf(2)])
  moreover have "index (mem h ! (Nodes h ! nat i)) = i" using wf(1) assms(2,3) by (simp add: wf_heap_def)
  ultimately show ?thesis using Fix_ok [OF assms(1), of _ "Nodes h ! nat i" c] by metis
qed

lemma heap_step_ok:
  assumes "heap_inv h" "\<not> misuse h e" shows "\<exists>h'. heap_step h e = Some h' \<and> heap_inv h' \<and> K h' = K h"
proof (cases e)
  case (OpAdd k c)
  obtain r h1 where h1: "candidate_node h k c None = (r, h1)" by fastforce
  from candidate_node_ok [OF assms(1) _ h1] have "heap_inv h1" "fresh_node h1 r (k, c)" "K h1 = K h" by simp_all
  then show ?thesis using OpAdd h1 Add_ok [of h1 r k c] by auto
next
  case (OpFix i c)
  then show ?thesis using Fix_position_ok [OF assms(1)] assms(2) by (simp add: misuse_def)
qed (use assms Upsert_ok [of h] Remove_ok [of h] ScaleDown_ok [of h] Pop_ok [of h] in \<open>fastforce simp: misuse_def\<close>)+

lemma heap_run_append: "heap_run h (as @ bs) = (case heap_run h as of None \<Rightarrow> None | Some h' \<Rightarrow> heap_run h' bs)"
  by (induction as arbitrary: h) (auto split: option.split)

lemma heap_run_inv:
  assumes "heap_inv h" "heap_run h es = Some h'" shows "heap_inv h' \<and> K h' = K h"
  using assms
proof (induction es arbitrary: h)
  case (Cons e es)
  have "\<not> misuse h e" using Cons.prems(2) misuse_panics by (fastforce split: option.splits)
  then obtain h1 where "heap_step h e = Some h1" "heap_inv h1" "K h1 = K h" using heap_step_ok [OF Cons.prems(1)] by blast
  then show ?case using Cons.IH Cons.prems(2) by simp
qed simp

text \<open>A run panics exactly at its first misuse.\<close>

lemma heap_run_panics:
  assumes "heap_inv h"
  shows "heap_run h es = None \<longleftrightarrow> (\<exists>as e bs h1. es = as @ e # bs \<and> heap_run h as = Some h1 \<and> misuse h1 e)"
proof
  show "\<exists>as e bs h1. es = as @ e # bs \<and> heap_run h as = Some h1 \<and> misuse h1 e" if "heap_run h es = None"
    using assms that
  proof (induction es arbitrary: h)
    case (Cons e es)
    show ?case
    proof (cases "misuse h e")
      case True
      then show ?thesis by (intro exI [of _ "[]"] exI [of _ e] exI [of _ es] exI [of _ h]) simp
    next
      case False
      then obtain h1 where h1: "heap_step h e = Some h1" "heap_inv h1" using heap_step_ok [OF Cons.prems(1)] by blast
      then obtain as e' bs h2 where "es = as @ e' # bs" "heap_run h1 as = Some h2" "misuse h2 e'"
        using Cons.IH Cons.prems(2) by fastforce
      then show ?thesis using h1(1) by (intro exI [of _ "e # as"] exI [of _ e'] exI [of _ bs] exI [of _ h2]) simp
    qed
  qed simp
qed (auto simp: heap_run_append dest: misuse_panics)


lemma sample_heap_runs:
  "map_option Nodes (heap_run (NewHeap 2) [OpUpsert ''a'' 3, OpAdd ''b'' 1, OpFix 1 7, OpUpsert ''c'' 2, OpScaleDown, OpPop]) = Some [0]"
  "heap_run (NewHeap 2) [OpAdd ''a'' 3, OpPop, OpPop] = None"
  by code_simp+


text \<open>C27: \<open>Upsert\<close> refines the bounded hot set. On a well-formed heap it never panics; an existing key
  gets the new count; a new key is stored while there is room; in a full heap it replaces the least
  entry, which is returned, exactly when its count is greater than the least count, and otherwise
  nothing changes.\<close>

theorem Upsert_refines:
  assumes "heap_inv h"
  shows "\<exists>out h'. Upsert h key cnt = Some (out, h') \<and> heap_inv h' \<and> K h' = K h \<and>
    upsert_spec (K h) (hot h) key cnt (map_option (\<lambda>r. (Key (mem h' ! r), Count (mem h' ! r))) out) (hot h')"
  using Upsert_ok [OF assms, of key cnt] by (simp add: entry_of_def)

definition two_heap :: Heap where
  "two_heap = the (heap_run (NewHeap 2) [OpUpsert ''a'' 3, OpUpsert ''b'' 1])"

lemma two_heap_eval:
  "Nodes two_heap = [1, 0]" "K two_heap = 2"
  "mem two_heap = [\<lparr>Key = ''a'', Count = 3, index = 1\<rparr>, \<lparr>Key = ''b'', Count = 1, index = 0\<rparr>]"
  by code_simp+

lemma two_heap_inv: "heap_inv two_heap"
proof -
  have "heap_run (NewHeap 2) [OpUpsert ''a'' 3, OpUpsert ''b'' 1] \<noteq> None"
    unfolding heap_run_panics [OF heap_inv_NewHeap(1)] misuse_def by (auto simp: Cons_eq_append_conv)
  then obtain h where "heap_run (NewHeap 2) [OpUpsert ''a'' 3, OpUpsert ''b'' 1] = Some h" by blast
  moreover from this have "two_heap = h" unfolding two_heap_def by (simp only: option.sel)
  ultimately show ?thesis using heap_run_inv [OF heap_inv_NewHeap(1)] by blast
qed

theorem Upsert_refines_witness:
  "(case Upsert two_heap ''c'' 2 of Some (Some r, h') \<Rightarrow> Key (mem h' ! r) = ''b'' | _ \<Rightarrow> False) \<and>
   (\<exists>out h'. Upsert two_heap ''c'' 2 = Some (out, h') \<and> heap_inv h')"
proof
  show "case Upsert two_heap ''c'' 2 of Some (Some r, h') \<Rightarrow> Key (mem h' ! r) = ''b'' | _ \<Rightarrow> False"
    by code_simp
  show "\<exists>out h'. Upsert two_heap ''c'' 2 = Some (out, h') \<and> heap_inv h'"
    using Upsert_refines [OF two_heap_inv, of "''c''" 2] by blast
qed

text \<open>C33: \<open>ScaleDown\<close> never panics on a well-formed heap and halves every count, and exactly the keys
  whose halved count is zero leave the hot set: the loop that pops zero-count roots finds all of
  them.\<close>

theorem ScaleDown_refines:
  assumes "heap_inv h"
  shows "\<exists>h'. ScaleDown h = Some h' \<and> heap_inv h' \<and>
    (\<forall>key c. hot h' key = Some c \<longleftrightarrow> (\<exists>c0. hot h key = Some c0 \<and> c = drop_bit 1 c0 \<and> c \<noteq> 0))"
proof -
  obtain h' where "ScaleDown h = Some h'" "heap_inv h'"
    "hot h' = drop_zero_counts (map_option (drop_bit 1) \<circ> hot h)"
    using ScaleDown_ok [OF assms] by blast
  then show ?thesis by (auto simp: drop_zero_counts_def split: option.splits)
qed

theorem ScaleDown_refines_witness:
  "(case ScaleDown two_heap of Some h' \<Rightarrow> map (\<lambda>r. Key (mem h' ! r)) (Nodes h') = [''a''] | None \<Rightarrow> False) \<and>
   (\<exists>h'. ScaleDown two_heap = Some h' \<and> heap_inv h')"
proof
  show "case ScaleDown two_heap of Some h' \<Rightarrow> map (\<lambda>r. Key (mem h' ! r)) (Nodes h') = [''a''] | None \<Rightarrow> False"
    by code_simp
  show "\<exists>h'. ScaleDown two_heap = Some h' \<and> heap_inv h'"
    using ScaleDown_refines [OF two_heap_inv] by blast
qed

text \<open>\<open>Remove\<close> on a well-formed heap never panics, reports whether the key was present, and takes
  exactly that key out of the hot set; the heap stays well-formed.\<close>

lemma Remove_refines:
  assumes "heap_inv h"
  shows "\<exists>h'. Remove h key = Some (Contains h key, h') \<and> heap_inv h' \<and> K h' = K h \<and>
    hot h' = (hot h)(key := None)"
proof -
  have "Contains h key \<longleftrightarrow> key \<in> dom (hot h)" by (auto simp: Contains_def dom_hot)
  then show ?thesis using Remove_ok [OF assms, of key] by auto
qed

end
