(* ===== verification/Heavykeeper.thy ===== *)
theory Heavykeeper
  imports Minheap_Refinement Float64
begin

text \<open>
  The HeavyKeeper estimator of \<open>src/eviction/internal/heavykeeper/heavykeeper.go\<close>: \<open>depth\<close> rows of
  \<open>width\<close> buckets, each a fingerprint with a decaying counter, and a min-heap of the \<open>k\<close> hottest keys.
  The mutex makes every exported method atomic, so methods are functions on the record.

  Parameters, gathered in \<open>hk_env\<close>: the two hashes of the murmur3 package, \<open>math.Pow\<close>, and the stream
  of \<open>Float64\<close> draws of the generator with seed 0. The record field \<open>hk_r\<close> is the position in that
  stream; \<open>Reset\<close> makes a new generator, so it goes back to position 0. No property below depends on
  the values drawn. A run-time panic is \<open>None\<close>.
\<close>

section \<open>State\<close>

record hk_env =
  sum32 :: "string \<Rightarrow> u32"
  seedSum32 :: "u32 \<Rightarrow> string \<Rightarrow> u32"
  rand_Float64 :: "nat \<Rightarrow> float64"
  math_Pow :: "float64 \<Rightarrow> nat \<Rightarrow> float64"

record bucket =
  fingerprint :: u32
  bcount :: u32

record HeavyKeeper =
  hk_k :: u32
  hk_width :: u32
  hk_depth :: u32
  hk_decay :: float64
  hk_lookupTable :: "float64 list"
  hk_minCount :: u32
  hk_r :: nat
  hk_buckets :: "bucket list list"
  hk_minHeap :: Heap
  hk_total :: u64

record Item =
  item_Key :: string
  item_Count :: u32

abbreviation LOOKUP_TABLE :: nat where
  "LOOKUP_TABLE \<equiv> 256"

definition empty_bucket :: bucket where
  "empty_bucket = \<lparr>fingerprint = 0, bcount = 0\<rparr>"

definition NewHeavyKeeper ::
  "hk_env \<Rightarrow> u32 \<Rightarrow> u32 \<Rightarrow> u32 \<Rightarrow> float64 \<Rightarrow> u32 \<Rightarrow> HeavyKeeper" where
  "NewHeavyKeeper E k w d decay mn =
     \<lparr>hk_k = k, hk_width = w, hk_depth = d, hk_decay = decay,
      hk_lookupTable = map (math_Pow E decay) [0..<LOOKUP_TABLE], hk_minCount = mn, hk_r = 0,
      hk_buckets = replicate (unat d) (replicate (unat w) empty_bucket),
      hk_minHeap = NewHeap k, hk_total = 0\<rparr>"

section \<open>Buckets\<close>

definition go_max :: "u32 \<Rightarrow> u32 \<Rightarrow> u32" where
  "go_max x y = (if y < x then x else y)"

definition bucket_Get :: "bucket \<Rightarrow> u32 \<times> u32" where
  "bucket_Get b = (fingerprint b, bcount b)"

definition bucket_Set :: "bucket \<Rightarrow> u32 \<Rightarrow> u32 \<Rightarrow> bucket" where
  "bucket_Set b fp c = b\<lparr>fingerprint := fp, bcount := c\<rparr>"

definition bucket_Inc :: "bucket \<Rightarrow> u32 \<Rightarrow> u32 \<times> bucket" where
  "bucket_Inc b v = (bcount b + v, b\<lparr>bcount := bcount b + v\<rparr>)"

text \<open>The decay loop of a bucket owned by another fingerprint: \<open>n\<close> is \<open>localIncr\<close>, and each iteration
  draws one random number. The result is the bucket, the generator's position and \<open>maxCount\<close>.\<close>

definition decay_at :: "float64 list \<Rightarrow> u32 \<Rightarrow> float64" where
  "decay_at table c = (if c < of_nat LOOKUP_TABLE then table ! unat c else table ! (LOOKUP_TABLE - 1))"

fun decay_loop ::
  "hk_env \<Rightarrow> float64 list \<Rightarrow> u32 \<Rightarrow> nat \<Rightarrow> bucket \<Rightarrow> nat \<Rightarrow> u32 \<Rightarrow> bucket \<times> nat \<times> u32" where
  "decay_loop E table fp 0 b r maxCount = (b, r, maxCount)"
| "decay_loop E table fp (Suc n) b r maxCount =
     (if flt (rand_Float64 E r) (decay_at table (bcount b))
      then let c = bcount b - 1
           in if c = 0
              then (\<lparr>fingerprint = fp, bcount = of_nat (Suc n)\<rparr>, Suc r, go_max maxCount (of_nat (Suc n)))
              else decay_loop E table fp n (b\<lparr>bcount := c\<rparr>) (Suc r) maxCount
      else decay_loop E table fp n b (Suc r) maxCount)"

definition add_bucket ::
  "hk_env \<Rightarrow> float64 list \<Rightarrow> u32 \<Rightarrow> u32 \<Rightarrow> bucket \<Rightarrow> nat \<Rightarrow> u32 \<Rightarrow> bucket \<times> nat \<times> u32" where
  "add_bucket E table fp incr b r maxCount =
     (if bcount b = 0 then (b\<lparr>fingerprint := fp, bcount := incr\<rparr>, r, go_max maxCount incr)
      else if fingerprint b = fp
      then (b\<lparr>bcount := bcount b + incr\<rparr>, r, go_max maxCount (bcount b + incr))
      else decay_loop E table fp (unat incr) b r maxCount)"

text \<open>The loop over the rows. \<open>width = 0\<close> divides by zero; a bucket number beyond the row is an index
  panic.\<close>

fun add_rows ::
  "hk_env \<Rightarrow> float64 list \<Rightarrow> u32 \<Rightarrow> string \<Rightarrow> u32 \<Rightarrow> nat \<Rightarrow> bucket list list \<Rightarrow> nat \<Rightarrow> u32 \<Rightarrow>
   (bucket list list \<times> nat \<times> u32) option" where
  "add_rows E table w key incr i [] r maxCount = Some ([], r, maxCount)"
| "add_rows E table w key incr i (row # rows) r maxCount =
     (if w = 0 then None
      else let bucketNumber = unat (seedSum32 E (of_nat i) key mod w)
           in if bucketNumber < length row
              then (case add_bucket E table (sum32 E key) incr (row ! bucketNumber) r maxCount of
                (b, r', mx) \<Rightarrow>
                  (case add_rows E table w key incr (Suc i) rows r' mx of
                     None \<Rightarrow> None
                   | Some (rows', r'', mx') \<Rightarrow> Some (row[bucketNumber := b] # rows', r'', mx')))
              else None)"

section \<open>The methods\<close>

definition hk_add :: "hk_env \<Rightarrow> HeavyKeeper \<Rightarrow> string \<Rightarrow> u32 \<Rightarrow> ((string \<times> bool) \<times> HeavyKeeper) option" where
  "hk_add E tk key incr = do {
     (rows, r, maxCount) \<leftarrow>
       add_rows E (hk_lookupTable tk) (hk_width tk) key incr 0 (hk_buckets tk) (hk_r tk) 0;
     let tk1 = tk\<lparr>hk_buckets := rows, hk_r := r, hk_total := hk_total tk + ucast incr\<rparr>;
     if maxCount < hk_minCount tk then Some (([], False), tk1)
     else do {
       mn \<leftarrow> Min (hk_minHeap tk);
       if Len (hk_minHeap tk) = unat (hk_k tk) \<and> maxCount < mn then Some (([], False), tk1)
       else do {
         (itemHeapIdx, itemHeapExist) \<leftarrow> Find (hk_minHeap tk) key;
         if itemHeapExist
         then do {
           h \<leftarrow> Fix (hk_minHeap tk) itemHeapIdx maxCount;
           Some (([], True), tk1\<lparr>hk_minHeap := h\<rparr>) }
         else do {
           (expelled, h) \<leftarrow> Upsert (hk_minHeap tk) key maxCount;
           Some ((case expelled of None \<Rightarrow> [] | Some e \<Rightarrow> Key (mem h ! e), True), tk1\<lparr>hk_minHeap := h\<rparr>) } } } }"

definition hk_List :: "HeavyKeeper \<Rightarrow> Item list option" where
  "hk_List tk = do {
     items \<leftarrow> Sorted (hk_minHeap tk);
     Some (map (\<lambda>nd. \<lparr>item_Key = Key nd, item_Count = Count nd\<rparr>) items) }"

definition hk_Len :: "HeavyKeeper \<Rightarrow> nat" where
  "hk_Len tk = Len (hk_minHeap tk)"

definition hk_Contains :: "HeavyKeeper \<Rightarrow> string \<Rightarrow> bool" where
  "hk_Contains tk key = Contains (hk_minHeap tk) key"

definition hk_Remove :: "HeavyKeeper \<Rightarrow> string \<Rightarrow> HeavyKeeper option" where
  "hk_Remove tk key = do { (_, h) \<leftarrow> Remove (hk_minHeap tk) key; Some (tk\<lparr>hk_minHeap := h\<rparr>) }"

definition hk_Total :: "HeavyKeeper \<Rightarrow> u64" where
  "hk_Total tk = hk_total tk"

definition hk_Fading :: "HeavyKeeper \<Rightarrow> HeavyKeeper option" where
  "hk_Fading tk = do {
     let rows = map (map (\<lambda>b. b\<lparr>bcount := drop_bit 1 (bcount b)\<rparr>)) (hk_buckets tk);
     h \<leftarrow> ScaleDown (hk_minHeap tk);
     Some (tk\<lparr>hk_buckets := rows, hk_minHeap := h, hk_total := drop_bit 1 (hk_total tk)\<rparr>) }"

definition hk_reset :: "HeavyKeeper \<Rightarrow> HeavyKeeper" where
  "hk_reset tk =
     tk\<lparr>hk_buckets := map (map (\<lambda>_. empty_bucket)) (hk_buckets tk), hk_r := 0,
        hk_minHeap := NewHeap (hk_k tk), hk_total := 0\<rparr>"

primrec restore_loop :: "hk_env \<Rightarrow> HeavyKeeper \<Rightarrow> Item list \<Rightarrow> HeavyKeeper option" where
  "restore_loop E tk [] = Some tk"
| "restore_loop E tk (it # its) =
     (if item_Key it = [] \<or> item_Count it = 0 then restore_loop E tk its
      else case hk_add E tk (item_Key it) (item_Count it) of
        None \<Rightarrow> None
      | Some (_, tk') \<Rightarrow> restore_loop E tk' its)"

definition hk_Restore :: "hk_env \<Rightarrow> HeavyKeeper \<Rightarrow> Item list \<Rightarrow> HeavyKeeper option" where
  "hk_Restore E tk items = restore_loop E (hk_reset tk) items"

section \<open>Buckets never overestimate\<close>

text \<open>\<open>W fp\<close> is the total weight added under the fingerprint \<open>fp\<close>: no bucket owned by \<open>fp\<close> counts more.
  Wrap-around of a counter, decay and halving only lower it.\<close>

definition bucket_within :: "(u32 \<Rightarrow> nat) \<Rightarrow> bucket \<Rightarrow> bool" where
  "bucket_within W b \<longleftrightarrow> unat (bcount b) \<le> W (fingerprint b)"

definition rows_within :: "(u32 \<Rightarrow> nat) \<Rightarrow> bucket list list \<Rightarrow> bool" where
  "rows_within W rows \<longleftrightarrow> (\<forall>row \<in> set rows. \<forall>b \<in> set row. bucket_within W b)"

lemma unat_go_max: "unat (go_max x y) = max (unat x) (unat y)"
  by (auto simp: go_max_def word_less_nat_alt)

lemma unat_plus_le: "unat (x + y) \<le> unat x + unat (y :: u32)"
  by (simp add: unat_word_ariths mod_less_eq_dividend)

lemma unat_half_le: "unat (drop_bit 1 (x :: 'a::len word)) \<le> unat x"
proof -
  have "take_bit LENGTH('a) (unat x) div 2 \<le> take_bit LENGTH('a) (unat x)" by (rule div_le_dividend)
  also have "\<dots> \<le> unat x" by (rule take_bit_nat_less_eq_self)
  finally show ?thesis by (simp add: unsigned_drop_bit_eq drop_bit_nat_def)
qed

lemma unat_pred: "x \<noteq> 0 \<Longrightarrow> unat (x - 1) = unat x - 1" for x :: u32
  by (rule unat_minus_one)

lemma decay_loop_within:
  assumes "decay_loop E table fp n b r mx = (b', r', mx')" "bucket_within W b" "n \<le> W fp" "unat mx \<le> W fp"
    "bcount b \<noteq> 0"
  shows "bucket_within W b' \<and> unat mx' \<le> W fp \<and> unat mx \<le> unat mx'"
  using assms
proof (induction E table fp n b r mx rule: decay_loop.induct)
  case (2 E table fp n b r mx)
  have take: "unat (of_nat (Suc n) :: u32) \<le> Suc n"
    by (simp only: unsigned_of_nat of_nat_id take_bit_nat_less_eq_self)
  show ?case
  proof (cases "flt (rand_Float64 E r) (decay_at table (bcount b))")
    case hit: True
    show ?thesis
    proof (cases "bcount b - 1 = 0")
      case True
      then show ?thesis using 2(3-) hit take
        by (auto simp: bucket_within_def unat_go_max simp del: of_nat_Suc)
    next
      case False
      have "unat (bcount b - 1) \<le> unat (bcount b)" using "2.prems"(5) by (simp add: unat_pred)
      then have "bucket_within W (b\<lparr>bcount := bcount b - 1\<rparr>)"
        using "2.prems"(2) by (simp add: bucket_within_def)
      then show ?thesis using 2(1) [OF hit refl False] 2(3-) hit False by simp
    qed
  next
    case False
    then show ?thesis using 2(2) [OF False] 2(3-) by simp
  qed
qed auto

lemma add_bucket_within:
  assumes "add_bucket E table fp incr b r mx = (b', r', mx')" "bucket_within W b" "unat mx \<le> W fp + unat incr"
  shows "bucket_within (W(fp := W fp + unat incr)) b' \<and> unat mx' \<le> W fp + unat incr \<and> unat mx \<le> unat mx'"
proof -
  let ?W = "W(fp := W fp + unat incr)"
  consider "bcount b = 0" | "bcount b \<noteq> 0" "fingerprint b = fp" | "bcount b \<noteq> 0" "fingerprint b \<noteq> fp" by blast
  then show ?thesis
  proof cases
    case 2
    then have "unat (bcount b + incr) \<le> W fp + unat incr"
      using assms(2) unat_plus_le [of "bcount b" incr] by (simp add: bucket_within_def)
    then show ?thesis using 2 assms by (auto simp: add_bucket_def bucket_within_def unat_go_max)
  next
    case 3
    then show ?thesis
      using assms decay_loop_within [of E table fp "unat incr" b r mx b' r' mx' ?W]
      by (auto simp: add_bucket_def bucket_within_def)
  qed (use assms in \<open>auto simp: add_bucket_def bucket_within_def unat_go_max\<close>)
qed

lemma bucket_within_mono: "bucket_within W b \<Longrightarrow> (\<And>x. W x \<le> W' x) \<Longrightarrow> bucket_within W' b"
  by (meson bucket_within_def order_trans)

lemma rows_within_mono: "rows_within W rows \<Longrightarrow> (\<And>x. W x \<le> W' x) \<Longrightarrow> rows_within W' rows"
  by (auto simp: rows_within_def intro: bucket_within_mono)

lemma add_rows_ok:
  assumes "w \<noteq> 0" "\<forall>row \<in> set rows. length row = unat w" "rows_within W rows"
    "unat mx \<le> W (sum32 E key) + unat incr"
  defines "W' \<equiv> W(sum32 E key := W (sum32 E key) + unat incr)"
  shows "\<exists>rows' r' mx'. add_rows E table w key incr i rows r mx = Some (rows', r', mx') \<and>
    map length rows' = map length rows \<and> rows_within W' rows' \<and> unat mx' \<le> W' (sum32 E key) \<and> mx \<le> mx'"
  using assms(2-4)
proof (induction rows arbitrary: i r mx)
  case Nil
  then show ?case by (simp add: rows_within_def W'_def)
next
  case (Cons row rows)
  define n where "n = unat (seedSum32 E (of_nat i) key mod w)"
  have n: "n < length row" using Cons.prems(1) assms(1)
    by (simp add: n_def unat_mod unat_gt_0)
  obtain b r1 mx1 where b: "add_bucket E table (sum32 E key) incr (row ! n) r mx = (b, r1, mx1)"
    by (metis prod_cases3)
  have old: "bucket_within W (row ! n)" "rows_within W rows" "\<forall>c \<in> set row. bucket_within W c"
    using Cons.prems(2) n by (auto simp: rows_within_def)
  note new = add_bucket_within [OF b old(1) Cons.prems(3)]
  obtain rows' r' mx' where t: "add_rows E table w key incr (Suc i) rows r1 mx1 = Some (rows', r', mx')"
    "map length rows' = map length rows" "rows_within W' rows'" "unat mx' \<le> W' (sum32 E key)" "mx1 \<le> mx'"
    using Cons.IH [of mx1 "Suc i" r1] Cons.prems(1) old(2) new by auto
  have "\<forall>c \<in> set (row[n := b]). bucket_within W' c"
  proof
    fix c assume "c \<in> set (row[n := b])"
    then have "c = b \<or> c \<in> set row" using set_update_subset_insert [of row n b] by blast
    then show "bucket_within W' c" using new old(3) by (auto simp: W'_def bucket_within_def trans_le_add1)
  qed
  moreover have "add_rows E table w key incr i (row # rows) r mx = Some (row[n := b] # rows', r', mx')"
    using assms(1) n b t(1) by (simp add: n_def)
  moreover have "mx \<le> mx'" using new t(5) by (simp add: word_le_nat_alt)
  ultimately show ?case using t by (auto simp: rows_within_def)
qed

section \<open>The invariant and the methods\<close>

definition hk_inv :: "HeavyKeeper \<Rightarrow> bool" where
  "hk_inv tk \<longleftrightarrow> length (hk_buckets tk) = unat (hk_depth tk) \<and>
     (\<forall>row \<in> set (hk_buckets tk). length row = unat (hk_width tk)) \<and>
     length (hk_lookupTable tk) = LOOKUP_TABLE \<and> heap_inv (hk_minHeap tk) \<and> K (hk_minHeap tk) = hk_k tk"

text \<open>The parameters of an estimator, which no method changes.\<close>

definition hk_config :: "HeavyKeeper \<Rightarrow> u32 \<times> u32 \<times> u32 \<times> float64 \<times> float64 list \<times> u32" where
  "hk_config tk = (hk_k tk, hk_width tk, hk_depth tk, hk_decay tk, hk_lookupTable tk, hk_minCount tk)"

abbreviation hk_hot :: "HeavyKeeper \<Rightarrow> string \<rightharpoonup> u32" where
  "hk_hot tk \<equiv> hot (hk_minHeap tk)"

definition hk_within :: "hk_env \<Rightarrow> (u32 \<Rightarrow> nat) \<Rightarrow> HeavyKeeper \<Rightarrow> bool" where
  "hk_within E W tk \<longleftrightarrow> rows_within W (hk_buckets tk) \<and>
     all_entries (\<lambda>key c. unat c \<le> W (sum32 E key)) (hk_hot tk)"

text \<open>What \<open>add\<close> does to the hot set once the rows gave the estimate \<open>mx\<close>: it is rejected below
  \<open>minCount\<close>, and in a full hot set below the least count; otherwise the key's count becomes \<open>mx\<close>, or
  the key competes for a place by \<open>upsert_spec\<close>.\<close>

definition admit_spec ::
  "u32 \<Rightarrow> u32 \<Rightarrow> (string \<rightharpoonup> u32) \<Rightarrow> string \<Rightarrow> u32 \<Rightarrow> string \<times> bool \<Rightarrow> (string \<rightharpoonup> u32) \<Rightarrow> bool" where
  "admit_spec cap mn m key mx out m' \<longleftrightarrow>
     (if mx < mn \<or> (card (dom m) = unat cap \<and> (\<exists>k c. least_entry m (k, c) \<and> mx < c))
      then out = ([], False) \<and> m' = m
      else if key \<in> dom m then out = ([], True) \<and> m' = m(key \<mapsto> mx)
      else \<exists>e. upsert_spec cap m key mx e m' \<and> out = (case e of None \<Rightarrow> [] | Some e \<Rightarrow> fst e, True))"

lemma least_entry_unique: "least_entry m (k, c) \<Longrightarrow> least_entry m (k', c') \<Longrightarrow> c = c'"
  using entry_less_total [of "(k, c)" "(k', c')"] by (auto simp: least_entry_def)

lemma Min_full:
  assumes "heap_inv h" "Min h = Some mn"
  shows "(Len h = unat (K h) \<and> mx < mn) \<longleftrightarrow>
    (card (dom (hot h)) = unat (K h) \<and> (\<exists>k c. least_entry (hot h) (k, c) \<and> mx < c))"
proof (cases "Nodes h = []")
  case True
  then have "hot h = Map.empty" using hot_map_of [OF assms(1)] by (simp add: entries_def)
  then show ?thesis using True assms by (auto simp: Min_def least_entry_def)
next
  case False
  then obtain k where "least_entry (hot h) (k, mn)" using Min_ok [OF assms(1)] assms(2) by auto
  then show ?thesis using card_dom_hot [OF assms(1)]
    by (auto simp: Len_def dest: least_entry_unique [of _ k mn])
qed

lemma hk_add_rows_eq:
  assumes "hk_inv tk" "add_rows E (hk_lookupTable tk) (hk_width tk) key incr 0 (hk_buckets tk) (hk_r tk) 0 = Some (rows, r, mx)"
  shows "\<exists>out h. hk_add E tk key incr =
      Some (out, tk\<lparr>hk_buckets := rows, hk_r := r, hk_total := hk_total tk + ucast incr, hk_minHeap := h\<rparr>) \<and>
    heap_inv h \<and> K h = hk_k tk \<and> admit_spec (hk_k tk) (hk_minCount tk) (hk_hot tk) key mx out (hot h)"
proof -
  let ?h = "hk_minHeap tk"
  have inv: "heap_inv ?h" "K ?h = hk_k tk" using assms(1) by (auto simp: hk_inv_def)
  obtain mn where mn: "Min ?h = Some mn" using mh.minc_spec [OF inv(1)] by auto
  define F where "F \<longleftrightarrow> card (dom (hot ?h)) = unat (hk_k tk) \<and> (\<exists>k c. least_entry (hot ?h) (k, c) \<and> mx < c)"
  have full: "(Len ?h = unat (hk_k tk) \<and> mx < mn) = F"
    using Min_full [OF inv(1) mn, of mx] inv(2) by (simp add: F_def)
  obtain i where i: "Find ?h key = Some (i, key \<in> dom (hot ?h))" using Find_ok [OF inv(1), of key] by blast
  note step = assms(2) inv mn i
  consider "mx < hk_minCount tk \<or> F" | "\<not> mx < hk_minCount tk" "\<not> F" "key \<in> dom (hot ?h)"
    | "\<not> mx < hk_minCount tk" "\<not> F" "key \<notin> dom (hot ?h)" by blast
  then show ?thesis
  proof cases
    case 1
    then show ?thesis using step
      by (intro exI [of _ "([], False)"] exI [of _ ?h])
         (cases "mx < hk_minCount tk", simp_all add: hk_add_def admit_spec_def full F_def [symmetric])
  next
    case 2
    then obtain h where "Fix ?h i mx = Some h" "heap_inv h" "K h = K ?h" "hot h = (hot ?h)(key \<mapsto> mx)"
      using Find_ok [OF inv(1), of key mx] i by auto
    then show ?thesis using 2 step
      by (intro exI [of _ "([], True)"] exI [of _ h])
         (simp add: hk_add_def admit_spec_def full F_def [symmetric])
  next
    case 3
    obtain e h where u: "Upsert ?h key mx = Some (e, h)" "heap_inv h" "K h = K ?h"
      "upsert_spec (K ?h) (hot ?h) key mx (map_option (\<lambda>r. entry_of (mem h ! r)) e) (hot h)"
      using Upsert_ok [OF inv(1), of key mx] by blast
    let ?out = "(case e of None \<Rightarrow> [] | Some e \<Rightarrow> Key (mem h ! e), True)"
    have "?out = (case map_option (\<lambda>r. entry_of (mem h ! r)) e of None \<Rightarrow> [] | Some e \<Rightarrow> fst e, True)"
      by (simp add: entry_of_def split: option.split)
    then have "admit_spec (hk_k tk) (hk_minCount tk) (hk_hot tk) key mx ?out (hot h)"
      using 3 u(4) inv(2) by (auto simp: admit_spec_def F_def [symmetric])
    then show ?thesis using 3 step u
      by (intro exI [of _ ?out] exI [of _ h]) (simp add: hk_add_def full)
  qed
qed

lemma admit_spec_entries:
  assumes "admit_spec cap mn m key mx out m'" "all_entries P m" "P key mx"
  shows "all_entries P m'"
proof -
  have "m' = m \<or> m' = m(key \<mapsto> mx) \<or> (\<exists>q. m' = m(q := None, key \<mapsto> mx))"
    using assms(1) by (auto simp: admit_spec_def upsert_spec_def split: if_splits)
  then show ?thesis using assms(2,3) by (auto simp: all_entries_def split: if_splits)
qed

text \<open>The whole method: it does not panic, keeps the invariant and the parameters, counts the weight,
  keeps the estimates within the added weight, and updates the hot set by \<open>admit_spec\<close>.\<close>

lemma hk_add_ok:
  fixes key :: string and incr :: u32
  assumes "hk_inv tk" "hk_width tk \<noteq> 0" "hk_within E W tk"
  defines "W' \<equiv> W(sum32 E key := W (sum32 E key) + unat incr)"
  shows "\<exists>out tk' mx. hk_add E tk key incr = Some (out, tk') \<and> hk_inv tk' \<and> hk_config tk' = hk_config tk \<and>
    hk_total tk' = hk_total tk + ucast incr \<and> hk_within E W' tk' \<and> unat mx \<le> W' (sum32 E key) \<and>
    admit_spec (hk_k tk) (hk_minCount tk) (hk_hot tk) key mx out (hk_hot tk')"
proof -
  have within: "rows_within W (hk_buckets tk)" "all_entries (\<lambda>key c. unat c \<le> W (sum32 E key)) (hk_hot tk)"
    using assms(3) by (auto simp: hk_within_def)
  obtain rows r mx where rows:
    "add_rows E (hk_lookupTable tk) (hk_width tk) key incr 0 (hk_buckets tk) (hk_r tk) 0 = Some (rows, r, mx)"
    "map length rows = map length (hk_buckets tk)" "rows_within W' rows" "unat mx \<le> W' (sum32 E key)"
    using add_rows_ok [OF assms(2) _ within(1), of 0 E key incr "hk_lookupTable tk" 0 "hk_r tk"] assms(1)
    by (auto simp: W'_def hk_inv_def)
  obtain out h where h: "hk_add E tk key incr =
      Some (out, tk\<lparr>hk_buckets := rows, hk_r := r, hk_total := hk_total tk + ucast incr, hk_minHeap := h\<rparr>)"
    "heap_inv h" "K h = hk_k tk" "admit_spec (hk_k tk) (hk_minCount tk) (hk_hot tk) key mx out (hot h)"
    using hk_add_rows_eq [OF assms(1) rows(1)] by blast
  have "all_entries (\<lambda>key c. unat c \<le> W' (sum32 E key)) (hk_hot tk)"
    using within(2) by (auto simp: all_entries_def W'_def) (metis trans_le_add1)
  from admit_spec_entries [OF h(4) this rows(4)]
  have "all_entries (\<lambda>key c. unat c \<le> W' (sum32 E key)) (hot h)" .
  moreover have "length rows = length (hk_buckets tk)" using rows(2) by (metis length_map)
  moreover have "length row = unat (hk_width tk)" if "row \<in> set rows" for row
  proof -
    have "length row \<in> set (map length (hk_buckets tk))" using that rows(2) by (metis image_eqI set_map)
    then show ?thesis using assms(1) by (auto simp: hk_inv_def)
  qed
  ultimately show ?thesis using h rows(3,4) assms(1)
    by (auto simp: hk_inv_def hk_within_def hk_config_def)
qed

lemma rows_within_map:
  "rows_within W rows \<Longrightarrow> (\<And>b. bucket_within W b \<Longrightarrow> bucket_within W (f b)) \<Longrightarrow> rows_within W (map (map f) rows)"
  by (auto simp: rows_within_def)

lemma hk_Fading_ok:
  assumes "hk_inv tk"
  shows "\<exists>tk'. hk_Fading tk = Some tk' \<and> hk_inv tk' \<and> hk_config tk' = hk_config tk \<and>
    hk_total tk' = drop_bit 1 (hk_total tk) \<and> (hk_within E W tk \<longrightarrow> hk_within E W tk') \<and>
    hk_hot tk' = drop_zero_counts (map_option (drop_bit 1) \<circ> hk_hot tk)"
proof -
  have inv: "heap_inv (hk_minHeap tk)" using assms by (simp add: hk_inv_def)
  obtain h where h: "ScaleDown (hk_minHeap tk) = Some h" "heap_inv h" "K h = K (hk_minHeap tk)"
    "hot h = drop_zero_counts (map_option (drop_bit 1) \<circ> hk_hot tk)"
    using ScaleDown_ok [OF inv] by blast
  have "all_entries (\<lambda>key c. unat c \<le> W (sum32 E key)) (hot h)" if "hk_within E W tk"
    by (rule mh.scale_entries(3) [OF inv h(1)])
      (use that in \<open>auto simp: hk_within_def simp del: One_nat_def intro: order_trans [OF unat_half_le]\<close>)
  moreover have "bucket_within W (b\<lparr>bcount := drop_bit 1 (bcount b)\<rparr>)" if "bucket_within W b" for b
    using that by (auto simp: bucket_within_def simp del: One_nat_def intro: order_trans [OF unat_half_le])
  ultimately show ?thesis using h assms
    by (auto simp: hk_Fading_def hk_inv_def hk_config_def hk_within_def intro!: rows_within_map)
qed

lemma hk_Remove_ok:
  assumes "hk_inv tk"
  shows "\<exists>tk'. hk_Remove tk key = Some tk' \<and> hk_inv tk' \<and> hk_config tk' = hk_config tk \<and>
    hk_total tk' = hk_total tk \<and> (hk_within E W tk \<longrightarrow> hk_within E W tk') \<and>
    hk_hot tk' = (hk_hot tk)(key := None)"
proof -
  have inv: "heap_inv (hk_minHeap tk)" using assms by (simp add: hk_inv_def)
  then show ?thesis using Remove_ok [OF inv, of key] assms
    by (auto simp: hk_Remove_def hk_inv_def hk_config_def hk_within_def all_entries_def)
qed

lemma hk_reset_ok:
  assumes "hk_inv tk"
  shows "hk_inv (hk_reset tk)" "hk_config (hk_reset tk) = hk_config tk" "hk_total (hk_reset tk) = 0"
    "hk_within E (\<lambda>_. 0) (hk_reset tk)" "hk_hot (hk_reset tk) = Map.empty"
  using assms heap_inv_NewHeap [of "hk_k tk"]
  by (auto simp: hk_reset_def hk_inv_def hk_config_def hk_within_def rows_within_def bucket_within_def
      empty_bucket_def all_entries_def NewHeap_def)

lemma hk_new_ok:
  shows "hk_inv (NewHeavyKeeper E k w d decay mn)" "hk_total (NewHeavyKeeper E k w d decay mn) = 0"
    "hk_within E (\<lambda>_. 0) (NewHeavyKeeper E k w d decay mn)"
    "hk_config (NewHeavyKeeper E k w d decay mn) = (k, w, d, decay, map (math_Pow E decay) [0..<LOOKUP_TABLE], mn)"
  using heap_inv_NewHeap [of k]
  by (auto simp: NewHeavyKeeper_def hk_inv_def hk_config_def hk_within_def rows_within_def bucket_within_def
      empty_bucket_def all_entries_def NewHeap_def simp del: upt.simps)

text \<open>Counts are machine words, so some bound always holds, and every operation returns.\<close>

lemma hk_within_top: "hk_within E (\<lambda>_. 2 ^ 32) tk"
proof -
  have "unat (x :: u32) \<le> 2 ^ 32" for x using unsigned_less [of x, where ?'a = nat] by simp
  then show ?thesis by (simp add: hk_within_def rows_within_def bucket_within_def all_entries_def)
qed

lemma hk_add_total:
  assumes "hk_inv tk" "hk_width tk \<noteq> 0"
  shows "\<exists>rows r mx out tk'. hk_add E tk key incr = Some (out, tk') \<and> hk_inv tk' \<and> hk_config tk' = hk_config tk \<and>
    add_rows E (hk_lookupTable tk) (hk_width tk) key incr 0 (hk_buckets tk) (hk_r tk) 0 = Some (rows, r, mx) \<and>
    hk_buckets tk' = rows \<and> hk_total tk' = hk_total tk + ucast incr \<and>
    admit_spec (hk_k tk) (hk_minCount tk) (hk_hot tk) key mx out (hk_hot tk')"
proof -
  obtain out tk' where a: "hk_add E tk key incr = Some (out, tk')" "hk_inv tk'" "hk_config tk' = hk_config tk"
    using hk_add_ok [OF assms hk_within_top, of E key incr] by blast
  obtain rows r mx where rows:
    "add_rows E (hk_lookupTable tk) (hk_width tk) key incr 0 (hk_buckets tk) (hk_r tk) 0 = Some (rows, r, mx)"
    using a(1) by (auto simp: hk_add_def split: Option.bind_splits)
  from hk_add_rows_eq [OF assms(1) rows] show ?thesis using a rows by auto
qed

section \<open>Runs of the estimator\<close>

datatype hk_op = HkAdd string u32 | HkRemove string | HkFading | HkReset | HkRestore "Item list"

fun hk_step :: "hk_env \<Rightarrow> HeavyKeeper \<Rightarrow> hk_op \<Rightarrow> HeavyKeeper option" where
  "hk_step E tk (HkAdd key incr) = map_option snd (hk_add E tk key incr)"
| "hk_step E tk (HkRemove key) = hk_Remove tk key"
| "hk_step E tk HkFading = hk_Fading tk"
| "hk_step E tk HkReset = Some (hk_reset tk)"
| "hk_step E tk (HkRestore items) = hk_Restore E tk items"

primrec hk_run :: "hk_env \<Rightarrow> HeavyKeeper \<Rightarrow> hk_op list \<Rightarrow> HeavyKeeper option" where
  "hk_run E tk [] = Some tk"
| "hk_run E tk (e # es) = (case hk_step E tk e of None \<Rightarrow> None | Some tk' \<Rightarrow> hk_run E tk' es)"

text \<open>The weight added under each fingerprint since the estimator was last reset.\<close>

definition add_weight :: "hk_env \<Rightarrow> string \<Rightarrow> u32 \<Rightarrow> (u32 \<Rightarrow> nat) \<Rightarrow> u32 \<Rightarrow> nat" where
  "add_weight E key incr W = W(sum32 E key := W (sum32 E key) + unat incr)"

primrec items_weight :: "hk_env \<Rightarrow> Item list \<Rightarrow> (u32 \<Rightarrow> nat) \<Rightarrow> u32 \<Rightarrow> nat" where
  "items_weight E [] W = W"
| "items_weight E (it # its) W = items_weight E its
     (if item_Key it = [] \<or> item_Count it = 0 then W else add_weight E (item_Key it) (item_Count it) W)"

fun op_weight :: "hk_env \<Rightarrow> hk_op \<Rightarrow> (u32 \<Rightarrow> nat) \<Rightarrow> u32 \<Rightarrow> nat" where
  "op_weight E (HkAdd key incr) W = add_weight E key incr W"
| "op_weight E (HkRemove key) W = W"
| "op_weight E HkFading W = W"
| "op_weight E HkReset W = (\<lambda>_. 0)"
| "op_weight E (HkRestore items) W = items_weight E items (\<lambda>_. 0)"

primrec run_weight :: "hk_env \<Rightarrow> hk_op list \<Rightarrow> (u32 \<Rightarrow> nat) \<Rightarrow> u32 \<Rightarrow> nat" where
  "run_weight E [] W = W"
| "run_weight E (e # es) W = run_weight E es (op_weight E e W)"

lemma hk_width_config: "hk_config tk' = hk_config tk \<Longrightarrow> hk_width tk' = hk_width tk"
  by (simp add: hk_config_def)

lemma restore_loop_ok:
  "hk_inv tk \<Longrightarrow> hk_width tk \<noteq> 0 \<Longrightarrow> hk_within E W tk \<Longrightarrow>
   \<exists>tk'. restore_loop E tk its = Some tk' \<and> hk_inv tk' \<and> hk_config tk' = hk_config tk \<and>
     hk_within E (items_weight E its W) tk'"
proof (induction its arbitrary: tk W)
  case (Cons it its)
  show ?case
  proof (cases "item_Key it = [] \<or> item_Count it = 0")
    case True
    then show ?thesis using Cons.IH [OF Cons.prems] by simp
  next
    case False
    obtain out tk1 where a: "hk_add E tk (item_Key it) (item_Count it) = Some (out, tk1)" "hk_inv tk1"
      "hk_config tk1 = hk_config tk" "hk_within E (add_weight E (item_Key it) (item_Count it) W) tk1"
      using hk_add_ok [OF Cons.prems, of "item_Key it" "item_Count it"] by (auto simp: add_weight_def)
    then show ?thesis
      using Cons.IH [OF a(2) _ a(4)] False Cons.prems(2) hk_width_config [OF a(3)] by simp
  qed
qed auto

lemma hk_step_ok:
  assumes "hk_inv tk" "hk_width tk \<noteq> 0" "hk_within E W tk"
  shows "\<exists>tk'. hk_step E tk e = Some tk' \<and> hk_inv tk' \<and> hk_config tk' = hk_config tk \<and>
    hk_within E (op_weight E e W) tk'"
proof (cases e)
  case (HkAdd key incr)
  then show ?thesis using hk_add_ok [OF assms, of key incr] by (auto simp: add_weight_def)
next
  case (HkRestore items)
  have "hk_width (hk_reset tk) \<noteq> 0" using assms(2) by (simp add: hk_reset_def)
  then show ?thesis
    using restore_loop_ok [OF hk_reset_ok(1) [OF assms(1)] _ hk_reset_ok(4) [OF assms(1)], of E items]
      hk_reset_ok(2) [OF assms(1)] by (simp add: HkRestore hk_Restore_def)
qed (use hk_Fading_ok [OF assms(1)] hk_Remove_ok [OF assms(1)] hk_reset_ok [OF assms(1)] assms(3)
    in \<open>fastforce+\<close>)

lemma hk_run_ok:
  "hk_inv tk \<Longrightarrow> hk_width tk \<noteq> 0 \<Longrightarrow> hk_within E W tk \<Longrightarrow>
   \<exists>tk'. hk_run E tk es = Some tk' \<and> hk_inv tk' \<and> hk_config tk' = hk_config tk \<and>
     hk_within E (run_weight E es W) tk'"
proof (induction es arbitrary: tk W)
  case (Cons e es)
  obtain tk1 where a: "hk_step E tk e = Some tk1" "hk_inv tk1" "hk_config tk1 = hk_config tk"
    "hk_within E (op_weight E e W) tk1"
    using hk_step_ok [OF Cons.prems] by blast
  then show ?case using Cons.IH [OF a(2) _ a(4)] Cons.prems(2) hk_width_config [OF a(3)] by simp
qed auto

lemma hk_List_ok:
  assumes "hk_inv tk"
  shows "\<exists>items. hk_List tk = Some items \<and> length items = hk_Len tk \<and> distinct (map item_Key items) \<and>
    sorted_wrt (\<lambda>a b. entry_less (item_Key b, item_Count b) (item_Key a, item_Count a)) items \<and>
    map_of (map (\<lambda>it. (item_Key it, item_Count it)) items) = hk_hot tk \<and>
    hk_Len tk \<le> unat (hk_k tk)"
proof -
  have inv: "heap_inv (hk_minHeap tk)" "K (hk_minHeap tk) = hk_k tk" using assms by (auto simp: hk_inv_def)
  obtain ns where ns: "Sorted (hk_minHeap tk) = Some ns"
    "sorted_wrt (\<lambda>a b. entry_less (entry_of b) (entry_of a)) ns" "distinct (map Key ns)"
    "map_of (map entry_of ns) = hk_hot tk" "length ns = length (Nodes (hk_minHeap tk))"
    using Sorted_ok [OF inv(1)] by blast
  have "entry_of = (\<lambda>nd. (Key nd, Count nd))" by (auto simp: entry_of_def)
  note ns' = ns [unfolded this]
  show ?thesis using ns' inv mh.len_spec [OF inv(1)]
    by (auto simp: hk_List_def hk_Len_def Len_def sorted_wrt_map comp_def)
qed

section \<open>Restoring a hot set\<close>

text \<open>The bucket a key is counted in. A set of keys is separated when their fingerprints differ and each
  has a row where no other key of the set shares its bucket.\<close>

definition lands :: "hk_env \<Rightarrow> u32 \<Rightarrow> nat \<Rightarrow> string \<Rightarrow> nat" where
  "lands E w i key = unat (seedSum32 E (of_nat i) key mod w)"

definition separated :: "hk_env \<Rightarrow> u32 \<Rightarrow> nat \<Rightarrow> string list \<Rightarrow> bool" where
  "separated E w d keys \<longleftrightarrow> distinct (map (sum32 E) keys) \<and>
     (\<forall>x \<in> set keys. \<exists>i < d. \<forall>y \<in> set keys. y \<noteq> x \<longrightarrow> lands E w i y \<noteq> lands E w i x)"

lemma go_max_ge: "x \<le> go_max x y" "y \<le> go_max x y"
  by (auto simp: go_max_def)

lemma add_rows_frame:
  assumes "add_rows E table w key incr i rows r mx = Some (rows', r', mx')" "j < length rows"
    "n \<noteq> lands E w (i + j) key"
  shows "rows' ! j ! n = rows ! j ! n"
  using assms
proof (induction rows arbitrary: i r mx rows' j)
  case (Cons row rows)
  obtain b r1 mx1 rows1 where s: "rows' = row[lands E w i key := b] # rows1"
    "add_rows E table w key incr (Suc i) rows r1 mx1 = Some (rows1, r', mx')"
    using Cons.prems(1) by (auto simp: lands_def Let_def split: if_splits prod.splits option.splits)
  show ?case
    using s Cons.prems(2,3) Cons.IH [OF s(2)] by (cases j) auto
qed simp

lemma add_rows_empty:
  assumes "add_rows E table w key incr i rows r mx = Some (rows', r', mx')"
    "\<forall>row \<in> set rows. length row = unat w" "rows_within W rows" "unat mx \<le> W (sum32 E key) + unat incr"
    "j < length rows" "bcount (rows ! j ! lands E w (i + j) key) = 0" "w \<noteq> 0"
  shows "incr \<le> mx'"
  using assms(1-6)
proof (induction rows arbitrary: i r mx rows' j)
  case (Cons row rows)
  obtain b r1 mx1 rows1 where s: "add_bucket E table (sum32 E key) incr (row ! lands E w i key) r mx = (b, r1, mx1)"
    "add_rows E table w key incr (Suc i) rows r1 mx1 = Some (rows1, r', mx')" "lands E w i key < length row"
    using Cons.prems(1) by (auto simp: lands_def Let_def split: if_splits prod.splits option.splits)
  have "bucket_within W (row ! lands E w i key)" using Cons.prems(3) s(3) by (auto simp: rows_within_def)
  note new = add_bucket_within [OF s(1) this Cons.prems(4)]
  show ?case
  proof (cases j)
    case 0
    then have "incr \<le> mx1" using s(1) Cons.prems(6) go_max_ge by (auto simp: add_bucket_def)
    moreover have "mx1 \<le> mx'"
      using add_rows_ok [OF assms(7), of rows W mx1 E key incr table "Suc i" r1] Cons.prems s(2) new
      by (auto simp: rows_within_def)
    ultimately show ?thesis by simp
  next
    case (Suc j')
    then show ?thesis using Cons.IH [OF s(2) _ _ _ _, of j'] Cons.prems(2,3,5,6) new by (simp add: rows_within_def)
  qed
qed simp

lemma hk_add_fresh:
  assumes inv: "hk_inv tk" "hk_width tk \<noteq> 0" "hk_within E W tk" and W: "W (sum32 E key) = 0"
    and row: "i < length (hk_buckets tk)" "bcount (hk_buckets tk ! i ! lands E (hk_width tk) i key) = 0"
    and room: "key \<notin> dom (hk_hot tk)" "card (dom (hk_hot tk)) < unat (hk_k tk)"
  shows "\<exists>out tk'. hk_add E tk key c = Some (out, tk') \<and> hk_inv tk' \<and> hk_config tk' = hk_config tk \<and>
    hk_within E (add_weight E key c W) tk' \<and>
    hk_hot tk' = (if hk_minCount tk \<le> c then (hk_hot tk)(key \<mapsto> c) else hk_hot tk) \<and>
    (\<forall>i < length (hk_buckets tk). \<forall>n. n \<noteq> lands E (hk_width tk) i key \<longrightarrow>
       hk_buckets tk' ! i ! n = hk_buckets tk ! i ! n)"
proof -
  have rows_ok: "\<forall>row \<in> set (hk_buckets tk). length row = unat (hk_width tk)" "rows_within W (hk_buckets tk)"
    using inv by (auto simp: hk_inv_def hk_within_def)
  obtain out tk' where a: "hk_add E tk key c = Some (out, tk')" "hk_inv tk'" "hk_config tk' = hk_config tk"
    "hk_within E (add_weight E key c W) tk'"
    using hk_add_ok [OF inv, of key c] by (auto simp: add_weight_def)
  obtain rows r mx where rows:
    "add_rows E (hk_lookupTable tk) (hk_width tk) key c 0 (hk_buckets tk) (hk_r tk) 0 = Some (rows, r, mx)"
    "unat mx \<le> unat c"
    using add_rows_ok [OF inv(2) rows_ok, of 0 E key c "hk_lookupTable tk" 0 "hk_r tk"] W by auto
  have "c \<le> mx" using add_rows_empty [OF rows(1) rows_ok _ row(1) _ inv(2)] row(2) by simp
  moreover have "mx \<le> c" using rows(2) by (simp add: word_le_nat_alt)
  ultimately have "mx = c" by (rule antisym [rotated])
  then have "hk_buckets tk' = rows" "admit_spec (hk_k tk) (hk_minCount tk) (hk_hot tk) key c out (hk_hot tk')"
    using hk_add_rows_eq [OF inv(1) rows(1)] a(1) by auto
  moreover from this(2) have "hk_hot tk' = (if hk_minCount tk \<le> c then (hk_hot tk)(key \<mapsto> c) else hk_hot tk)"
    using room by (auto simp: admit_spec_def upsert_spec_def split: if_splits)
  ultimately show ?thesis using a add_rows_frame [OF rows(1)] by auto
qed

definition item_entries :: "Item list \<Rightarrow> (string \<times> u32) list" where
  "item_entries items = map (\<lambda>it. (item_Key it, item_Count it)) items"

text \<open>The items \<open>Restore\<close> takes in: those that reach \<open>minCount\<close>.\<close>

abbreviation reaching :: "u32 \<Rightarrow> Item list \<Rightarrow> Item list" where
  "reaching mn items \<equiv> filter (\<lambda>it. mn \<le> item_Count it) items"

lemma restore_loop_exact:
  assumes "hk_inv tk" "hk_width tk \<noteq> 0" "hk_within E W tk"
    "distinct (map (sum32 E \<circ> item_Key) its)" "\<forall>it \<in> set its. W (sum32 E (item_Key it)) = 0"
    "\<forall>it \<in> set its. item_Key it \<noteq> [] \<and> item_Count it \<noteq> 0 \<and> item_Key it \<notin> dom (hk_hot tk)"
    "\<forall>x \<in> set its. \<exists>i < unat (hk_depth tk). bcount (hk_buckets tk ! i ! lands E (hk_width tk) i (item_Key x)) = 0 \<and>
       (\<forall>y \<in> set its. y \<noteq> x \<longrightarrow> lands E (hk_width tk) i (item_Key y) \<noteq> lands E (hk_width tk) i (item_Key x))"
    "card (dom (hk_hot tk)) + length its \<le> unat (hk_k tk)"
  shows "\<exists>tk'. restore_loop E tk its = Some tk' \<and> hk_inv tk' \<and> hk_config tk' = hk_config tk \<and>
    hk_hot tk' = hk_hot tk ++ map_of (rev (item_entries (reaching (hk_minCount tk) its)))"
  using assms
proof (induction its arbitrary: tk W)
  case Nil
  then show ?case by (simp add: item_entries_def)
next
  case (Cons it its)
  let ?w = "hk_width tk"
  obtain i where i: "i < unat (hk_depth tk)" "bcount (hk_buckets tk ! i ! lands E ?w i (item_Key it)) = 0"
    using Cons.prems(7) by auto
  have len: "length (hk_buckets tk) = unat (hk_depth tk)" using Cons.prems(1) by (simp add: hk_inv_def)
  obtain out tk1 where a: "hk_add E tk (item_Key it) (item_Count it) = Some (out, tk1)" "hk_inv tk1"
    "hk_config tk1 = hk_config tk" "hk_within E (add_weight E (item_Key it) (item_Count it) W) tk1"
    "hk_hot tk1 = (if hk_minCount tk \<le> item_Count it then (hk_hot tk)(item_Key it \<mapsto> item_Count it) else hk_hot tk)"
    "\<forall>i < length (hk_buckets tk). \<forall>n. n \<noteq> lands E ?w i (item_Key it) \<longrightarrow>
       hk_buckets tk1 ! i ! n = hk_buckets tk ! i ! n"
    using hk_add_fresh [OF Cons.prems(1-3), of "item_Key it" i "item_Count it"] Cons.prems i len by auto
  have cfg: "hk_width tk1 = ?w" "hk_depth tk1 = hk_depth tk" "hk_minCount tk1 = hk_minCount tk" "hk_k tk1 = hk_k tk"
    using a(3) by (auto simp: hk_config_def)
  have new: "it \<notin> set its" "item_Key it \<notin> item_Key ` set its" using Cons.prems(4) by auto
  have "\<forall>x \<in> set its. add_weight E (item_Key it) (item_Count it) W (sum32 E (item_Key x)) = 0"
    using Cons.prems(4,5) by (auto simp: add_weight_def) (metis comp_apply image_eqI)
  moreover have "\<forall>x \<in> set its. item_Key x \<notin> dom (hk_hot tk1)"
    using Cons.prems(6) new(2) a(5) by (auto simp: image_iff split: if_splits)
  moreover have "\<exists>i < unat (hk_depth tk). bcount (hk_buckets tk1 ! i ! lands E ?w i (item_Key x)) = 0 \<and>
       (\<forall>y \<in> set its. y \<noteq> x \<longrightarrow> lands E ?w i (item_Key y) \<noteq> lands E ?w i (item_Key x))" if x: "x \<in> set its" for x
  proof -
    obtain j where j: "j < unat (hk_depth tk)" "bcount (hk_buckets tk ! j ! lands E ?w j (item_Key x)) = 0"
      "\<forall>y \<in> set (it # its). y \<noteq> x \<longrightarrow> lands E ?w j (item_Key y) \<noteq> lands E ?w j (item_Key x)"
      using Cons.prems(7) x by (meson list.set_intros(2))
    moreover have "lands E ?w j (item_Key it) \<noteq> lands E ?w j (item_Key x)" using j(3) x new(1) by auto
    ultimately show ?thesis using a(6) len by (intro exI [of _ j]) auto
  qed
  moreover have "card (dom (hk_hot tk1)) + length its \<le> unat (hk_k tk)"
    using Cons.prems(8) a(5) by (cases "finite (dom (hk_hot tk))") (simp_all add: card_insert_if)
  ultimately obtain tk' where "restore_loop E tk1 its = Some tk'" "hk_inv tk'" "hk_config tk' = hk_config tk1"
    "hk_hot tk' = hk_hot tk1 ++ map_of (rev (item_entries (reaching (hk_minCount tk) its)))"
    using Cons.IH [OF a(2) _ a(4)] Cons.prems(2,4,6) cfg by auto
  moreover have "hk_hot tk1 ++ map_of (rev (item_entries (reaching (hk_minCount tk) its))) =
      hk_hot tk ++ map_of (rev (item_entries (reaching (hk_minCount tk) (it # its))))"
    by (simp add: a(5) item_entries_def map_add_assoc [symmetric])
  ultimately show ?case using a(1,3) Cons.prems(6) by auto
qed

lemma map_of_rev_distinct: "distinct (map fst xs) \<Longrightarrow> map_of (rev xs) = map_of xs"
  by (intro map_graph_eq) (simp add: map_of_eq_Some_iff rev_map [symmetric])

lemma hk_reset_buckets: "b \<in> set row \<Longrightarrow> row \<in> set (hk_buckets (hk_reset tk)) \<Longrightarrow> bcount b = 0"
  by (auto simp: hk_reset_def empty_bucket_def)

lemma hk_List_cong:
  assumes "hk_inv tk" "hk_inv tk'" "hk_hot tk' = hk_hot tk" shows "hk_List tk' = hk_List tk"
proof -
  obtain a where a: "hk_List tk = Some a" "distinct (map item_Key a)" "map_of (item_entries a) = hk_hot tk"
    "sorted_wrt (\<lambda>a b. entry_less (item_Key b, item_Count b) (item_Key a, item_Count a)) a"
    using hk_List_ok [OF assms(1)] by (auto simp: item_entries_def)
  obtain b where b: "hk_List tk' = Some b" "distinct (map item_Key b)" "map_of (item_entries b) = hk_hot tk"
    "sorted_wrt (\<lambda>a b. entry_less (item_Key b, item_Count b) (item_Key a, item_Count a)) b"
    using hk_List_ok [OF assms(2)] assms(3) by (auto simp: item_entries_def)
  have d: "distinct (map fst (item_entries a))" "distinct (map fst (item_entries b))"
    using a(2) b(2) by (simp_all add: item_entries_def comp_def)
  have "set (item_entries a) = set (item_entries b)"
    using map_of_eq_Some_iff [OF d(1)] map_of_eq_Some_iff [OF d(2)] a(3) b(3) by (metis subrelI subset_antisym)
  then have "mset (item_entries a) = mset (item_entries b)"
    using d by (simp add: distinct_map set_eq_iff_mset_eq_distinct)
  moreover have "sorted_wrt (\<lambda>a b. entry_less b a) (item_entries a)" "sorted_wrt (\<lambda>a b. entry_less b a) (item_entries b)"
    using a(4) b(4) by (simp_all add: item_entries_def sorted_wrt_map)
  ultimately have "item_entries a = item_entries b"
    by (intro sorted_total_unique [where P = "\<lambda>a b. entry_less b a"]) (auto simp: entry_less_def)
  moreover have "inj (\<lambda>it :: Item. (item_Key it, item_Count it))" by (auto intro!: injI Item.equality)
  ultimately have "a = b" by (auto simp: item_entries_def dest: map_injective)
  then show ?thesis using a(1) b(1) by simp
qed

section \<open>Properties\<close>

text \<open>C14: the estimator never panics and never overestimates. Whatever sequence of additions, removals,
  fadings, resets and restores runs on a new estimator of non-zero width, with whatever hash values
  and random draws, it ends; \<open>List\<close> then has at most \<open>k\<close> items with different keys, in strictly
  descending order of count and then ascending order of key, exactly the keys \<open>Contains\<close> finds, and each count is at most the weight
  added since the last reset for keys of the same fingerprint.\<close>

theorem hk_run_no_overestimate:
  assumes "w \<noteq> 0"
  shows "\<exists>tk items. hk_run E (NewHeavyKeeper E k w d decay mn) ops = Some tk \<and> hk_List tk = Some items \<and>
    length items = hk_Len tk \<and> length items \<le> unat k \<and> distinct (map item_Key items) \<and>
    sorted_wrt (\<lambda>a b. item_Count b < item_Count a \<or> (item_Count b = item_Count a \<and> item_Key a < item_Key b)) items \<and>
    (\<forall>key. hk_Contains tk key \<longleftrightarrow> key \<in> item_Key ` set items) \<and>
    (\<forall>it \<in> set items. unat (item_Count it) \<le> run_weight E ops (\<lambda>_. 0) (sum32 E (item_Key it)))"
proof -
  let ?tk0 = "NewHeavyKeeper E k w d decay mn"
  have "hk_width ?tk0 \<noteq> 0" using assms by (simp add: NewHeavyKeeper_def)
  then obtain tk where tk: "hk_run E ?tk0 ops = Some tk" "hk_inv tk" "hk_config tk = hk_config ?tk0"
    "hk_within E (run_weight E ops (\<lambda>_. 0)) tk"
    using hk_run_ok [OF hk_new_ok(1) _ hk_new_ok(3), of E k w d decay mn ops] by blast
  obtain items where items: "hk_List tk = Some items" "length items = hk_Len tk" "distinct (map item_Key items)"
    "sorted_wrt (\<lambda>a b. entry_less (item_Key b, item_Count b) (item_Key a, item_Count a)) items"
    "map_of (item_entries items) = hk_hot tk" "hk_Len tk \<le> unat (hk_k tk)"
    using hk_List_ok [OF tk(2)] by (auto simp: item_entries_def)
  have key: "hk_hot tk (item_Key it) = Some (item_Count it)" if "it \<in> set items" for it
    using that items(3) unfolding items(5) [symmetric]
    by (intro map_of_is_SomeI) (auto simp: item_entries_def comp_def)
  have "hk_Contains tk key \<longleftrightarrow> key \<in> dom (map_of (item_entries items))" for key
    using dom_hot [of "hk_minHeap tk"] items(5) by (auto simp: hk_Contains_def Contains_def)
  then have "hk_Contains tk key \<longleftrightarrow> key \<in> item_Key ` set items" for key
    by (simp add: dom_map_of_conv_image_fst item_entries_def image_image)
  moreover have "hk_k tk = k" using tk(3) by (simp add: hk_config_def NewHeavyKeeper_def)
  ultimately show ?thesis using tk items key
    by (auto simp: entry_less_def hk_within_def all_entries_def)
qed

text \<open>An environment to evaluate the estimator in: hashes by length, constant draws.\<close>

definition length_env :: hk_env where
  "length_env = \<lparr>sum32 = (\<lambda>s. of_nat (length s)), seedSum32 = (\<lambda>i s. i + of_nat (length s)),
     rand_Float64 = (\<lambda>_. Fin 0), math_Pow = (\<lambda>_ _. Fin 1)\<rparr>"

theorem hk_run_no_overestimate_witness:
  "(case hk_run length_env (NewHeavyKeeper length_env 1 8 2 (Fin 1) 1) [HkAdd ''a'' 3, HkAdd ''bc'' 4, HkFading] of
      Some tk \<Rightarrow> hk_List tk = Some [\<lparr>item_Key = ''bc'', item_Count = 2\<rparr>] | None \<Rightarrow> False) \<and>
   (\<exists>tk items. hk_run length_env (NewHeavyKeeper length_env 1 8 2 (Fin 1) 1) [HkAdd ''a'' 3, HkAdd ''bc'' 4, HkFading]
      = Some tk \<and> hk_List tk = Some items \<and> length items \<le> 1)"
proof
  show "case hk_run length_env (NewHeavyKeeper length_env 1 8 2 (Fin 1) 1) [HkAdd ''a'' 3, HkAdd ''bc'' 4, HkFading] of
      Some tk \<Rightarrow> hk_List tk = Some [\<lparr>item_Key = ''bc'', item_Count = 2\<rparr>] | None \<Rightarrow> False"
    by code_simp
  have "(8 :: u32) \<noteq> 0" by simp
  from hk_run_no_overestimate [OF this, of length_env 1 2 "Fin 1" 1 "[HkAdd ''a'' 3, HkAdd ''bc'' 4, HkFading]"]
  show "\<exists>tk items. hk_run length_env (NewHeavyKeeper length_env 1 8 2 (Fin 1) 1) [HkAdd ''a'' 3, HkAdd ''bc'' 4, HkFading]
      = Some tk \<and> hk_List tk = Some items \<and> length items \<le> 1"
    by auto
qed

lemma hk_Contains_hot: "hk_Contains tk key \<longleftrightarrow> key \<in> dom (hk_hot tk)"
  by (auto simp: hk_Contains_def Contains_def dom_hot)

text \<open>C28: \<open>add\<close> refines the admission rule. On a well-formed estimator of non-zero width it does not
  panic, adds the increment to the total modulo \<open>2 ^ 64\<close>, and with the estimate \<open>mx\<close> its rows give it leaves
  the hot set alone and reports false when \<open>mx\<close> is below \<open>minCount\<close> or below the least count of a full hot set, sets the
  count of a tracked key to \<open>mx\<close>, and otherwise lets the key in, in place of the least entry when the
  hot set is full and its count is less than \<open>mx\<close>, reporting that entry's key.\<close>

theorem hk_add_refines:
  assumes "hk_inv tk" "hk_width tk \<noteq> 0"
  shows "\<exists>rows r mx out tk'.
    add_rows E (hk_lookupTable tk) (hk_width tk) key incr 0 (hk_buckets tk) (hk_r tk) 0 = Some (rows, r, mx) \<and>
    hk_add E tk key incr = Some (out, tk') \<and> hk_inv tk' \<and> hk_config tk' = hk_config tk \<and>
    hk_buckets tk' = rows \<and> hk_total tk' = hk_total tk + ucast incr \<and>
    admit_spec (hk_k tk) (hk_minCount tk) (hk_hot tk) key mx out (hk_hot tk')"
  using hk_add_total [OF assms, of E key incr] by blast

definition one_hot :: HeavyKeeper where
  "one_hot = the (hk_run length_env (NewHeavyKeeper length_env 1 8 2 (Fin 1) 1) [HkAdd ''a'' 3])"

lemma one_hot_ok: "hk_inv one_hot" "hk_width one_hot \<noteq> 0"
proof -
  have w: "hk_width (NewHeavyKeeper length_env 1 8 2 (Fin 1) 1) = 8" by (simp add: NewHeavyKeeper_def)
  show "hk_inv one_hot" "hk_width one_hot \<noteq> 0"
    using hk_run_ok [OF hk_new_ok(1) _ hk_new_ok(3), of length_env 1 8 2 "Fin 1" 1 "[HkAdd ''a'' 3]"] w
    by (auto simp: one_hot_def hk_config_def)
qed

theorem hk_add_refines_witness:
  "(case hk_add length_env one_hot ''bc'' 4 of
      Some (out, tk') \<Rightarrow> out = (''a'', True) \<and> hk_Contains tk' ''bc'' | None \<Rightarrow> False) \<and>
   (\<exists>out tk'. hk_add length_env one_hot ''bc'' 4 = Some (out, tk') \<and> hk_inv tk')"
proof
  show "case hk_add length_env one_hot ''bc'' 4 of
      Some (out, tk') \<Rightarrow> out = (''a'', True) \<and> hk_Contains tk' ''bc'' | None \<Rightarrow> False"
    by code_simp
  show "\<exists>out tk'. hk_add length_env one_hot ''bc'' 4 = Some (out, tk') \<and> hk_inv tk'"
    using hk_add_refines [OF one_hot_ok, of length_env "''bc''" 4] by blast
qed

text \<open>C35: \<open>Add\<close> can return true for a key that is not in the top-k. When the hot set is full and the
  newcomer's estimate equals the least count, the guard before the heap lets it pass, \<open>Upsert\<close> turns it away,
  and \<open>("", true)\<close> is returned although the key is not tracked and no key was expelled.\<close>

theorem hk_add_true_untracked:
  assumes "hk_inv tk" "0 < hk_k tk" "hk_Len tk = unat (hk_k tk)" "\<not> hk_Contains tk key" "hk_minCount tk \<le> mx"
    "add_rows E (hk_lookupTable tk) (hk_width tk) key incr 0 (hk_buckets tk) (hk_r tk) 0 = Some (rows, r, mx)"
    "Min (hk_minHeap tk) = Some mx"
  shows "\<exists>tk'. hk_add E tk key incr = Some (([], True), tk') \<and> \<not> hk_Contains tk' key \<and> hk_hot tk' = hk_hot tk"
proof -
  let ?h = "hk_minHeap tk"
  have inv: "heap_inv ?h" "K ?h = hk_k tk" using assms(1) by (auto simp: hk_inv_def)
  have "Nodes ?h \<noteq> []" using assms(2,3) by (auto simp: hk_Len_def Len_def word_less_nat_alt)
  then obtain q where q: "least_entry (hot ?h) (q, mx)" using Min_ok [OF inv(1)] assms(7) by auto
  have full: "card (dom (hot ?h)) = unat (hk_k tk)" "key \<notin> dom (hot ?h)"
    using assms(3,4) mh.len_spec [OF inv(1)] by (auto simp: hk_Len_def hk_Contains_hot)
  obtain out h where h: "hk_add E tk key incr =
      Some (out, tk\<lparr>hk_buckets := rows, hk_r := r, hk_total := hk_total tk + ucast incr, hk_minHeap := h\<rparr>)"
    "admit_spec (hk_k tk) (hk_minCount tk) (hot ?h) key mx out (hot h)"
    using hk_add_rows_eq [OF assms(1,6)] by blast
  have "out = ([], True) \<and> hot h = hot ?h"
    using h(2) full assms(2,5) least_entry_unique [OF q]
    by (fastforce simp: admit_spec_def upsert_spec_def split: if_splits option.splits)
  then show ?thesis using h(1) full(2) by (auto simp: hk_Contains_hot)
qed

theorem hk_add_true_untracked_witness:
  "(case hk_add length_env one_hot ''bc'' 3 of
      Some (out, tk') \<Rightarrow> out = ([], True) \<and> \<not> hk_Contains tk' ''bc'' | None \<Rightarrow> False)"
proof -
  have "case add_rows length_env (hk_lookupTable one_hot) (hk_width one_hot) ''bc'' 3 0
      (hk_buckets one_hot) (hk_r one_hot) 0 of Some (rows, r, mx) \<Rightarrow> mx = 3 | None \<Rightarrow> False"
    by code_simp
  then obtain rows r where "add_rows length_env (hk_lookupTable one_hot) (hk_width one_hot) ''bc'' 3 0
      (hk_buckets one_hot) (hk_r one_hot) 0 = Some (rows, r, 3)"
    by (auto split: option.splits)
  moreover have "0 < hk_k one_hot" "hk_Len one_hot = unat (hk_k one_hot)" "\<not> hk_Contains one_hot ''bc''"
    "hk_minCount one_hot \<le> 3" "Min (hk_minHeap one_hot) = Some 3" by code_simp+
  ultimately show ?thesis
    using hk_add_true_untracked [OF one_hot_ok(1), of "''bc''" 3 length_env 3] by auto
qed

text \<open>What \<open>Restore\<close> makes of items whose keys do not disturb each other: exactly those that reach \<open>minCount\<close>,
  with their counts.\<close>

lemma hk_Restore_exact:
  assumes "hk_inv tk" "hk_width tk \<noteq> 0" "distinct (map item_Key items)" "length items \<le> unat (hk_k tk)"
    "separated E (hk_width tk) (unat (hk_depth tk)) (map item_Key items)"
    "\<forall>it \<in> set items. item_Key it \<noteq> [] \<and> item_Count it \<noteq> 0"
  shows "\<exists>tk'. hk_Restore E tk items = Some tk' \<and> hk_inv tk' \<and> hk_config tk' = hk_config tk \<and>
    hk_hot tk' = map_of (item_entries (reaching (hk_minCount tk) items))"
proof -
  let ?t = "hk_reset tk"
  have cfg: "hk_width ?t = hk_width tk" "hk_depth ?t = hk_depth tk" "hk_minCount ?t = hk_minCount tk" "hk_k ?t = hk_k tk"
    by (simp_all add: hk_reset_def)
  note t = hk_reset_ok [OF assms(1)]
  have empty: "bcount (hk_buckets ?t ! i ! lands E (hk_width tk) i key) = 0" if "i < unat (hk_depth tk)" for i key
  proof (rule hk_reset_buckets)
    have "i < length (hk_buckets ?t)" using that t(1) cfg by (simp add: hk_inv_def)
    then show r: "hk_buckets ?t ! i \<in> set (hk_buckets ?t)" by simp
    then have "length (hk_buckets ?t ! i) = unat (hk_width tk)" using t(1) cfg by (auto simp: hk_inv_def)
    then show "hk_buckets ?t ! i ! lands E (hk_width tk) i key \<in> set (hk_buckets ?t ! i)"
      using assms(2) by (intro nth_mem) (simp add: lands_def unat_mod unat_gt_0)
  qed
  have alone: "\<exists>i < unat (hk_depth tk). bcount (hk_buckets ?t ! i ! lands E (hk_width tk) i (item_Key x)) = 0 \<and>
      (\<forall>y \<in> set items. y \<noteq> x \<longrightarrow> lands E (hk_width tk) i (item_Key y) \<noteq> lands E (hk_width tk) i (item_Key x))"
    if "x \<in> set items" for x
  proof -
    have "item_Key x \<in> set (map item_Key items)" using that by simp
    then obtain i where i: "i < unat (hk_depth tk)" "\<forall>y \<in> set (map item_Key items). y \<noteq> item_Key x \<longrightarrow>
        lands E (hk_width tk) i y \<noteq> lands E (hk_width tk) i (item_Key x)"
      using assms(5) unfolding separated_def by blast
    moreover have "item_Key y \<noteq> item_Key x" if "y \<in> set items" "y \<noteq> x" for y
      using that \<open>x \<in> set items\<close> assms(3) by (auto simp: distinct_map inj_on_def)
    ultimately show ?thesis using empty [OF i(1)] by (intro exI [of _ i]) auto
  qed
  have "\<exists>tk'. restore_loop E ?t items = Some tk' \<and> hk_inv tk' \<and> hk_config tk' = hk_config ?t \<and>
    hk_hot tk' = hk_hot ?t ++ map_of (rev (item_entries (reaching (hk_minCount ?t) items)))"
    using assms(2,4-6) cfg t(5) alone
    by (intro restore_loop_exact [OF t(1) _ t(4)]) (auto simp: separated_def comp_def)
  moreover have "map_of (rev (item_entries (reaching (hk_minCount tk) items))) = map_of (item_entries (reaching (hk_minCount tk) items))"
    using assms(3) by (intro map_of_rev_distinct) (simp add: item_entries_def comp_def distinct_map_filter)
  ultimately show ?thesis using t(2,5) cfg by (auto simp: hk_Restore_def)
qed

text \<open>A checkpointed hot set survives a restart. \<open>Restore\<close> of the list another estimator with the
  same \<open>k\<close> reported gives an estimator that reports the same list, whatever the state it replaces,
  when the keys have different fingerprints and each is alone in its bucket in some row, and the counts reach \<open>minCount\<close>.\<close>

lemma hk_Restore_List:
  assumes "hk_inv tk" "hk_List tk = Some items" "hk_inv tk2" "hk_width tk2 \<noteq> 0" "hk_k tk2 = hk_k tk"
    "separated E (hk_width tk2) (unat (hk_depth tk2)) (map item_Key items)"
    "\<forall>it \<in> set items. item_Key it \<noteq> [] \<and> item_Count it \<noteq> 0 \<and> hk_minCount tk2 \<le> item_Count it"
  shows "\<exists>tk'. hk_Restore E tk2 items = Some tk' \<and> hk_inv tk' \<and> hk_List tk' = Some items"
proof -
  have l: "distinct (map item_Key items)" "map_of (item_entries items) = hk_hot tk" "length items \<le> unat (hk_k tk2)"
    using hk_List_ok [OF assms(1)] assms(2,5) by (auto simp: item_entries_def)
  have "reaching (hk_minCount tk2) items = items" using assms(7) by (simp add: filter_id_conv)
  then obtain tk' where "hk_Restore E tk2 items = Some tk'" "hk_inv tk'" "hk_hot tk' = hk_hot tk"
    using hk_Restore_exact [OF assms(3,4) l(1,3) assms(6)] assms(7) l(2) by auto
  then show ?thesis using hk_List_cong [OF assms(1)] assms(2) by simp
qed

text \<open>\<open>Reset\<close> gives back a new estimator: after any run, the state \<open>Reset\<close> leaves is exactly the one
  \<open>NewHeavyKeeper\<close> makes for the same parameters, the generator included.\<close>

lemma hk_reset_is_new:
  assumes "w \<noteq> 0" "hk_run E (NewHeavyKeeper E k w d decay mn) ops = Some tk"
  shows "hk_reset tk = NewHeavyKeeper E k w d decay mn"
proof -
  have "hk_width (NewHeavyKeeper E k w d decay mn) \<noteq> 0" using assms(1) by (simp add: NewHeavyKeeper_def)
  from hk_run_ok [OF hk_new_ok(1) this hk_new_ok(3), of ops]
  have tk: "hk_inv tk" "hk_config tk = hk_config (NewHeavyKeeper E k w d decay mn)"
    using assms(2) by auto
  have "map (map (\<lambda>_. empty_bucket)) (hk_buckets tk) = replicate (unat d) (replicate (unat w) empty_bucket)"
  proof (rule nth_equalityI)
    show "length (map (map (\<lambda>_. empty_bucket)) (hk_buckets tk)) = length (replicate (unat d) (replicate (unat w) empty_bucket))"
      using tk by (simp add: hk_inv_def hk_config_def NewHeavyKeeper_def)
  qed (use tk in \<open>auto simp: hk_inv_def hk_config_def NewHeavyKeeper_def map_replicate_const\<close>)
  then show ?thesis using tk(2) by (simp add: hk_reset_def hk_config_def NewHeavyKeeper_def)
qed

end
