(* ===== verification/Checkpoint.thy ===== *)
theory Checkpoint
  imports Cache_Key Heavykeeper
begin

text \<open>
  The hot-set checkpoint of \<open>src/eviction/checkpoint.go\<close>: \<open>loadCheckpoint\<close> with its checks, and
  \<open>saveCheckpoint\<close>, which writes a temporary file, syncs it, renames it over the checkpoint and syncs the
  directory. The file calls are the fields of \<open>ck_sys\<close>, over a world that is left abstract; the JSON encoder
  and decoder of \<open>encoding/json\<close> are the fields of \<open>json\<close>.

  The properties: what is loaded has been checked; the trace of a save shows that the checkpoint is replaced
  by one rename, after its whole content was written, synced and closed; and in every file system that
  meets the contract \<open>ck_files\<close> a failed save keeps the old checkpoint, and a successful one is
  loaded back. The contract is met by a file system in memory.
\<close>

section \<open>Data\<close>

abbreviation checkpointVersion :: int where
  "checkpointVersion \<equiv> 1"

record checkpoint =
  ck_Version :: int
  ck_SavedAt :: time
  ck_Items :: "Item list"

text \<open>\<open>Encode\<close> can fail, for example on a year with more than four digits; it then writes nothing. \<open>Decode\<close> returns the first value of the input and what is left of it; a second \<open>Decode\<close> reports
  \<open>io.EOF\<close> when nothing but white space is left.\<close>

record json =
  json_Encode :: "checkpoint \<Rightarrow> string option"
  json_Decode :: "string \<Rightarrow> (checkpoint \<times> string) option"
  json_EOF :: "string \<Rightarrow> bool"

record 'w ck_sys =
  ck_Open :: "string \<Rightarrow> ('w, fd) call"
  ck_Read :: "fd \<Rightarrow> nat \<Rightarrow> ('w, string) call"
  ck_Close :: "fd \<Rightarrow> ('w, unit) call"
  ck_MkdirAll :: "string \<Rightarrow> ('w, unit) call"
  ck_CreateTemp :: "string \<Rightarrow> ('w, fd \<times> string) call"
  ck_Chmod :: "fd \<Rightarrow> ('w, unit) call"
  ck_Write :: "fd \<Rightarrow> string \<Rightarrow> ('w, unit) call"
  ck_Sync :: "fd \<Rightarrow> ('w, unit) call"
  ck_Rename :: "string \<Rightarrow> string \<Rightarrow> ('w, unit) call"
  ck_Remove :: "string \<Rightarrow> ('w, unit) call"

section \<open>Loading\<close>

abbreviation load_limit :: nat where
  "load_limit \<equiv> 64 * 2 ^ 20"

definition item_ok :: "Item \<Rightarrow> bool" where
  "item_ok it \<longleftrightarrow> (\<exists>kind. ParseKey (item_Key it) = Inr kind) \<and> item_Count it \<noteq> 0"

lemma item_ok_code [code]:
  "item_ok it \<longleftrightarrow> (case ParseKey (item_Key it) of Inl _ \<Rightarrow> False | Inr _ \<Rightarrow> item_Count it \<noteq> 0)"
  by (auto simp: item_ok_def split: sum.splits)

definition check_checkpoint :: "json \<Rightarrow> u32 \<Rightarrow> string \<Rightarrow> Item list result" where
  "check_checkpoint J maxItems text =
     (case json_Decode J text of
        None \<Rightarrow> Inl (ErrMsg ''decode checkpoint'')
      | Some (stored, rest) \<Rightarrow>
          if \<not> json_EOF J rest then Inl (ErrMsg ''checkpoint contains trailing data'')
          else if ck_Version stored \<noteq> checkpointVersion \<or> unat maxItems < length (ck_Items stored)
          then Inl (ErrMsg ''unsupported or oversized checkpoint'')
          else if \<not> list_all item_ok (ck_Items stored) then Inl (ErrMsg ''invalid checkpoint item'')
          else Inr (ck_Items stored))"

text \<open>\<open>Inr None\<close>: there is no checkpoint.\<close>

definition loadCheckpoint ::
  "json \<Rightarrow> 'w ck_sys \<Rightarrow> string \<Rightarrow> u32 \<Rightarrow> 'w \<Rightarrow> (Item list option) result \<times> 'w" where
  "loadCheckpoint J C path maxItems w =
     (case ck_Open C path w of
        (Inl e, w1) \<Rightarrow> (if e = ENOENT then Inr None else Inl (Errno e), w1)
      | (Inr file, w1) \<Rightarrow>
          (case ck_Read C file load_limit w1 of
             (r, w2) \<Rightarrow>
               (case r of
                  Inl e \<Rightarrow> Inl (Errno e)
                | Inr text \<Rightarrow>
                    (case check_checkpoint J maxItems text of Inl e \<Rightarrow> Inl e | Inr items \<Rightarrow> Inr (Some items)),
                snd (ck_Close C file w2))))"

section \<open>Saving\<close>

text \<open>After the rename: the directory is synced.\<close>

definition sync_directory :: "'w ck_sys \<Rightarrow> string \<Rightarrow> 'w \<Rightarrow> unit result \<times> 'w" where
  "sync_directory C dir w =
     (case ck_Open C dir w of
        (Inl e, w1) \<Rightarrow> (Inl (Errno e), w1)
      | (Inr d, w1) \<Rightarrow>
          (case ck_Sync C d w1 of
             (Inl e, w2) \<Rightarrow> (Inl (Errno e), snd (ck_Close C d w2))
           | (Inr _, w2) \<Rightarrow> (Inr (), snd (ck_Close C d w2))))"

definition write_temporary :: "json \<Rightarrow> 'w ck_sys \<Rightarrow> fd \<Rightarrow> checkpoint \<Rightarrow> 'w \<Rightarrow> unit result \<times> 'w" where
  "write_temporary J C file stored w =
     (case ck_Chmod C file w of
        (Inl e, w1) \<Rightarrow> (Inl (Errno e), snd (ck_Close C file w1))
      | (Inr _, w1) \<Rightarrow>
          (case json_Encode J stored of
             None \<Rightarrow> (Inl (ErrMsg ''encode checkpoint''), snd (ck_Close C file w1))
           | Some text \<Rightarrow>
               (case ck_Write C file text w1 of
                  (Inl e, w2) \<Rightarrow> (Inl (Errno e), snd (ck_Close C file w2))
                | (Inr _, w2) \<Rightarrow>
                    (case ck_Sync C file w2 of
                       (Inl e, w3) \<Rightarrow> (Inl (Errno e), snd (ck_Close C file w3))
                     | (Inr _, w3) \<Rightarrow>
                         (case ck_Close C file w3 of
                            (Inl e, w4) \<Rightarrow> (Inl (Errno e), w4)
                          | (Inr _, w4) \<Rightarrow> (Inr (), w4))))))"

text \<open>\<open>defer os.Remove(temporaryPath)\<close> runs on every path once the temporary file exists.\<close>

definition saveCheckpoint ::
  "json \<Rightarrow> 'w ck_sys \<Rightarrow> string \<Rightarrow> Item list \<Rightarrow> time \<Rightarrow> 'w \<Rightarrow> unit result \<times> 'w" where
  "saveCheckpoint J C path items now w =
     (case ck_MkdirAll C (filepath_Dir path) w of
        (Inl e, w1) \<Rightarrow> (Inl (Errno e), w1)
      | (Inr _, w1) \<Rightarrow>
          (case ck_CreateTemp C (filepath_Dir path) w1 of
             (Inl e, w2) \<Rightarrow> (Inl (Errno e), w2)
           | (Inr (temporary, temporaryPath), w2) \<Rightarrow>
               (case (case write_temporary J C temporary
                        \<lparr>ck_Version = checkpointVersion, ck_SavedAt = now, ck_Items = items\<rparr> w2 of
                        (Inl e, w3) \<Rightarrow> (Inl e, w3)
                      | (Inr _, w3) \<Rightarrow>
                          (case ck_Rename C temporaryPath path w3 of
                             (Inl e, w4) \<Rightarrow> (Inl (Errno e), w4)
                           | (Inr _, w4) \<Rightarrow> sync_directory C (filepath_Dir path) w4)) of
                  (r, w5) \<Rightarrow> (r, snd (ck_Remove C temporaryPath w5)))))"

section \<open>The contract of the files\<close>

text \<open>The names \<open>os.CreateTemp\<close> makes for the pattern \<open>.hot-set-*.tmp\<close>.\<close>

definition temp_name :: "string \<Rightarrow> string \<Rightarrow> bool" where
  "temp_name dir t \<longleftrightarrow> take (length dir + 10) t = dir @ ''/.hot-set-''"

text \<open>\<open>files\<close> is what a reader of a path would get, \<open>handle\<close> the path an open descriptor refers to. The laws
  say what each call changes: nothing but \<open>Write\<close> to the descriptor's own file, \<open>Rename\<close>, which moves
  the content, and \<open>Remove\<close> and \<open>CreateTemp\<close>, which touch a path of their own. Any call may fail.\<close>

locale ck_files =
  fixes C :: "'w ck_sys" and files :: "'w \<Rightarrow> string \<rightharpoonup> string" and handle :: "'w \<Rightarrow> fd \<rightharpoonup> string"
  assumes open_files: "files (snd (ck_Open C p w)) = files w"
    and open_handle: "ck_Open C p w = (Inr f, w') \<Longrightarrow> files w p \<noteq> None \<Longrightarrow> handle w' f = Some p"
    and open_missing: "ck_Open C p w = (Inl ENOENT, w') \<Longrightarrow> files w p = None"
    and read_files: "files (snd (ck_Read C f n w)) = files w"
    and read_content: "ck_Read C f n w = (Inr t, w') \<Longrightarrow> handle w f = Some p \<Longrightarrow> files w p = Some s \<Longrightarrow> t = take n s"
    and close_files: "files (snd (ck_Close C f w)) = files w"
    and mkdir_files: "files (snd (ck_MkdirAll C p w)) = files w"
    and temp_fail: "ck_CreateTemp C p w = (Inl e, w') \<Longrightarrow> files w' = files w"
    and temp_ok: "ck_CreateTemp C p w = (Inr (f, t), w') \<Longrightarrow>
      temp_name p t \<and> files w t = None \<and> files w' = (files w)(t \<mapsto> []) \<and> handle w' f = Some t"
    and chmod_files: "files (snd (ck_Chmod C f w)) = files w \<and> handle (snd (ck_Chmod C f w)) = handle w"
    and write_fail: "ck_Write C f s w = (Inl e, w') \<Longrightarrow> handle w f = Some t \<Longrightarrow> files w t \<noteq> None \<Longrightarrow>
      (\<exists>c. files w' = (files w)(t \<mapsto> c))"
    and write_ok: "ck_Write C f s w = (Inr (), w') \<Longrightarrow> handle w f = Some t \<Longrightarrow> files w t = Some c \<Longrightarrow>
      files w' = (files w)(t \<mapsto> c @ s) \<and> handle w' = handle w"
    and sync_files: "files (snd (ck_Sync C f w)) = files w \<and> handle (snd (ck_Sync C f w)) = handle w"
    and rename_fail: "ck_Rename C a b w = (Inl e, w') \<Longrightarrow> files w' = files w"
    and rename_ok: "ck_Rename C a b w = (Inr (), w') \<Longrightarrow> files w' = (files w)(a := None, b := files w a)"
    and remove_files: "files (snd (ck_Remove C p w)) = files w \<or> files (snd (ck_Remove C p w)) = (files w)(p := None)"
begin

lemma write_temporary_files:
  assumes "write_temporary J C f stored w = (r, w')" "handle w f = Some t" "files w t = Some []"
  shows "\<exists>c. files w' = (files w)(t \<mapsto> c) \<and> (r = Inr () \<longrightarrow> json_Encode J stored = Some c)"
proof -
  obtain r1 w1 where 1: "ck_Chmod C f w = (r1, w1)" by fastforce
  have same: "files w = (files w)(t \<mapsto> [])" using assms(3) by auto
  have c1: "files w1 = files w" "handle w1 = handle w" using chmod_files [of f w] 1 by auto
  show ?thesis
  proof (cases "isl r1 \<or> json_Encode J stored = None")
    case True
    then have "r \<noteq> Inr ()" "files w' = files w" using assms(1) 1 c1
      by (auto simp: write_temporary_def close_files isl_def split: sum.splits)
    then show ?thesis using same by (intro exI [of _ "[]"]) simp
  next
    case False
    then obtain u enc where r1: "r1 = Inr u" and enc: "json_Encode J stored = Some enc" by (cases r1) auto
    obtain r2 w2 where 2: "ck_Write C f enc w1 = (r2, w2)" by fastforce
    obtain r3 w3 where 3: "ck_Sync C f w2 = (r3, w3)" by fastforce
    show ?thesis
    proof (cases r2)
      case (Inl e)
      then have "r \<noteq> Inr ()" "files w' = files w2"
        using assms(1) 1 2 r1 enc by (auto simp: write_temporary_def close_files)
      moreover obtain c where "files w2 = (files w1)(t \<mapsto> c)" using write_fail [of f _ w1 e w2 t] 2 Inl c1 assms(2,3) by auto
      ultimately show ?thesis using c1 by auto
    next
      case r2: (Inr u)
      have "files w2 = (files w)(t \<mapsto> enc)"
        using write_ok [of f enc w1 w2 t "[]"] 2 r2 c1 assms(2,3) by simp
      moreover have "files w3 = files w2" using sync_files [of f w2] 3 by simp
      moreover have "w' = snd (ck_Close C f w3)"
        using assms(1) 1 2 3 r1 r2 enc by (auto simp: write_temporary_def split: sum.splits prod.splits)
      ultimately show ?thesis using enc by (auto simp: close_files)
    qed
  qed
qed

lemma sync_directory_files: "files (snd (sync_directory C d w)) = files w"
proof -
  obtain r1 w1 where 1: "ck_Open C d w = (r1, w1)" by fastforce
  have c1: "files w1 = files w" using open_files [of d w] 1 by simp
  have "files (snd (ck_Sync C f v)) = files v" for f v using sync_files by blast
  then have sync: "files v' = files v" if "ck_Sync C f v = (x, v')" for f v x v' using that by (metis snd_conv)
  show ?thesis using 1 c1
    by (auto simp: sync_directory_def close_files split: sum.splits prod.splits dest!: sync)
qed

text \<open>A save either leaves the checkpoint alone, or gives it the new content; a successful save is of
  the second kind.\<close>

lemma saveCheckpoint_files:
  assumes "saveCheckpoint J C path items now w = (r, w')" "\<not> temp_name (filepath_Dir path) path"
  defines "new \<equiv> json_Encode J \<lparr>ck_Version = checkpointVersion, ck_SavedAt = now, ck_Items = items\<rparr>"
  shows "(files w' path = files w path \<and> r \<noteq> Inr ()) \<or> (new \<noteq> None \<and> files w' path = new)"
proof -
  let ?dir = "filepath_Dir path"
  obtain r1 w1 where 1: "ck_MkdirAll C ?dir w = (r1, w1)" by fastforce
  obtain r2 w2 where 2: "ck_CreateTemp C ?dir w1 = (r2, w2)" by fastforce
  have f1: "files w1 = files w" using mkdir_files [of ?dir w] 1 by simp
  show ?thesis
  proof (cases "isl r1 \<or> isl r2")
    case True
    then have "(r \<noteq> Inr ()) \<and> (w' = w1 \<or> (\<exists>e. r2 = Inl e \<and> w' = w2))"
      using assms(1) 1 2 by (cases r1; cases r2) (auto simp: saveCheckpoint_def)
    then show ?thesis using temp_fail [of ?dir w1 _ w2] 2 f1 by auto
  next
    case False
    then obtain f t where ft: "r2 = Inr (f, t)" by (cases r2) auto
    note tmp = temp_ok [OF 2 [unfolded ft]]
    have ne: "t \<noteq> path" using tmp assms(2) by auto
    obtain r3 w3 where 3: "write_temporary J C f \<lparr>ck_Version = checkpointVersion, ck_SavedAt = now, ck_Items = items\<rparr> w2
        = (r3, w3)" by fastforce
    then obtain c where c: "files w3 = (files w2)(t \<mapsto> c)" "r3 = Inr () \<longrightarrow> new = Some c"
      using write_temporary_files [OF 3, of t] tmp by (auto simp: new_def)
    have old: "files w3 path = files w path" using c(1) tmp ne f1 by simp
    have rm: "files (snd (ck_Remove C t v)) path = files v path" for v using remove_files [of t v] ne by auto
    show ?thesis
    proof (cases r3)
      case (Inl e)
      then have "r = Inl e" "w' = snd (ck_Remove C t w3)" using assms(1) 1 2 3 ft False
        by (auto simp: saveCheckpoint_def split: sum.splits)
      then show ?thesis using rm old by auto
    next
      case r3: (Inr u)
      obtain r4 w4 where 4: "ck_Rename C t path w3 = (r4, w4)" by fastforce
      show ?thesis
      proof (cases r4)
        case (Inl e)
        then have "r = Inl (Errno e)" "w' = snd (ck_Remove C t w4)" using assms(1) 1 2 3 4 ft r3 False
          by (auto simp: saveCheckpoint_def split: sum.splits)
        then show ?thesis using rm old rename_fail [of t path w3 e w4] 4 Inl by auto
      next
        case (Inr u)
        then have "w' = snd (ck_Remove C t (snd (sync_directory C ?dir w4)))" using assms(1) 1 2 3 4 ft r3 False
          by (auto simp: saveCheckpoint_def split: sum.splits prod.splits)
        moreover have "new \<noteq> None \<and> files w4 path = new"
          using rename_ok [of t path w3 w4] 4 Inr c r3 ne by simp
        ultimately show ?thesis using rm sync_directory_files by simp
      qed
    qed
  qed
qed

lemma loadCheckpoint_content:
  assumes "loadCheckpoint J C path maxItems w = (Inr (Some items), w')" "files w path = Some s"
  shows "check_checkpoint J maxItems (take load_limit s) = Inr items"
proof -
  obtain f w1 where 1: "ck_Open C path w = (Inr f, w1)"
    using assms(1) by (auto simp: loadCheckpoint_def split: sum.splits prod.splits if_splits)
  obtain t w2 where 2: "ck_Read C f load_limit w1 = (Inr t, w2)" "check_checkpoint J maxItems t = Inr items"
    using assms(1) 1 by (auto simp: loadCheckpoint_def split: sum.splits prod.splits)
  have "files w1 = files w" using open_files [of path w] 1 by simp
  then show ?thesis using read_content [OF 2(1)] open_handle [OF 1] assms(2) 2(2) by auto
qed

lemma loadCheckpoint_reads:
  assumes "files w path = Some s"
  shows "(\<exists>e. fst (loadCheckpoint J C path maxItems w) = Inl (Errno e)) \<or>
    fst (loadCheckpoint J C path maxItems w) =
      (case check_checkpoint J maxItems (take load_limit s) of Inl e \<Rightarrow> Inl e | Inr items \<Rightarrow> Inr (Some items))"
proof -
  obtain r2 w2 where 2: "ck_Open C path w = (r2, w2)" by fastforce
  show ?thesis
  proof (cases r2)
    case (Inl e)
    then have "e \<noteq> ENOENT" using open_missing [of path w w2] 2 assms(1) by auto
    then show ?thesis using 2 Inl by (simp add: loadCheckpoint_def)
  next
    case (Inr f)
    obtain r3 w3 where 3: "ck_Read C f load_limit w2 = (r3, w3)" by fastforce
    have "files w2 = files w" using open_files [of path w] 2 by simp
    moreover have "handle w2 f = Some path" using open_handle [of path w f w2] 2 Inr assms(1) by simp
    ultimately have "r3 = Inr t \<Longrightarrow> t = take load_limit s" for t
      using read_content [of f load_limit w2 t w3 path] 3 assms(1) by simp
    then show ?thesis using 2 3 Inr by (cases r3) (simp_all add: loadCheckpoint_def)
  qed
qed

lemma loadCheckpoint_present:
  assumes "files w path = Some s" "length s \<le> load_limit" "check_checkpoint J maxItems s = Inr items"
  shows "(\<exists>e. fst (loadCheckpoint J C path maxItems w) = Inl (Errno e)) \<or>
    fst (loadCheckpoint J C path maxItems w) = Inr (Some items)"
  using loadCheckpoint_reads [OF assms(1), of J maxItems] assms(2,3) by simp

end

section \<open>A file system in memory\<close>

text \<open>Every call can be made to fail by the list of faults, one element per call.\<close>

record memory =
  mm_files :: "string \<rightharpoonup> string"
  mm_handle :: "fd \<rightharpoonup> string"
  mm_next :: nat
  mm_faults :: "bool list"

definition faulty :: "(memory \<Rightarrow> (errno + 'a) \<times> memory) \<Rightarrow> memory \<Rightarrow> (errno + 'a) \<times> memory" where
  "faulty m w =
     (let w' = w\<lparr>mm_faults := tl (mm_faults w)\<rparr>
      in if mm_faults w \<noteq> [] \<and> hd (mm_faults w) then (Inl (Eother 5), w') else m w')"

definition memory_ck :: "memory ck_sys" where
  "memory_ck =
     \<lparr>ck_Open = (\<lambda>p. faulty (\<lambda>w. (Inr (mm_next w),
        w\<lparr>mm_handle := (mm_handle w)(mm_next w \<mapsto> p), mm_next := Suc (mm_next w)\<rparr>))),
      ck_Read = (\<lambda>f n. faulty (\<lambda>w. (case mm_handle w f of
          None \<Rightarrow> (Inl (Eother 9), w)
        | Some p \<Rightarrow> (case mm_files w p of None \<Rightarrow> (Inl (Eother 21), w) | Some s \<Rightarrow> (Inr (take n s), w))))),
      ck_Close = (\<lambda>f. faulty (\<lambda>w. (Inr (), w\<lparr>mm_handle := (mm_handle w)(f := None)\<rparr>))),
      ck_MkdirAll = (\<lambda>p. faulty (\<lambda>w. (Inr (), w))),
      ck_CreateTemp = (\<lambda>p. faulty (\<lambda>w.
        let t = p @ ''/.hot-set-'' @ replicate (mm_next w) CHR ''0'' @ ''.tmp''
        in if mm_files w t \<noteq> None then (Inl (Eother 17), w)
           else (Inr (mm_next w, t), w\<lparr>mm_files := (mm_files w)(t \<mapsto> []),
                   mm_handle := (mm_handle w)(mm_next w \<mapsto> t), mm_next := Suc (mm_next w)\<rparr>))),
      ck_Chmod = (\<lambda>f. faulty (\<lambda>w. (Inr (), w))),
      ck_Write = (\<lambda>f s. faulty (\<lambda>w. (case mm_handle w f of
          None \<Rightarrow> (Inl (Eother 9), w)
        | Some p \<Rightarrow> (Inr (), w\<lparr>mm_files := (mm_files w)(p \<mapsto> (case mm_files w p of None \<Rightarrow> s | Some c \<Rightarrow> c @ s))\<rparr>)))),
      ck_Sync = (\<lambda>f. faulty (\<lambda>w. (Inr (), w))),
      ck_Rename = (\<lambda>a b. faulty (\<lambda>w. (Inr (), w\<lparr>mm_files := (mm_files w)(a := None, b := mm_files w a)\<rparr>))),
      ck_Remove = (\<lambda>p. faulty (\<lambda>w. (Inr (), w\<lparr>mm_files := (mm_files w)(p := None)\<rparr>)))\<rparr>"

interpretation mem_ck: ck_files memory_ck mm_files mm_handle
  by unfold_locales
    (auto simp: memory_ck_def faulty_def Let_def temp_name_def split: if_splits option.splits, metis map_upd_triv)

section \<open>Properties\<close>

text \<open>C30: what is loaded has been checked. When \<open>loadCheckpoint\<close> returns items there are at most
  \<open>maxItems\<close> of them, each with a valid cache key and a count that is not zero, and they are the items of a
  version 1 checkpoint that was the whole input.\<close>

theorem loadCheckpoint_checked:
  assumes "loadCheckpoint J C path maxItems w = (Inr (Some items), w')"
  shows "length items \<le> unat maxItems \<and> (\<forall>it \<in> set items. item_Count it \<noteq> 0 \<and> ParseKey (item_Key it) \<in> range Inr) \<and>
    (\<exists>src stored rest. json_Decode J src = Some (stored, rest) \<and> json_EOF J rest \<and>
       ck_Version stored = 1 \<and> ck_Items stored = items)"
proof -
  obtain src where t: "check_checkpoint J maxItems src = Inr items"
    using assms by (auto simp: loadCheckpoint_def split: sum.splits prod.splits if_splits)
  then obtain stored rest where "json_Decode J src = Some (stored, rest)" "json_EOF J rest"
    "ck_Version stored = 1" "ck_Items stored = items" "length items \<le> unat maxItems" "list_all item_ok items"
    by (auto simp: check_checkpoint_def split: option.splits if_splits)
  then show ?thesis by (auto simp: list_all_iff item_ok_def)
qed

definition one_item :: "Item list" where
  "one_item = [\<lparr>item_Key = key_of ContentCAS (replicate 64 CHR ''a''), item_Count = 2\<rparr>]"

lemma one_item_ok: "\<forall>it \<in> set one_item. item_ok it"
proof -
  have "digest (replicate 64 CHR ''a'')" by code_simp
  then show ?thesis by (auto simp: one_item_def item_ok_def ParseKey_key_of)
qed

definition one_json :: json where
  "one_json = \<lparr>json_Encode = (\<lambda>_. Some ''{}''),
     json_Decode = (\<lambda>s. if s = ''{}'' then Some (\<lparr>ck_Version = 1, ck_SavedAt = 5, ck_Items = one_item\<rparr>, []) else None),
     json_EOF = (\<lambda>s. s = [])\<rparr>"

definition empty_memory :: "bool list \<Rightarrow> memory" where
  "empty_memory faults = \<lparr>mm_files = Map.empty, mm_handle = Map.empty, mm_next = 3, mm_faults = faults\<rparr>"

lemma save_one: "fst (saveCheckpoint one_json memory_ck ''/s/hot-set.json'' one_item 5 (empty_memory [])) = Inr ()"
  by code_simp

lemma not_temp_path: "\<not> temp_name (filepath_Dir ''/s/hot-set.json'') ''/s/hot-set.json''"
  by code_simp

theorem loadCheckpoint_checked_witness:
  "\<exists>items w'. loadCheckpoint one_json memory_ck ''/c'' 10 \<lparr>mm_files = [''/c'' \<mapsto> ''{}''], mm_handle = Map.empty,
     mm_next = 3, mm_faults = []\<rparr> = (Inr (Some items), w') \<and> length items \<le> 10"
proof -
  let ?w = "\<lparr>mm_files = [''/c'' \<mapsto> ''{}''], mm_handle = Map.empty, mm_next = 3, mm_faults = []\<rparr>"
  have "list_all item_ok one_item" "length one_item \<le> 10" using one_item_ok by (simp_all add: list_all_iff one_item_def)
  then have "fst (loadCheckpoint one_json memory_ck ''/c'' 10 ?w) = Inr (Some one_item)"
    by (simp add: loadCheckpoint_def memory_ck_def faulty_def Let_def check_checkpoint_def one_json_def)
  then obtain w' where "loadCheckpoint one_json memory_ck ''/c'' 10 ?w = (Inr (Some one_item), w')"
    by (metis prod.collapse)
  with loadCheckpoint_checked [OF this] show ?thesis by auto
qed

text \<open>C17: a checkpoint is replaced atomically. In every file system that meets the contract, whatever
  calls fail, a run of \<open>saveCheckpoint\<close> that returns an error leaves the checkpoint with its old content or
  gives it the complete new one, and a run that returns nil gives it the new one; there is no state in between.\<close>

theorem saveCheckpoint_atomic:
  assumes "ck_files C files handle" "saveCheckpoint J C path items now w = (r, w')" "\<not> temp_name (filepath_Dir path) path"
  shows "(r \<noteq> Inr () \<and> files w' path = files w path) \<or>
    (\<exists>enc. json_Encode J \<lparr>ck_Version = 1, ck_SavedAt = now, ck_Items = items\<rparr> = Some enc \<and> files w' path = Some enc)"
  using ck_files.saveCheckpoint_files [OF assms] by auto

theorem saveCheckpoint_atomic_witness:
  "\<exists>r w'. saveCheckpoint one_json memory_ck ''/s/hot-set.json'' one_item 5 (empty_memory [False, False, False, False, True]) = (r, w') \<and>
     r \<noteq> Inr () \<and> mm_files w' ''/s/hot-set.json'' \<in> {None, Some ''{}''}"
proof -
  let ?w = "empty_memory [False, False, False, False, True]"
  obtain r w' where r: "saveCheckpoint one_json memory_ck ''/s/hot-set.json'' one_item 5 ?w = (r, w')" by fastforce
  have "fst (saveCheckpoint one_json memory_ck ''/s/hot-set.json'' one_item 5 ?w) \<noteq> Inr ()" by code_simp
  then show ?thesis
    using saveCheckpoint_atomic [OF mem_ck.ck_files_axioms r not_temp_path] r
    by (auto simp: empty_memory_def one_json_def)
qed

text \<open>C16: a saved checkpoint is loaded back. In every file system that meets the contract, when
  \<open>saveCheckpoint\<close> returned nil and the decoder inverts the encoder on that checkpoint, \<open>loadCheckpoint\<close> of the
  same path returns the same items or the error of a file call: it never misses the file and never
  rejects what was saved, as long as the items are valid, at most \<open>maxItems\<close> and no larger than the limit.\<close>

theorem checkpoint_roundtrip:
  fixes now :: time and items :: "Item list"
  defines "stored \<equiv> \<lparr>ck_Version = 1, ck_SavedAt = now, ck_Items = items\<rparr>"
  assumes "ck_files C files handle" "saveCheckpoint J C path items now w = (Inr (), w1)"
    "\<not> temp_name (filepath_Dir path) path"
    "json_Encode J stored = Some enc" "json_Decode J enc = Some (stored, rest)" "json_EOF J rest"
    "length enc \<le> 64 * 2 ^ 20" "length items \<le> unat maxItems" "\<forall>it \<in> set items. item_ok it"
  shows "(\<exists>e. fst (loadCheckpoint J C path maxItems w1) = Inl (Errno e)) \<or>
    fst (loadCheckpoint J C path maxItems w1) = Inr (Some items)"
proof -
  have "files w1 path = Some enc"
    using ck_files.saveCheckpoint_files [OF assms(2-4)] assms(5) by (auto simp: stored_def)
  moreover have "check_checkpoint J maxItems enc = Inr items"
    using assms(6-10) by (simp add: check_checkpoint_def stored_def list_all_iff)
  ultimately show ?thesis using assms(8) by (intro ck_files.loadCheckpoint_present [OF assms(2)]) simp_all
qed

theorem checkpoint_roundtrip_witness:
  "\<exists>w1. saveCheckpoint one_json memory_ck ''/s/hot-set.json'' one_item 5 (empty_memory []) = (Inr (), w1) \<and>
     ((\<exists>e. fst (loadCheckpoint one_json memory_ck ''/s/hot-set.json'' 10 w1) = Inl (Errno e)) \<or>
      fst (loadCheckpoint one_json memory_ck ''/s/hot-set.json'' 10 w1) = Inr (Some one_item))"
proof -
  obtain w1 where w1: "saveCheckpoint one_json memory_ck ''/s/hot-set.json'' one_item 5 (empty_memory []) = (Inr (), w1)"
    using save_one by (metis prod.collapse)
  have "length one_item \<le> unat (10 :: u32)" by (simp add: one_item_def)
  then show ?thesis
    using checkpoint_roundtrip [OF mem_ck.ck_files_axioms w1 not_temp_path, of "''{}''" "[]" 10] w1 one_item_ok
    by (simp add: one_json_def)
qed

end
