(* ===== verification/Disk_Usage.thy ===== *)
theory Disk_Usage
  imports Eviction_Policy OS_Interface
begin

text \<open>
  The disk-usage probe of \<open>src/diskutil/diskutil.go\<close>: what \<open>GetDiskUsage\<close> derives from the answer of \<open>statfs\<close>, with the
  roundings of \<open>float64\<close> and the wrap-around of \<open>uint64\<close>. The reported percentage lies between 0 and 100.
\<close>

section \<open>Disk usage\<close>

record statfs =
  Blocks :: u64
  Bavail :: u64
  Bsize :: int \<comment> \<open>\<open>int64\<close>\<close>

text \<open>The system call is the first argument; the result is the percentage of free blocks and the free and used bytes.\<close>

definition GetDiskUsage :: "(string \<Rightarrow> ('w, statfs) call) \<Rightarrow> string \<Rightarrow> 'w \<Rightarrow> (float64 \<times> u64 \<times> u64) result \<times> 'w" where
  "GetDiskUsage sys_statfs path w =
     (case sys_statfs path w of
        (Inl err, w') \<Rightarrow> (Inl (Errno err), w')
      | (Inr stat, w') \<Rightarrow>
          if Blocks stat = 0 then (Inl (ErrMsg ''filesystem reports zero blocks''), w')
          else let percentBlocksFree =
                     fmul (fdiv (float_of_u64 (Bavail stat)) (float_of_u64 (Blocks stat))) (Fin 100);
                   bytesFree = Bavail stat * word_of_int (Bsize stat);
                   bytesUsed = (Blocks stat - Bavail stat) * word_of_int (Bsize stat)
               in (Inr (percentBlocksFree, bytesFree, bytesUsed), w'))"

section \<open>Property\<close>

text \<open>C34: the percentage of free blocks that \<open>GetDiskUsage\<close> reports is a finite number between 0 and
  100 whenever the kernel reports no more available blocks than blocks, after all three float
  roundings, and the two byte counts add up to the size of the filesystem modulo \<open>2 ^ 64\<close>.\<close>

theorem GetDiskUsage_bounds:
  assumes "sys_statfs path w = (Inr st, w')" "Bavail st \<le> Blocks st" "Blocks st \<noteq> 0"
  shows "\<exists>x free used. GetDiskUsage sys_statfs path w = (Inr (Fin x, free, used), w') \<and> 0 \<le> x \<and> x \<le> 100 \<and>
           free + used = Blocks st * word_of_int (Bsize st)"
proof -
  obtain q where q: "fdiv (float_of_u64 (Bavail st)) (float_of_u64 (Blocks st)) = Fin q" "0 \<le> q" "q \<le> 1"
    using fdiv_unit_interval [OF assms(2,3)] by blast
  then obtain x where "round64 (q * 100) = Fin x" "0 \<le> x" "x \<le> 100"
    using round64_unit_interval [of "q * 100" 100] by auto
  moreover have "Bavail st * word_of_int (Bsize st) + (Blocks st - Bavail st) * word_of_int (Bsize st)
      = Blocks st * word_of_int (Bsize st)"
    by (simp add: algebra_simps)
  ultimately show ?thesis using q assms(1,3) by (simp add: GetDiskUsage_def Let_def)
qed

theorem GetDiskUsage_bounds_witness:
  "\<exists>x free used. GetDiskUsage (\<lambda>_ w. (Inr \<lparr>Blocks = 1000, Bavail = 300, Bsize = 4096\<rparr>, w)) ''/'' () = (Inr (Fin x, free, used), ())
     \<and> 0 \<le> x \<and> x \<le> 100 \<and> free + used = (4096000 :: u64)"
  using GetDiskUsage_bounds [of "\<lambda>_ w. (Inr \<lparr>Blocks = 1000, Bavail = 300, Bsize = 4096\<rparr>, w)" "''/''" "()"
      "\<lparr>Blocks = 1000, Bavail = 300, Bsize = 4096\<rparr>" "()"] by simp

end
