(* ===== verification/Notify_State.thy ===== *)
theory Notify_State
  imports Eviction_Policy Activity_Lease Inotify Checkpoint Disk_Usage
begin

text \<open>
  The state of the eviction manager, \<open>Notify\<close> of \<open>src/eviction/notify.go\<close>, its configuration and its
  constructor. What the manager calls is gathered in \<open>env\<close>: the system calls, the codec, the hash
  functions, \<open>sort.Slice\<close>, \<open>statfs\<close> for the disk-usage probe, and the clock; \<open>getEntries\<close> is always the
  cache's \<open>GetEntries\<close>, whose walks are bounded in depth by \<open>e_depth\<close>. The observer only receives
  calls, so it is the list of the calls it received (\<open>obs\<close>).
\<close>

datatype obs =
    SetDisk u64 u64
  | SetCacheBytes int
  | SetReady bool
  | RecordAccess EntryKind
  | RecordClose EntryKind
  | RecordProjected int
  | RecordDeleted EntryKind int
  | RecordSkippedActive
  | RecordFrozen string
  | RecordReconciliation

record Notify =
  n_cache :: Cache
  n_watcher :: "Watcher option"
  n_heavykeeper :: HeavyKeeper
  n_lease :: ActivityLease
  n_policy :: EvictionPolicy
  n_checkpointFile :: string
  n_observer :: "obs list"
  n_ready :: bool
  n_warmUntil :: time
  n_evicting :: bool

record 'w env =
  e_sys :: "'w sys"
  e_ino :: "'w ino_sys"
  e_ck :: "'w ck_sys"
  e_json :: json
  e_hk :: hk_env
  e_sort :: "(EntryInfo \<Rightarrow> EntryInfo \<Rightarrow> bool) \<Rightarrow> EntryInfo list \<Rightarrow> EntryInfo list"
  e_statfs :: "string \<Rightarrow> ('w, statfs) call"
  e_now :: "'w \<Rightarrow> time \<times> 'w"
  e_depth :: nat

record Config =
  cfg_CacheDir :: string
  cfg_ActivityLock :: string
  cfg_CheckpointFile :: string
  cfg_Policy :: EvictionPolicy

text \<open>The field \<open>getDiskUsage\<close>, which \<open>New\<close> sets to the probe.\<close>

definition getDiskUsage :: "'w env \<Rightarrow> string \<Rightarrow> 'w \<Rightarrow> (float64 \<times> u64 \<times> u64) result \<times> 'w" where
  "getDiskUsage E = GetDiskUsage (e_statfs E)"

definition observe :: "obs \<Rightarrow> Notify \<Rightarrow> Notify" where
  "observe ob n = n\<lparr>n_observer := n_observer n @ [ob]\<rparr>"

text \<open>The observer of a manager that was given none: every call leaves it as it is. The calls themselves are recorded in any case.\<close>

definition noopObserver :: "obs \<Rightarrow> 'o \<Rightarrow> 'o" where
  "noopObserver ob st = st"

lemma observe_simps [simp]:
  "n_cache (observe ob n) = n_cache n" "n_watcher (observe ob n) = n_watcher n"
  "n_heavykeeper (observe ob n) = n_heavykeeper n" "n_lease (observe ob n) = n_lease n"
  "n_policy (observe ob n) = n_policy n" "n_checkpointFile (observe ob n) = n_checkpointFile n"
  "n_ready (observe ob n) = n_ready n" "n_warmUntil (observe ob n) = n_warmUntil n"
  "n_evicting (observe ob n) = n_evicting n" "n_observer (observe ob n) = n_observer n @ [ob]"
  by (simp_all add: observe_def)

text \<open>The zero time of \<open>warmUntil\<close>, year 1, is before every reading of the clock.\<close>

abbreviation zero_time :: time where
  "zero_time \<equiv> - 62135596800000000000"

definition New :: "'w env \<Rightarrow> Config \<Rightarrow> 'w \<Rightarrow> Notify result \<times> 'w" where
  "New E config w =
     (case Validate (cfg_Policy config) of
        Some _ \<Rightarrow> (Inl (ErrMsg ''invalid policy''), w)
      | None \<Rightarrow>
          if cfg_CacheDir config = [] \<or> cfg_CheckpointFile config = []
          then (Inl (ErrMsg ''cache directory and checkpoint file must not be empty''), w)
          else (case NewCache (e_sys E) (cfg_CacheDir config) w of
            (Inl e, w1) \<Rightarrow> (Inl e, w1)
          | (Inr cache, w1) \<Rightarrow>
              (case NewActivityLease (cfg_ActivityLock config) of
                 Inl e \<Rightarrow> (Inl e, w1)
               | Inr lease \<Rightarrow>
                   let p = cfg_Policy config
                   in (Inr \<lparr>n_cache = cache, n_watcher = None,
                         n_heavykeeper = NewHeavyKeeper (e_hk E) (TopKCapacity p) (TopKWidth p) (TopKDepth p)
                           (TopKDecay p) (TopKMinCount p),
                         n_lease = lease, n_policy = p, n_checkpointFile = cfg_CheckpointFile config,
                         n_observer = [], n_ready = False, n_warmUntil = zero_time, n_evicting = False\<rparr>, w1))))"

definition Ready :: "Notify \<Rightarrow> bool" where
  "Ready n = n_ready n"

text \<open>What holds of every manager the constructor returns and is kept by everything it does: a valid
  policy and a well-formed estimator of non-zero width.\<close>

definition notify_ok :: "Notify \<Rightarrow> bool" where
  "notify_ok n \<longleftrightarrow> Validate (n_policy n) = None \<and> hk_inv (n_heavykeeper n) \<and> hk_width (n_heavykeeper n) \<noteq> 0"

lemma notify_ok_observe [simp]: "notify_ok (observe ob n) = notify_ok n"
  by (simp add: notify_ok_def)

lemma New_ok: "New E config w = (Inr n, w') \<Longrightarrow> notify_ok n \<and> n_policy n = cfg_Policy config \<and> \<not> n_ready n \<and> \<not> n_evicting n"
proof -
  assume "New E config w = (Inr n, w')"
  then have v: "Validate (cfg_Policy config) = None" and n: "n_policy n = cfg_Policy config" "\<not> n_ready n" "\<not> n_evicting n"
    and hk: "n_heavykeeper n = NewHeavyKeeper (e_hk E) (TopKCapacity (cfg_Policy config)) (TopKWidth (cfg_Policy config))
      (TopKDepth (cfg_Policy config)) (TopKDecay (cfg_Policy config)) (TopKMinCount (cfg_Policy config))"
    by (auto simp: New_def Let_def split: option.splits if_splits sum.splits prod.splits)
  have "TopKWidth (cfg_Policy config) \<noteq> 0" using v by (auto simp: Validate_def split: if_splits option.splits)
  then show ?thesis using v n hk_new_ok(1) by (simp add: notify_ok_def hk) (simp add: NewHeavyKeeper_def)
qed

text \<open>Directory listings are bounded as the kernel bounds them, and the depth allowed to walks is enough
  for every such tree.\<close>

definition walks_end :: "'w env \<Rightarrow> bool" where
  "walks_end E \<longleftrightarrow> bounded_reads (sys_ReadDir (e_sys E)) \<and> PATH_MAX \<le> e_depth E"

lemma GetEntries_ends: "walks_end E \<Longrightarrow> cache_ok c \<Longrightarrow> GetEntries (e_depth E) (e_sys E) c w \<noteq> None"
  by (simp add: walks_end_def GetEntries_total del: not_None_eq)

end
