(* ===== verification/Notify_Cleanup.thy ===== *)
theory Notify_Cleanup
  imports Notify_State "HOL-Library.Sublist"
begin

text \<open>
  The cleanup cycle of \<open>src/eviction/notify.go\<close>: measuring the pressure, the gates (readiness, warm-up,
  shadow mode, lease), and \<open>selectVictims\<close>, which orders the entries from cold to hot and deletes until
  both targets are met. \<open>None\<close> is a panic of the estimator or a scan deeper than its bound.

  The loop of \<open>selectVictims\<close> is split at its guards: \<open>protected\<close> is the two \<open>continue\<close> tests,
  \<open>take_victim\<close> the deletion, \<open>account\<close> the byte counts, \<open>refresh_usage\<close> the simulated or measured usage and
  \<open>judge\<close> the stop test with its confirmation.
\<close>

section \<open>Byte counts\<close>

definition totalBytes :: "EntryInfo list \<Rightarrow> int" where
  "totalBytes ents = foldl (\<lambda>t e. i64_add t (ei_Size e)) 0 ents"

definition bytesByKind :: "EntryInfo list \<Rightarrow> EntryKind \<Rightarrow> int" where
  "bytesByKind ents kind =
     foldl (\<lambda>t e. if ei_Kind e = kind then i64_add t (ei_Size e) else t) 0 ents"

section \<open>Selecting victims\<close>

definition heat_table :: "Item list \<Rightarrow> string \<rightharpoonup> u32" where
  "heat_table items = foldl (\<lambda>m it. m(item_Key it \<mapsto> item_Count it)) Map.empty items"

definition heat :: "(string \<rightharpoonup> u32) \<Rightarrow> EntryInfo \<Rightarrow> u32" where
  "heat m e = (case m (ei_Key e) of None \<Rightarrow> 0 | Some c \<Rightarrow> c)"

text \<open>The order of \<open>sort.Slice\<close>: less heat, then older, then larger.\<close>

definition victim_less :: "(string \<rightharpoonup> u32) \<Rightarrow> EntryInfo \<Rightarrow> EntryInfo \<Rightarrow> bool" where
  "victim_less m a b =
     (if heat m a \<noteq> heat m b then heat m a < heat m b
      else if ei_ModTime a \<noteq> ei_ModTime b then ei_ModTime a < ei_ModTime b
      else ei_Size b < ei_Size a)"

record tally =
  t_cacheBytes :: int
  t_actionCacheBytes :: int
  t_projectedBytes :: int
  t_bytesSinceCheck :: int
  t_deletedSinceCheck :: int
  t_bytesFree :: u64
  t_bytesUsed :: u64

definition protected :: "EvictionPolicy \<Rightarrow> time \<Rightarrow> tally \<Rightarrow> EntryInfo \<Rightarrow> bool" where
  "protected p now v e \<longleftrightarrow>
     now - MinimumResidence p < ei_ModTime e \<or>
     (ei_Kind e = ActionCache \<and> i64_sub (t_actionCacheBytes v) (ei_Size e) < MinActionCacheBytes p)"

text \<open>\<open>Some (None, _)\<close>: the deletion failed and the entry is passed over.\<close>

definition take_victim :: "'w env \<Rightarrow> bool \<Rightarrow> EntryInfo \<Rightarrow> Notify \<Rightarrow> 'w \<Rightarrow> (Notify option \<times> 'w) option" where
  "take_victim E deleteEntries e n w =
     (if \<not> deleteEntries then Some (Some n, w)
      else case Delete (e_sys E) (n_cache n) e w of
        (Inl _, w1) \<Rightarrow> Some (None, w1)
      | (Inr _, w1) \<Rightarrow>
          (case hk_Remove (n_heavykeeper n) (ei_Key e) of
             None \<Rightarrow> None
           | Some tk \<Rightarrow> Some (Some (observe (RecordDeleted (ei_Kind e) (ei_Size e)) (n\<lparr>n_heavykeeper := tk\<rparr>)), w1)))"

definition account :: "bool \<Rightarrow> EntryInfo \<Rightarrow> tally \<Rightarrow> tally" where
  "account deleteEntries e v =
     v\<lparr>t_deletedSinceCheck := (if deleteEntries then t_deletedSinceCheck v + 1 else t_deletedSinceCheck v),
       t_projectedBytes := i64_add (t_projectedBytes v) (ei_Size e),
       t_bytesSinceCheck := i64_add (t_bytesSinceCheck v) (ei_Size e),
       t_cacheBytes := i64_sub (t_cacheBytes v) (ei_Size e),
       t_actionCacheBytes := (if ei_Kind e = ActionCache then i64_sub (t_actionCacheBytes v) (ei_Size e)
                              else t_actionCacheBytes v)\<rparr>"

definition simulated_percent :: "tally \<Rightarrow> float64" where
  "simulated_percent v =
     fmul (fdiv (float_of_u64 (t_bytesFree v + word_of_int (t_bytesSinceCheck v)))
             (float_of_u64 (t_bytesFree v + t_bytesUsed v))) (Fin 100)"

definition refresh_usage :: "'w env \<Rightarrow> bool \<Rightarrow> Notify \<Rightarrow> tally \<Rightarrow> 'w \<Rightarrow> (float64 \<times> tally) option \<times> 'w" where
  "refresh_usage E deleteEntries n v w =
     (if deleteEntries \<and> CleanupBatchSize (n_policy n) \<le> t_deletedSinceCheck v
      then (case getDiskUsage E (diskRoot (n_cache n)) w of
              (Inl _, w1) \<Rightarrow> (None, w1)
            | (Inr (actualPercent, actualFree, actualUsed), w1) \<Rightarrow>
                (Some (actualPercent, v\<lparr>t_bytesFree := actualFree, t_bytesUsed := actualUsed,
                         t_bytesSinceCheck := 0, t_deletedSinceCheck := 0\<rparr>), w1))
      else (Some (simulated_percent v, v), w))"

text \<open>Whether the loop goes on. A stop while deleting is confirmed by a measurement; only then is
  \<open>evicting\<close> cleared.\<close>

definition judge :: "'w env \<Rightarrow> bool \<Rightarrow> float64 \<Rightarrow> tally \<Rightarrow> Notify \<Rightarrow> 'w \<Rightarrow> bool \<times> Notify \<times> 'w" where
  "judge E deleteEntries percentFree v n w =
     (if nextEvicting (n_policy n) True \<lparr>percentBlocksFree = percentFree, cacheBytes = t_cacheBytes v\<rparr>
      then (True, n, w)
      else if \<not> deleteEntries then (False, n, w)
      else (case getDiskUsage E (diskRoot (n_cache n)) w of
        (Inl _, w1) \<Rightarrow> (False, n, w1)
      | (Inr (actualPercent, _, _), w1) \<Rightarrow>
          if nextEvicting (n_policy n) True \<lparr>percentBlocksFree = actualPercent, cacheBytes = t_cacheBytes v\<rparr>
          then (True, n, w1)
          else (False, n\<lparr>n_evicting := False\<rparr>, w1)))"

primrec select_loop ::
  "'w env \<Rightarrow> time \<Rightarrow> bool \<Rightarrow> EntryInfo list \<Rightarrow> tally \<Rightarrow> Notify \<Rightarrow> 'w \<Rightarrow> (int \<times> Notify \<times> 'w) option" where
  "select_loop E now del [] v n w = Some (t_projectedBytes v, n, w)"
| "select_loop E now del (e # es) v n w =
     (if protected (n_policy n) now v e then select_loop E now del es v n w
      else case take_victim E del e n w of
        None \<Rightarrow> None
      | Some (None, w1) \<Rightarrow> select_loop E now del es v n w1
      | Some (Some n1, w1) \<Rightarrow>
          (case refresh_usage E del n1 (account del e v) w1 of
             (None, w2) \<Rightarrow> Some (t_projectedBytes (account del e v), n1, w2)
           | (Some (percentFree, v2), w2) \<Rightarrow>
               (case judge E del percentFree v2 n1 w2 of
                  (go, n2, w3) \<Rightarrow>
                    if go then select_loop E now del es v2 n2 w3
                    else Some (t_projectedBytes v2, n2, w3))))"

definition start_tally :: "EntryInfo list \<Rightarrow> u64 \<Rightarrow> u64 \<Rightarrow> tally" where
  "start_tally ents bytesFree bytesUsed =
     \<lparr>t_cacheBytes = totalBytes ents, t_actionCacheBytes = bytesByKind ents ActionCache,
      t_projectedBytes = 0, t_bytesSinceCheck = 0, t_deletedSinceCheck = 0,
      t_bytesFree = bytesFree, t_bytesUsed = bytesUsed\<rparr>"

definition selectVictims ::
  "'w env \<Rightarrow> Notify \<Rightarrow> EntryInfo list \<Rightarrow> time \<Rightarrow> u64 \<Rightarrow> u64 \<Rightarrow> bool \<Rightarrow> 'w \<Rightarrow> (int \<times> Notify \<times> 'w) option" where
  "selectVictims E n ents0 now bytesFree bytesUsed deleteEntries w =
     (case hk_List (n_heavykeeper n) of
        None \<Rightarrow> None
      | Some items \<Rightarrow>
          let ents = e_sort E (victim_less (heat_table items)) ents0
          in select_loop E now deleteEntries ents (start_tally ents bytesFree bytesUsed) n w)"

section \<open>The cycle\<close>

text \<open>What is done under the lease.\<close>

definition cleanup_locked :: "'w env \<Rightarrow> time \<Rightarrow> Notify \<Rightarrow> 'w \<Rightarrow> (unit result \<times> Notify \<times> 'w) option" where
  "cleanup_locked E now n w =
     (case GetEntries (e_depth E) (e_sys E) (n_cache n) w of
        None \<Rightarrow> None
      | Some (Inl e, w1) \<Rightarrow> Some (Inl e, n, w1)
      | Some (Inr ents, w1) \<Rightarrow>
          (case getDiskUsage E (diskRoot (n_cache n)) w1 of
             (Inl e, w2) \<Rightarrow> Some (Inl e, n, w2)
           | (Inr (percentFree, bytesFree, bytesUsed), w2) \<Rightarrow>
               let n1 = n\<lparr>n_evicting := nextEvicting (n_policy n) (n_evicting n)
                     \<lparr>percentBlocksFree = percentFree, cacheBytes = totalBytes ents\<rparr>\<rparr>
               in if \<not> n_evicting n1 then Some (Inr (), n1, w2)
                  else (case selectVictims E n1 ents now bytesFree bytesUsed True w2 of
                    None \<Rightarrow> None
                  | Some (_, n2, w3) \<Rightarrow> Some (Inr (), n2, w3))))"

text \<open>What follows the gates: a projection in shadow mode, otherwise a deletion under the lease, which is
  released on every path.\<close>

definition cleanup_evict :: "'w env \<Rightarrow> time \<Rightarrow> EntryInfo list \<Rightarrow> u64 \<Rightarrow> u64 \<Rightarrow> Notify \<Rightarrow> 'w \<Rightarrow>
    (unit result \<times> Notify \<times> 'w) option" where
  "cleanup_evict E now ents bytesFree bytesUsed n w =
     (if Shadow (n_policy n)
      then (case selectVictims E n ents now bytesFree bytesUsed False w of
              None \<Rightarrow> None
            | Some (projected, n1, w1) \<Rightarrow> Some (Inr (), observe (RecordProjected projected) n1, w1))
      else (case TryExclusive (e_sys E) (n_lease n) w of
        (Inl e, w1) \<Rightarrow> Some (Inl e, n, w1)
      | (Inr None, w1) \<Rightarrow> Some (Inr (), observe RecordSkippedActive n, w1)
      | (Inr (Some file), w1) \<Rightarrow>
          (case cleanup_locked E now n w1 of
             None \<Rightarrow> None
           | Some (r, n1, w2) \<Rightarrow> Some (r, n1, snd (release (e_sys E) file w2)))))"

definition cleanup :: "'w env \<Rightarrow> time \<Rightarrow> Notify \<Rightarrow> 'w \<Rightarrow> (unit result \<times> Notify \<times> 'w) option" where
  "cleanup E now n0 w =
     (let n = observe (RecordProjected 0) n0
      in case GetEntries (e_depth E) (e_sys E) (n_cache n) w of
        None \<Rightarrow> None
      | Some (Inl e, w1) \<Rightarrow> Some (Inl e, n, w1)
      | Some (Inr ents, w1) \<Rightarrow>
          (case getDiskUsage E (diskRoot (n_cache n)) w1 of
             (Inl e, w2) \<Rightarrow> Some (Inl e, n, w2)
           | (Inr (percentFree, bytesFree, bytesUsed), w2) \<Rightarrow>
               let n1 = observe (SetCacheBytes (totalBytes ents)) (observe (SetDisk bytesFree bytesUsed) n);
                   n2 = n1\<lparr>n_evicting := nextEvicting (n_policy n1) (n_evicting n1)
                      \<lparr>percentBlocksFree = percentFree, cacheBytes = totalBytes ents\<rparr>\<rparr>
               in if \<not> n_evicting n2 then Some (Inr (), n2, w2)
                  else if \<not> Ready n2 then Some (Inr (), observe (RecordFrozen ''not_ready'') n2, w2)
                  else if now < n_warmUntil n2 then Some (Inr (), observe (RecordFrozen ''warmup'') n2, w2)
                  else cleanup_evict E now ents bytesFree bytesUsed n2 w2))"

section \<open>What the loop selects\<close>

text \<open>The action-cache bytes along a list of victims never go below the budget.\<close>

fun ac_budget :: "int \<Rightarrow> int \<Rightarrow> EntryInfo list \<Rightarrow> bool" where
  "ac_budget mn a [] = True"
| "ac_budget mn a (e # es) =
     (if ei_Kind e = ActionCache then mn \<le> i64_sub a (ei_Size e) \<and> ac_budget mn (i64_sub a (ei_Size e)) es
      else ac_budget mn a es)"

definition old_enough :: "EvictionPolicy \<Rightarrow> time \<Rightarrow> EntryInfo \<Rightarrow> bool" where
  "old_enough p now e \<longleftrightarrow> ei_ModTime e \<le> now - MinimumResidence p"

definition deletions :: "bool \<Rightarrow> EntryInfo list \<Rightarrow> obs list" where
  "deletions del vs = (if del then map (\<lambda>e. RecordDeleted (ei_Kind e) (ei_Size e)) vs else [])"

definition cooled :: "bool \<Rightarrow> EntryInfo list \<Rightarrow> (string \<rightharpoonup> u32) \<Rightarrow> string \<rightharpoonup> u32" where
  "cooled del vs m = (if del then m |` (- ei_Key ` set vs) else m)"

text \<open>The parts of the manager a cleanup does not touch.\<close>

definition same_setup :: "Notify \<Rightarrow> Notify \<Rightarrow> bool" where
  "same_setup n n' \<longleftrightarrow> n_cache n' = n_cache n \<and> n_watcher n' = n_watcher n \<and> n_lease n' = n_lease n \<and>
     n_policy n' = n_policy n \<and> n_checkpointFile n' = n_checkpointFile n \<and> n_ready n' = n_ready n \<and>
     n_warmUntil n' = n_warmUntil n"

lemma same_setup_refl [simp]: "same_setup n n"
  by (simp add: same_setup_def)

lemma same_setup_trans: "same_setup a b \<Longrightarrow> same_setup b c \<Longrightarrow> same_setup a c"
  by (simp add: same_setup_def)

lemma same_setup_observe [simp]:
  "same_setup n (observe ob n') = same_setup n n'" "same_setup n (n'\<lparr>n_evicting := b\<rparr>) = same_setup n n'"
  "same_setup n (n'\<lparr>n_heavykeeper := tk\<rparr>) = same_setup n n'"
  by (simp_all add: same_setup_def)

lemma take_victim_cases:
  assumes "take_victim E del e n w = Some (r, w1)" "hk_inv (n_heavykeeper n)"
  obtains "del" "r = None" "\<exists>err. Delete (e_sys E) (n_cache n) e w = (Inl err, w1)"
  | n1 where "r = Some n1" "same_setup n n1" "n_evicting n1 = n_evicting n" "hk_inv (n_heavykeeper n1)"
      "hk_config (n_heavykeeper n1) = hk_config (n_heavykeeper n)"
      "n_observer n1 = n_observer n @ deletions del [e]"
      "hk_hot (n_heavykeeper n1) = cooled del [e] (hk_hot (n_heavykeeper n))"
      "\<not> del \<longrightarrow> n1 = n \<and> w1 = w" "del \<longrightarrow> Delete (e_sys E) (n_cache n) e w = (Inr (), w1)"
proof (cases del)
  case False
  then show ?thesis using assms that(2) [of n] by (simp add: take_victim_def deletions_def cooled_def)
next
  case del: True
  obtain x w1' where d: "Delete (e_sys E) (n_cache n) e w = (x, w1')" by fastforce
  obtain tk where tk: "hk_Remove (n_heavykeeper n) (ei_Key e) = Some tk" "hk_inv tk"
    "hk_config tk = hk_config (n_heavykeeper n)" "hk_hot tk = (hk_hot (n_heavykeeper n))(ei_Key e := None)"
    using hk_Remove_ok [OF assms(2), of "ei_Key e"] by blast
  have cool: "hk_hot tk = cooled del [e] (hk_hot (n_heavykeeper n))"
    using tk(4) del by (auto simp: cooled_def restrict_map_def fun_eq_iff)
  show ?thesis
  proof (cases x)
    case (Inl err)
    then show ?thesis using assms(1) d del that(1) by (auto simp: take_victim_def)
  next
    case (Inr u)
    then have "r = Some (observe (RecordDeleted (ei_Kind e) (ei_Size e)) (n\<lparr>n_heavykeeper := tk\<rparr>))" "w1 = w1'"
      using assms(1) d del tk(1) by (auto simp: take_victim_def)
    then show ?thesis using tk cool d Inr del
      by (intro that(2) [of "observe (RecordDeleted (ei_Kind e) (ei_Size e)) (n\<lparr>n_heavykeeper := tk\<rparr>)"])
        (simp_all add: deletions_def)
  qed
qed

lemma take_victim_total:
  assumes "hk_inv (n_heavykeeper n)" shows "take_victim E del e n w \<noteq> None"
proof -
  obtain tk where "hk_Remove (n_heavykeeper n) (ei_Key e) = Some tk" using hk_Remove_ok [OF assms] by blast
  then show ?thesis by (auto simp: take_victim_def split: sum.splits prod.splits)
qed

lemma refresh_usage_tally:
  assumes "refresh_usage E del n v w = (Some (pct, v2), w2)"
  shows "t_projectedBytes v2 = t_projectedBytes v" "t_actionCacheBytes v2 = t_actionCacheBytes v"
    "t_cacheBytes v2 = t_cacheBytes v" "\<not> del \<Longrightarrow> v2 = v \<and> w2 = w \<and> pct = simulated_percent v"
  using assms by (auto simp: refresh_usage_def split: if_splits sum.splits prod.splits)

text \<open>A measurement that shows both targets met for the given cache size.\<close>

definition measured_ok :: "'w env \<Rightarrow> Notify \<Rightarrow> int \<Rightarrow> bool" where
  "measured_ok E n c \<longleftrightarrow>
     (\<exists>w1 w2 pct f u. getDiskUsage E (diskRoot (n_cache n)) w1 = (Inr (pct, f, u), w2) \<and>
        \<not> nextEvicting (n_policy n) True \<lparr>percentBlocksFree = pct, cacheBytes = c\<rparr>)"

lemma judge_cases:
  assumes "judge E del pct v n w = (go, n2, w3)"
  shows "same_setup n n2" "n_heavykeeper n2 = n_heavykeeper n" "n_observer n2 = n_observer n"
    "n_evicting n2 = n_evicting n \<or> (\<not> go \<and> \<not> n_evicting n2 \<and> measured_ok E n (t_cacheBytes v))"
    "go \<Longrightarrow> n2 = n" "\<not> del \<Longrightarrow> n2 = n \<and> w3 = w"
    "\<not> del \<Longrightarrow> go \<longleftrightarrow> nextEvicting (n_policy n) True \<lparr>percentBlocksFree = pct, cacheBytes = t_cacheBytes v\<rparr>"
proof -
  show "n_evicting n2 = n_evicting n \<or> (\<not> go \<and> \<not> n_evicting n2 \<and> measured_ok E n (t_cacheBytes v))"
    using assms unfolding judge_def measured_ok_def by (auto split: if_splits sum.splits prod.splits) blast
qed (use assms in \<open>auto simp: judge_def same_setup_def split: if_splits sum.splits prod.splits\<close>)

text \<open>The calls of \<open>Delete\<close> on the way from one state of the system to another, in order and with their results. Between them only
  the disk usage is measured.\<close>

inductive deletes :: "'w env \<Rightarrow> Cache \<Rightarrow> 'w \<Rightarrow> (EntryInfo \<times> unit result) list \<Rightarrow> 'w \<Rightarrow> bool" for E c where
  deletes_done: "deletes E c w [] w"
| deletes_call: "Delete (e_sys E) c e w = (r, w1) \<Longrightarrow> deletes E c w1 tried w' \<Longrightarrow> deletes E c w ((e, r) # tried) w'"
| deletes_measure: "getDiskUsage E (diskRoot c) w = (x, w1) \<Longrightarrow> deletes E c w1 tried w' \<Longrightarrow> deletes E c w tried w'"

definition deleted :: "(EntryInfo \<times> unit result) list \<Rightarrow> EntryInfo list" where
  "deleted tried = map fst (filter (\<lambda>(e, r). r = Inr ()) tried)"

lemma deleted_simps [simp]: "deleted [] = []" "deleted ((e, r) # tried) = (if r = Inr () then e # deleted tried else deleted tried)"
  by (simp_all add: deleted_def)

lemma refresh_usage_deletes:
  "refresh_usage E del n v w = (u, w1) \<Longrightarrow> deletes E (n_cache n) w1 tried w' \<Longrightarrow> deletes E (n_cache n) w tried w'"
  by (auto simp: refresh_usage_def intro: deletes_measure split: if_splits sum.splits prod.splits)

lemma judge_deletes:
  "judge E del pct v n w = (go, n2, w1) \<Longrightarrow> deletes E (n_cache n) w1 tried w' \<Longrightarrow> deletes E (n_cache n) w tried w'"
  by (auto simp: judge_def intro: deletes_measure split: if_splits sum.splits prod.splits)

text \<open>The outcome of the loop for a list \<open>vs\<close> of victims and the list \<open>tried\<close> of its calls of \<open>Delete\<close>, which all concern the first \<open>k\<close> entries:
  what was passed over there is too young, or an action-cache entry, or its deletion failed.\<close>

definition selected ::
  "'w env \<Rightarrow> time \<Rightarrow> bool \<Rightarrow> EntryInfo list \<Rightarrow> tally \<Rightarrow> Notify \<Rightarrow> nat \<Rightarrow> EntryInfo list \<Rightarrow> (EntryInfo \<times> unit result) list \<Rightarrow>
     int \<Rightarrow> Notify \<Rightarrow> bool" where
  "selected E now del es v n k vs tried projected n' \<longleftrightarrow>
     subseq vs (take k es) \<and> subseq (map fst tried) (take k es) \<and> (if del then vs = deleted tried else tried = []) \<and>
     (\<forall>e \<in> set (take k es). e \<in> set vs \<or> \<not> old_enough (n_policy n) now e \<or> ei_Kind e = ActionCache \<or>
        (\<exists>err. (e, Inl err) \<in> set tried)) \<and>
     (\<forall>e \<in> set vs. old_enough (n_policy n) now e) \<and>
     ac_budget (MinActionCacheBytes (n_policy n)) (t_actionCacheBytes v) vs \<and>
     projected = foldl i64_add (t_projectedBytes v) (map ei_Size vs) \<and>
     n_observer n' = n_observer n @ deletions del vs \<and>
     hk_hot (n_heavykeeper n') = cooled del vs (hk_hot (n_heavykeeper n)) \<and>
     (n_evicting n' = n_evicting n \<or>
        (\<not> n_evicting n' \<and> measured_ok E n (foldl i64_sub (t_cacheBytes v) (map ei_Size vs))))"

lemma cooled_Nil [simp]: "cooled del [] m = m"
  by (simp add: cooled_def restrict_map_def)

lemma not_protected:
  "\<not> protected p now v e \<Longrightarrow> old_enough p now e \<and>
     (ei_Kind e = ActionCache \<longrightarrow> MinActionCacheBytes p \<le> i64_sub (t_actionCacheBytes v) (ei_Size e))"
  by (auto simp: protected_def old_enough_def)

lemma protected_reason: "protected p now v e \<Longrightarrow> \<not> old_enough p now e \<or> ei_Kind e = ActionCache"
  by (auto simp: protected_def old_enough_def)

lemma selected_skip:
  assumes "selected E now del es v n k vs tried p n'" "\<not> old_enough (n_policy n) now e \<or> ei_Kind e = ActionCache"
  shows "selected E now del (e # es) v n (Suc k) vs tried p n'"
  using assms by (auto simp: selected_def intro: subseq_Cons')

lemma selected_failed:
  assumes "selected E now True es v n k vs tried p n'"
  shows "selected E now True (e # es) v n (Suc k) vs ((e, Inl err) # tried) p n'"
  using assms by (auto simp: selected_def intro: subseq_Cons')

lemma selected_stop: "selected E now del es v n 0 [] [] (t_projectedBytes v) n"
  by (simp add: selected_def deletions_def)

text \<open>One more victim in front of what the rest of the loop selects.\<close>

lemma selected_victim:
  assumes rest: "selected E now del es v2 n1 k vs tried p n'" and np: "\<not> protected (n_policy n) now v e"
    and n1: "same_setup n n1" "n_evicting n1 = n_evicting n" "n_observer n1 = n_observer n @ deletions del [e]"
      "hk_hot (n_heavykeeper n1) = cooled del [e] (hk_hot (n_heavykeeper n))"
    and v2: "t_projectedBytes v2 = t_projectedBytes (account del e v)"
      "t_actionCacheBytes v2 = t_actionCacheBytes (account del e v)" "t_cacheBytes v2 = t_cacheBytes (account del e v)"
  shows "selected E now del (e # es) v n (Suc k) (e # vs) (if del then (e, Inr ()) # tried else []) p n'"
proof -
  have "n_policy n1 = n_policy n" "n_cache n1 = n_cache n" using n1(1) by (auto simp: same_setup_def)
  moreover have "cooled del vs (cooled del [e] m) = cooled del (e # vs) m" for m
    by (auto simp: cooled_def restrict_map_def fun_eq_iff)
  moreover have "deletions del [e] @ deletions del vs = deletions del (e # vs)" by (simp add: deletions_def)
  ultimately show ?thesis
    using rest not_protected [OF np] n1(2-) v2 unfolding selected_def measured_ok_def
    by (auto simp: account_def)
qed

lemma select_loop_total: "hk_inv (n_heavykeeper n) \<Longrightarrow> select_loop E now del es v n w \<noteq> None"
proof (induction es arbitrary: v n w)
  case (Cons e es)
  show ?case
  proof (cases "protected (n_policy n) now v e")
    case False
    obtain r w1 where r: "take_victim E del e n w = Some (r, w1)"
      using take_victim_total [OF Cons.prems] by (metis not_Some_eq prod.exhaust_sel)
    from r Cons.prems show ?thesis
    proof (cases rule: take_victim_cases)
      case 1
      then show ?thesis using Cons r False by simp
    next
      case (2 n1)
      have "hk_inv (n_heavykeeper n2)" if "judge E del pct v2 n1 w2 = (go, n2, w3)" for pct v2 w2 go n2 w3
        using judge_cases(2) [OF that] 2(4) by simp
      then show ?thesis using Cons.IH False r 2(1) by (auto split: prod.splits option.splits)
    qed
  qed (use Cons in simp)
qed simp

lemma select_loop_selected:
  assumes "select_loop E now del es v n w = Some (p, n', w')" "hk_inv (n_heavykeeper n)"
  shows "\<exists>k vs tried. selected E now del es v n k vs tried p n' \<and> deletes E (n_cache n) w tried w'"
  using assms
proof (induction es arbitrary: v n w)
  case Nil
  then show ?case using selected_stop [of E now del "[]" v n] deletes_done by fastforce
next
  case (Cons e es)
  show ?case
  proof (cases "protected (n_policy n) now v e")
    case True
    then have "select_loop E now del es v n w = Some (p, n', w')" using Cons.prems(1) by simp
    from Cons.IH [OF this Cons.prems(2)] show ?thesis using selected_skip protected_reason [OF True] by blast
  next
    case False
    obtain r w1 where r: "take_victim E del e n w = Some (r, w1)"
      using take_victim_total [OF Cons.prems(2)] by (metis not_Some_eq prod.exhaust_sel)
    from r Cons.prems(2) show ?thesis
    proof (cases rule: take_victim_cases)
      case 1
      then have "select_loop E now del es v n w1 = Some (p, n', w')" using Cons.prems(1) r False by simp
      from Cons.IH [OF this Cons.prems(2)] show ?thesis using selected_failed deletes_call 1 by fastforce
    next
      case (2 n1)
      note victim = selected_victim [OF _ False 2(2,3,6,7)]
      have c: "n_cache n1 = n_cache n" using 2(2) by (simp add: same_setup_def)
      have here: ?thesis if "selected E now del es v2 n1 k vs tried p n'" "deletes E (n_cache n1) w1 tried w'"
          "t_projectedBytes v2 = t_projectedBytes (account del e v)"
          "t_actionCacheBytes v2 = t_actionCacheBytes (account del e v)" "t_cacheBytes v2 = t_cacheBytes (account del e v)" for v2 k vs tried
      proof -
        have "deletes E (n_cache n) w (if del then (e, Inr ()) # tried else []) w'"
          using that(1,2) 2(8,9) c by (auto simp: selected_def intro: deletes_call)
        then show ?thesis using victim [OF that(1,3-5)] by blast
      qed
      obtain u w2 where u: "refresh_usage E del n1 (account del e v) w1 = (u, w2)" by fastforce
      show ?thesis
      proof (cases u)
        case None
        then have "p = t_projectedBytes (account del e v)" "n' = n1" "w' = w2" using Cons.prems(1) r False 2(1) u by simp_all
        then show ?thesis
          using here [of "account del e v" 0 "[]" "[]"] refresh_usage_deletes [OF u deletes_done] selected_stop [of E now del es "account del e v" n1]
          by simp
      next
        case (Some a)
        then obtain pct v2 where a: "u = Some (pct, v2)" by (cases a) auto
        note v2 = refresh_usage_tally(1-3) [OF u [unfolded a]]
        obtain go n2 w3 where j: "judge E del pct v2 n1 w2 = (go, n2, w3)" by (metis prod_cases3)
        note jc = judge_cases [OF j]
        note on = here [OF _ refresh_usage_deletes [OF u judge_deletes [OF j]] v2]
        show ?thesis
        proof (cases go)
          case True
          then have "select_loop E now del es v2 n1 w3 = Some (p, n', w')"
            using Cons.prems(1) r False 2(1) u a j jc(5) by simp
          from Cons.IH [OF this 2(4)] show ?thesis using on by blast
        next
          case False
          then have "p = t_projectedBytes v2" "n' = n2" "w' = w3"
            using Cons.prems(1) r \<open>\<not> protected (n_policy n) now v e\<close> 2(1) u a j by simp_all
          moreover have "selected E now del es v2 n1 0 [] [] (t_projectedBytes v2) n2"
            using jc(2-4) by (auto simp: selected_def deletions_def)
          ultimately show ?thesis using on [of 0 "[]" "[]"] by (simp add: deletes_done)
        qed
      qed
    qed
  qed
qed

lemma select_loop_frame:
  assumes "select_loop E now del es v n w = Some (p, n', w')" "hk_inv (n_heavykeeper n)"
  shows "same_setup n n' \<and> hk_inv (n_heavykeeper n') \<and> hk_config (n_heavykeeper n') = hk_config (n_heavykeeper n)"
  using assms
proof (induction es arbitrary: v n w)
  case (Cons e es)
  show ?case
  proof (cases "protected (n_policy n) now v e")
    case False
    obtain r w1 where r: "take_victim E del e n w = Some (r, w1)"
      using take_victim_total [OF Cons.prems(2)] by (metis not_Some_eq prod.exhaust_sel)
    from r Cons.prems(2) show ?thesis
    proof (cases rule: take_victim_cases)
      case 1
      then show ?thesis using Cons r False by simp
    next
      case (2 n1)
      then have "n' = n1 \<or> (\<exists>pct v2 w2 go n2 w3. judge E del pct v2 n1 w2 = (go, n2, w3) \<and>
          (n' = n2 \<or> select_loop E now del es v2 n2 w3 = Some (p, n', w')))"
        using Cons.prems(1) r False by (auto split: prod.splits option.splits if_splits) blast+
      then show ?thesis
      proof (elim disjE exE conjE)
        fix pct v2 w2 go n2 w3
        assume j: "judge E del pct v2 n1 w2 = (go, n2, w3)"
          and l: "select_loop E now del es v2 n2 w3 = Some (p, n', w')"
        have hk: "n_heavykeeper n2 = n_heavykeeper n1" using judge_cases(2) [OF j] .
        have "same_setup n n2" using same_setup_trans [OF 2(2) judge_cases(1) [OF j]] .
        then show ?thesis using Cons.IH [OF l] hk 2(4,5) same_setup_trans by fastforce
      next
        fix pct v2 w2 go n2 w3
        assume j: "judge E del pct v2 n1 w2 = (go, n2, w3)" "n' = n2"
        then show ?thesis using judge_cases(1,2) [OF j(1)] 2 same_setup_trans by metis
      qed (use 2 in simp)
    qed
  qed (use Cons in simp)
qed simp

section \<open>Shadow mode\<close>

text \<open>The tally after a list of simulated victims.\<close>

definition simulate :: "tally \<Rightarrow> EntryInfo list \<Rightarrow> tally" where
  "simulate v vs = foldl (\<lambda>v e. account False e v) v vs"

definition pressure :: "EvictionPolicy \<Rightarrow> tally \<Rightarrow> bool" where
  "pressure p v = nextEvicting p True \<lparr>percentBlocksFree = simulated_percent v, cacheBytes = t_cacheBytes v\<rparr>"

lemma simulate_Cons [simp]: "simulate v (e # vs) = simulate (account False e v) vs"
  by (simp add: simulate_def)

text \<open>What a projection takes: entries in order until the simulated pressure is gone; no earlier prefix
  relieves it; and when it never is, everything was taken that is old enough and not in the
  action cache.\<close>

definition shadow_pick :: "EvictionPolicy \<Rightarrow> time \<Rightarrow> EntryInfo list \<Rightarrow> tally \<Rightarrow> EntryInfo list \<Rightarrow> bool" where
  "shadow_pick p now es v vs \<longleftrightarrow> subseq vs es \<and>
     (\<forall>us ws. vs = us @ ws \<longrightarrow> us \<noteq> [] \<longrightarrow> ws \<noteq> [] \<longrightarrow> pressure p (simulate v us)) \<and>
     ((vs \<noteq> [] \<and> \<not> pressure p (simulate v vs)) \<or>
      (\<forall>e \<in> set es. e \<in> set vs \<or> \<not> old_enough p now e \<or> ei_Kind e = ActionCache))"

lemma shadow_pick_skip:
  "shadow_pick p now es v vs \<Longrightarrow> protected p now v e \<Longrightarrow> shadow_pick p now (e # es) v vs"
  using protected_reason [of p now v e] by (auto simp: shadow_pick_def)

lemma shadow_pick_last: "\<not> pressure p (account False e v) \<Longrightarrow> shadow_pick p now (e # es) v [e]"
  by (auto simp: shadow_pick_def simulate_def Cons_eq_append_conv)

lemma shadow_pick_Cons:
  assumes "shadow_pick p now es (account False e v) vs" "pressure p (account False e v)"
  shows "shadow_pick p now (e # es) v (e # vs)"
proof -
  have "pressure p (simulate v us)" if h: "e # vs = us @ ws" "us \<noteq> []" "ws \<noteq> []" for us ws
  proof -
    obtain us' where us: "us = e # us'" "vs = us' @ ws" using h by (cases us) auto
    then show ?thesis
      using assms h(3) by (cases "us' = []") (auto simp: shadow_pick_def simulate_def)
  qed
  then show ?thesis using assms(1) by (auto simp: shadow_pick_def)
qed

lemma select_loop_shadow:
  assumes "select_loop E now False es v n w = Some (p, n', w')"
  shows "n' = n \<and> w' = w \<and> (\<exists>vs. shadow_pick (n_policy n) now es v vs \<and> p = t_projectedBytes (simulate v vs))"
  using assms
proof (induction es arbitrary: v)
  case Nil
  then show ?case by (auto intro!: exI [of _ "[]"] simp: simulate_def shadow_pick_def)
next
  case (Cons e es)
  show ?case
  proof (cases "protected (n_policy n) now v e")
    case True
    then show ?thesis using Cons shadow_pick_skip [OF _ True] by fastforce
  next
    case False
    let ?v = "account False e v"
    have step: "(if pressure (n_policy n) ?v then select_loop E now False es ?v n w
        else Some (t_projectedBytes ?v, n, w)) = Some (p, n', w')"
      using Cons.prems False by (simp add: take_victim_def refresh_usage_def judge_def pressure_def split: if_splits)
    show ?thesis
    proof (cases "pressure (n_policy n) ?v")
      case True
      then have "select_loop E now False es ?v n w = Some (p, n', w')" using step by simp
      from Cons.IH [OF this] show ?thesis using shadow_pick_Cons [OF _ True] by fastforce
    next
      case False
      then have "p = t_projectedBytes ?v" "n' = n" "w' = w" using step by auto
      then show ?thesis using shadow_pick_last [OF False] by (auto intro!: exI [of _ "[e]"] simp: simulate_def)
    qed
  qed
qed

section \<open>Traces of a cleanup\<close>

definition traced_env :: "'w env \<Rightarrow> ('w \<times> event list) env" where
  "traced_env E =
     \<lparr>e_sys = traced (e_sys E),
      e_ino = \<lparr>inotify_init1 = on_fst (inotify_init1 (e_ino E)),
         inotify_add_watch = (\<lambda>f p m. on_fst (inotify_add_watch (e_ino E) f p m)),
         inotify_rm_watch = (\<lambda>f d. on_fst (inotify_rm_watch (e_ino E) f d))\<rparr>,
      e_ck = \<lparr>ck_Open = (\<lambda>p. on_fst (ck_Open (e_ck E) p)), ck_Read = (\<lambda>f k. on_fst (ck_Read (e_ck E) f k)),
         ck_Close = (\<lambda>f. on_fst (ck_Close (e_ck E) f)), ck_MkdirAll = (\<lambda>p. on_fst (ck_MkdirAll (e_ck E) p)),
         ck_CreateTemp = (\<lambda>p. traced_call (ck_CreateTemp (e_ck E) p) (EvCreateTemp p)), ck_Chmod = (\<lambda>f. on_fst (ck_Chmod (e_ck E) f)),
         ck_Write = (\<lambda>f t. on_fst (ck_Write (e_ck E) f t)), ck_Sync = (\<lambda>f. on_fst (ck_Sync (e_ck E) f)),
         ck_Rename = (\<lambda>a b. on_fst (ck_Rename (e_ck E) a b)), ck_Remove = (\<lambda>p. traced_call (ck_Remove (e_ck E) p) (EvRemove p))\<rparr>,
      e_json = e_json E, e_hk = e_hk E, e_sort = e_sort E,
      e_statfs = (\<lambda>p. on_fst (e_statfs E p)), e_now = on_fst (e_now E), e_depth = e_depth E\<rparr>"

lemma traced_env_simps [simp]:
  "e_sys (traced_env E) = traced (e_sys E)" "e_statfs (traced_env E) p = on_fst (e_statfs E p)"
  "e_sort (traced_env E) = e_sort E" "e_depth (traced_env E) = e_depth E" "e_hk (traced_env E) = e_hk E"
  by (simp_all add: traced_env_def)

lemma getDiskUsage_traced [simp]: "getDiskUsage (traced_env E) p = on_fst (getDiskUsage E p)"
  by (rule ext) (simp add: getDiskUsage_def GetDiskUsage_def Let_def on_fst_def split: prod.split sum.split)

definition no_flock :: "event list \<Rightarrow> bool" where
  "no_flock es \<longleftrightarrow> (\<forall>e \<in> set es. case e of EvFlock _ _ _ \<Rightarrow> False | _ \<Rightarrow> True)"

text \<open>The calls of a deletion: no locks, and no file but that of an entry.\<close>

definition deleting :: "event list \<Rightarrow> bool" where
  "deleting es \<longleftrightarrow> (\<forall>e \<in> set es. case e of EvFlock _ _ _ \<Rightarrow> False | EvCreateTemp _ _ \<Rightarrow> False | EvRemove _ _ \<Rightarrow> False | _ \<Rightarrow> True)"

lemma deleting_no_flock: "deleting es \<Longrightarrow> no_flock es"
  by (auto simp: deleting_def no_flock_def split: event.splits)

lemma deleting_files: "deleting es \<Longrightarrow> temporaries es = [] \<and> removals es = []"
  by (induction es) (auto simp: deleting_def split: event.splits)

lemma on_fst_log [simp]: "on_fst m (w, tr) = (a, (w', tr')) \<longleftrightarrow> m w = (a, w') \<and> tr' = tr"
  by (auto simp: on_fst_def split: prod.splits)

text \<open>Scanning appends nothing, a deletion no lock event.\<close>

lemma on_fst_keeps_log: "keeps (\<lambda>s. snd s = tr) (on_fst m)"
  by (rule keepsI) (simp add: on_fst_def split: prod.split)

lemma KeyForPath_log: "snd (snd (KeyForPath (traced S) c path s)) = snd s"
  by (auto simp: KeyForPath_def filepath_Abs_def traced_simps on_fst_def split: sum.split prod.split option.split)

lemma Snapshot_log: "snd (snd (Snapshot (traced S) c key s)) = snd s"
  by (auto simp: Snapshot_def Let_def fileIdentity_def traced_simps on_fst_def split: sum.split prod.split)

lemma scan_fn_log:
  fixes S :: "'w sys" shows "keeps (\<lambda>s. snd (fst s) = tr) (scan_fn (traced S) c path d err)"
proof (rule keepsI)
  fix s :: "('w \<times> event list) \<times> EntryInfo list" assume tr: "snd (fst s) = tr"
  obtain r s1 where k: "KeyForPath (traced S) c path (fst s) = (r, s1)" by (rule prod.exhaust)
  then have "snd s1 = tr" using KeyForPath_log [of S c path "fst s"] tr by simp
  moreover have "snd (snd (Snapshot (traced S) c key s1)) = snd s1" for key by (rule Snapshot_log)
  ultimately have "snd s2 = tr" if "Snapshot (traced S) c key s1 = (x, s2)" for key x s2 using that by (metis snd_conv)
  then show "snd (fst (snd (scan_fn (traced S) c path d err s))) = tr" using tr k \<open>snd s1 = tr\<close>
    by (auto simp: scan_fn_def split: option.splits sum.splits prod.splits)
qed

lemma scan_store_log: "keeps_opt (\<lambda>s. snd (fst s) = tr) (scan_store n (traced S) c kind)"
  unfolding scan_store_def [abs_def] traced_simps
  by (rule WalkDir_keeps) (rule scan_fn_log, (rule keepsI, simp add: on_fst_def split: prod.split)+)

lemma scan_stores_log:
  "scan_stores n (traced S) c kinds s = Some (r, s') \<Longrightarrow> snd (fst s) = tr \<Longrightarrow> snd s' = tr"
proof (induction kinds arbitrary: s)
  case (Cons kind kinds)
  obtain x s1 where s1: "scan_store n (traced S) c kind s = Some (x, s1)"
    using Cons.prems(1) by (auto split: option.splits)
  have "snd (fst s1) = tr" by (rule keeps_optD [OF scan_store_log Cons.prems(2) s1])
  then show ?case using Cons s1 by (auto split: walk_result.splits if_splits)
qed auto

lemma GetEntries_log: "GetEntries n (traced S) c (w, tr) = Some (r, (w', tr')) \<Longrightarrow> tr' = tr"
  unfolding GetEntries_def by (drule scan_stores_log [where tr = tr]) simp_all

lemma Delete_log:
  "Delete (traced S) c snap (w, tr) = (r, (w', tr')) \<Longrightarrow> \<exists>es. tr' = tr @ es \<and> deleting es"
  by (auto simp: delete_defs trace_defs deleting_def split: sum.splits prod.splits if_splits)

lemma select_loop_log:
  assumes "select_loop (traced_env E) now del es v n (w, tr) = Some (p, n', (w', tr'))"
  shows "\<exists>mid. tr' = tr @ mid \<and> deleting mid"
  using assms
proof (induction es arbitrary: v n w tr)
  case Nil
  then show ?case by (simp add: deleting_def)
next
  case (Cons e es)
  have app: "\<exists>mid. x = tr @ mid \<and> deleting mid"
    if "\<exists>m1. y = tr @ m1 \<and> deleting m1" "\<exists>m2. x = y @ m2 \<and> deleting m2" for x y
    using that by (auto simp: deleting_def)
  show ?case
  proof (cases "protected (n_policy n) now v e")
    case True
    then show ?thesis using Cons by simp
  next
    case False
    obtain r w1 tr1 where t: "take_victim (traced_env E) del e n (w, tr) = Some (r, (w1, tr1))"
      using Cons.prems False by (auto split: option.splits)
    have "\<exists>m1. tr1 = tr @ m1 \<and> deleting m1"
      using t by (auto simp: take_victim_def deleting_def split: if_splits sum.splits prod.splits option.splits
          dest!: Delete_log [unfolded deleting_def])
    moreover have "\<exists>m2. tr' = tr1 @ m2 \<and> deleting m2"
    proof (cases r)
      case None
      then show ?thesis using Cons.IH Cons.prems False t by simp
    next
      case (Some n1)
      obtain u w2 tr2 where u: "refresh_usage (traced_env E) del n1 (account del e v) (w1, tr1) = (u, (w2, tr2))"
        by (metis prod.exhaust_sel)
      have tr2: "tr2 = tr1" using u by (auto simp: refresh_usage_def split: if_splits sum.splits prod.splits)
      show ?thesis
      proof (cases u)
        case None
        then show ?thesis using Cons.prems False t Some u tr2 by (auto simp: deleting_def)
      next
        case u': (Some a)
        obtain pct v2 where a: "a = (pct, v2)" by fastforce
        obtain go n2 w3 tr3 where j: "judge (traced_env E) del pct v2 n1 (w2, tr2) = (go, n2, (w3, tr3))"
          by (metis prod.exhaust_sel)
        have tr3: "tr3 = tr1" using j tr2 by (auto simp: judge_def split: if_splits sum.splits prod.splits)
        show ?thesis using Cons.IH [of v2 n2 w3 tr3] Cons.prems False t Some u u' a j tr3
          by (auto simp: deleting_def split: if_splits)
      qed
    qed
    ultimately show ?thesis by (rule app)
  qed
qed

lemma cleanup_locked_log:
  assumes "cleanup_locked (traced_env E) now n (w, tr) = Some (r, n', (w', tr'))"
  shows "\<exists>mid. tr' = tr @ mid \<and> deleting mid"
proof -
  obtain x w1 tr1 where x: "GetEntries (e_depth E) (traced (e_sys E)) (n_cache n) (w, tr) = Some (x, (w1, tr1))"
    using assms by (auto simp: cleanup_locked_def split: option.splits)
  have "tr1 = tr" using GetEntries_log [OF x] .
  then show ?thesis using assms x
    by (auto simp: cleanup_locked_def selectVictims_def Let_def deleting_def
        split: sum.splits prod.splits option.splits if_splits dest!: select_loop_log [unfolded deleting_def])
qed

end
