(* ===== verification/Notify_Events.thy ===== *)
theory Notify_Events
  imports Notify_Cleanup
begin

unbundle bit_operations_syntax

text \<open>
  The event side of the eviction manager, from \<open>src/eviction/notify.go\<close>: which paths are watched, how the
  watches are placed, what an inotify event does to the heat of an entry, and how the watches are
  rebuilt (\<open>reconcile\<close>). Readings of the watcher's two channels are values of \<open>chan\<close>. During a
  rebuild a second goroutine drains the channels while the cache is scanned; the scan is placed at one
  point of the sequence of drained messages, which is an argument (the scan uses no state of the
  watcher, and the drain none of the scan).

  \<open>None\<close> is a panic of the Go code, or a walk deeper than \<open>e_depth\<close>.
\<close>

abbreviation watchMask :: u32 where
  "watchMask \<equiv> InOpen OR InClose OR InCreate OR InDelete OR InMove OR InDeleteSelf OR InMoveSelf OR InDontFollow"

section \<open>Which paths are watched\<close>

text \<open>\<open>relative\<close> leads out of the root.\<close>

definition leaves_root :: "string \<Rightarrow> bool" where
  "leaves_root relative \<longleftrightarrow> relative = ''..'' \<or> take 3 relative = ''../'' \<or> IsAbs relative"

definition in_store :: "string \<Rightarrow> bool" where
  "in_store relative \<longleftrightarrow> (let first = hd (split_slash relative)
     in first = kind_string ActionCache \<or> first = kind_string ContentCAS)"

definition watchPathAllowed :: "Notify \<Rightarrow> string \<Rightarrow> bool" where
  "watchPathAllowed n path =
     (case Rel (DiskRoot (n_cache n)) (Clean path) of
        None \<Rightarrow> False
      | Some relative \<Rightarrow>
          if leaves_root relative then False
          else if relative = ''.'' then True
          else in_store relative)"

text \<open>The callback of the walk that places the watches. \<open>WalkDir\<close> passes no entry only along with an
  error.\<close>

definition watch_fn :: "'w env \<Rightarrow> Notify \<Rightarrow> ('w \<times> Watcher) walk_fn" where
  "watch_fn E n path entry err s =
     (case err of
        Some e \<Rightarrow> (WalkErr (Errno e), s)
      | None \<Rightarrow>
          (case entry of
             None \<Rightarrow> (WalkErr (ErrMsg ''no entry''), s)
           | Some d \<Rightarrow>
               (case Rel (DiskRoot (n_cache n)) path of
                  None \<Rightarrow> (SkipDir, s)
                | Some relative \<Rightarrow>
                    if leaves_root relative then (SkipDir, s)
                    else if relative \<noteq> ''.'' \<and> \<not> in_store relative
                    then (if de_IsDir d then SkipDir else WalkOk, s)
                    else if de_IsSymlink d then (if de_IsDir d then SkipDir else WalkOk, s)
                    else if \<not> de_IsDir d then (WalkOk, s)
                    else (case AddWatch (e_ino E) (snd s) path watchMask (fst s) of
                      ((Inl e, wt'), w') \<Rightarrow> (WalkErr e, (w', wt'))
                    | ((Inr _, wt'), w') \<Rightarrow> (WalkOk, (w', wt'))))))"

definition walk_error :: "walk_result \<Rightarrow> unit result" where
  "walk_error r = (case r of WalkErr e \<Rightarrow> Inl e | _ \<Rightarrow> Inr ())"

definition addDirectoryWatches :: "'w env \<Rightarrow> Notify \<Rightarrow> Watcher \<Rightarrow> string \<Rightarrow> 'w \<Rightarrow> (unit result \<times> Watcher \<times> 'w) option" where
  "addDirectoryWatches E n wt start w =
     (if \<not> watchPathAllowed n start then Some (Inr (), wt, w)
      else (case WalkDir (e_depth E) (\<lambda>p. on_fst (sys_lstat (e_sys E) p)) (\<lambda>p. on_fst (sys_ReadDir (e_sys E) p))
                   (watch_fn E n) start (w, wt) of
              None \<Rightarrow> None
            | Some (r, (w', wt')) \<Rightarrow> Some (walk_error r, wt', w')))"

section \<open>Heat from existing files\<close>

text \<open>A panic of \<open>Add\<close> leaves no estimator and ends the walk.\<close>

definition seed_fn :: "'w env \<Rightarrow> Notify \<Rightarrow> ('w \<times> HeavyKeeper option) walk_fn" where
  "seed_fn E n path entry err s =
     (case err of
        Some e \<Rightarrow> (WalkErr (Errno e), s)
      | None \<Rightarrow>
          (case entry of
             None \<Rightarrow> (WalkErr (ErrMsg ''no entry''), s)
           | Some d \<Rightarrow>
               if de_IsDir d then (WalkOk, s)
               else (case KeyForPath (e_sys E) (n_cache n) path (fst s) of
                 (Inl _, w1) \<Rightarrow> (WalkOk, (w1, snd s))
               | (Inr (key, _), w1) \<Rightarrow>
                   (case Snapshot (e_sys E) (n_cache n) key w1 of
                      (Inl _, w2) \<Rightarrow> (WalkOk, (w2, snd s))
                    | (Inr _, w2) \<Rightarrow>
                        (case snd s of
                           None \<Rightarrow> (WalkErr (ErrMsg ''panic''), (w2, None))
                         | Some tk \<Rightarrow>
                             (case hk_add (e_hk E) tk key 1 of
                                None \<Rightarrow> (WalkErr (ErrMsg ''panic''), (w2, None))
                              | Some (_, tk') \<Rightarrow> (WalkOk, (w2, Some tk'))))))))"

definition seedExistingEntries :: "'w env \<Rightarrow> Notify \<Rightarrow> string \<Rightarrow> 'w \<Rightarrow> (unit result \<times> Notify \<times> 'w) option" where
  "seedExistingEntries E n start w =
     (if \<not> watchPathAllowed n start then Some (Inr (), n, w)
      else (case WalkDir (e_depth E) (\<lambda>p. on_fst (sys_lstat (e_sys E) p)) (\<lambda>p. on_fst (sys_ReadDir (e_sys E) p))
                   (seed_fn E n) start (w, Some (n_heavykeeper n)) of
              None \<Rightarrow> None
            | Some (_, (_, None)) \<Rightarrow> None
            | Some (r, (w', Some tk)) \<Rightarrow> Some (walk_error r, n\<lparr>n_heavykeeper := tk\<rparr>, w')))"

section \<open>Events\<close>

text \<open>The event says that a watch, or what it stands for, is gone.\<close>

definition coverage_lost :: "Event \<Rightarrow> bool" where
  "coverage_lost ev \<longleftrightarrow> HasEvent ev InUnmount \<or> HasEvent ev InIgnored \<or> HasEvent ev InDeleteSelf \<or> HasEvent ev InMoveSelf"

definition handleEntryEvent :: "'w env \<Rightarrow> Notify \<Rightarrow> Event \<Rightarrow> string \<Rightarrow> EntryKind \<Rightarrow> Notify option" where
  "handleEntryEvent E n ev key kind =
     (if HasEvent ev InDelete \<or> HasEvent ev InMovedFrom
      then map_option (\<lambda>tk. n\<lparr>n_heavykeeper := tk\<rparr>) (hk_Remove (n_heavykeeper n) key)
      else let n1 = (if ev_Mask ev AND InClose \<noteq> 0 then observe (RecordClose kind) n else n)
           in if \<not> HasEvent ev InOpen \<and> \<not> HasEvent ev InMovedTo then Some n1
              else (case hk_add (e_hk E) (n_heavykeeper n1) key 1 of
                None \<Rightarrow> None
              | Some (_, tk) \<Rightarrow>
                  let n2 = n1\<lparr>n_heavykeeper := tk\<rparr>
                  in Some (if HasEvent ev InOpen then observe (RecordAccess kind) n2 else n2)))"

definition handleEvent :: "'w env \<Rightarrow> Notify \<Rightarrow> Event option \<Rightarrow> 'w \<Rightarrow> (unit result \<times> Notify \<times> 'w) option" where
  "handleEvent E n event w =
     (case event of
        None \<Rightarrow> Some (Inr (), n, w)
      | Some ev \<Rightarrow>
          if coverage_lost ev then Some (Inl (ErrMsg ''watch coverage changed''), n, w)
          else if HasEvent ev InIsdir
          then (if HasEvent ev InCreate \<or> HasEvent ev InMovedTo
                then (case n_watcher n of
                        None \<Rightarrow> None
                      | Some wt \<Rightarrow>
                          (case addDirectoryWatches E n wt (Clean (ev_Name ev)) w of
                             None \<Rightarrow> None
                           | Some (Inl e, wt', w1) \<Rightarrow> Some (Inl e, n\<lparr>n_watcher := Some wt'\<rparr>, w1)
                           | Some (Inr _, wt', w1) \<Rightarrow>
                               seedExistingEntries E (n\<lparr>n_watcher := Some wt'\<rparr>) (Clean (ev_Name ev)) w1))
                else Some (Inr (), n, w))
          else (case KeyForPath (e_sys E) (n_cache n) (ev_Name ev) w of
            (Inl _, w1) \<Rightarrow> Some (Inr (), n, w1)
          | (Inr (key, kind), w1) \<Rightarrow>
              map_option (\<lambda>n'. (Inr (), n', w1)) (handleEntryEvent E n ev key kind)))"

section \<open>Rebuilding the watches\<close>

datatype chan = EventMsg "Event option" | EventClosed | ErrorMsg watcher_error | ErrorClosed

definition handleReconciliationEvent ::
  "'w env \<Rightarrow> Notify \<Rightarrow> Watcher \<Rightarrow> Event option \<Rightarrow> 'w \<Rightarrow> (unit result \<times> Watcher \<times> 'w) option" where
  "handleReconciliationEvent E n wt event w =
     (case event of
        None \<Rightarrow> Some (Inr (), wt, w)
      | Some ev \<Rightarrow>
          if coverage_lost ev then Some (Inl (ErrMsg ''watch coverage changed during reconciliation''), wt, w)
          else if HasEvent ev InIsdir \<and> (HasEvent ev InCreate \<or> HasEvent ev InMovedTo)
          then addDirectoryWatches E n wt (Clean (ev_Name ev)) w
          else Some (Inr (), wt, w))"

text \<open>The messages drained before \<open>stop\<close> is closed; after an error nothing more is read.\<close>

primrec drainReconciliationEvents ::
  "'w env \<Rightarrow> Notify \<Rightarrow> chan list \<Rightarrow> unit result \<Rightarrow> Watcher \<Rightarrow> 'w \<Rightarrow> (unit result \<times> Watcher \<times> 'w) option" where
  "drainReconciliationEvents E n [] r wt w = Some (r, wt, w)"
| "drainReconciliationEvents E n (m # ms) r wt w =
     (case r of
        Inl e \<Rightarrow> Some (Inl e, wt, w)
      | Inr _ \<Rightarrow>
          (case m of
             EventMsg event \<Rightarrow>
               (case handleReconciliationEvent E n wt event w of
                  None \<Rightarrow> None
                | Some (r', wt', w') \<Rightarrow> drainReconciliationEvents E n ms r' wt' w')
           | EventClosed \<Rightarrow> Some (Inl (ErrMsg ''inotify event channel closed during reconciliation''), wt, w)
           | ErrorMsg err \<Rightarrow>
               Some (Inl (ErrMsg (if err = ErrEventOverflow then ''inotify queue overflow during reconciliation''
                                  else ''inotify watcher error during reconciliation'')), wt, w)
           | ErrorClosed \<Rightarrow> Some (Inl (ErrMsg ''inotify error channel closed during reconciliation''), wt, w)))"

text \<open>\<open>before\<close> and \<open>after\<close>: what is drained before and after the scan.\<close>

definition scanEntriesWhileDraining ::
  "'w env \<Rightarrow> chan list \<times> chan list \<Rightarrow> Notify \<Rightarrow> Watcher \<Rightarrow> 'w \<Rightarrow> (EntryInfo list result \<times> Watcher \<times> 'w) option" where
  "scanEntriesWhileDraining E sched n wt w =
     (case drainReconciliationEvents E n (fst sched) (Inr ()) wt w of
        None \<Rightarrow> None
      | Some (r1, wt1, w1) \<Rightarrow>
          (case GetEntries (e_depth E) (e_sys E) (n_cache n) w1 of
             None \<Rightarrow> None
           | Some (scan, w2) \<Rightarrow>
               (case drainReconciliationEvents E n (snd sched) r1 wt1 w2 of
                  None \<Rightarrow> None
                | Some (drained, wt2, w3) \<Rightarrow>
                    Some (case scan of
                            Inl e \<Rightarrow> Inl e
                          | Inr ents \<Rightarrow> (case drained of Inl e \<Rightarrow> Inl e | Inr _ \<Rightarrow> Inr ents), wt2, w3))))"

definition set_ready :: "bool \<Rightarrow> Notify \<Rightarrow> Notify" where
  "set_ready b n = observe (SetReady b) (n\<lparr>n_ready := b\<rparr>)"

definition close_watcher :: "Notify \<Rightarrow> Notify" where
  "close_watcher n = n\<lparr>n_watcher := map_option Watcher_Close (n_watcher n)\<rparr>"

text \<open>A watcher that is not installed is closed and forgotten.\<close>

definition reconcile ::
  "'w env \<Rightarrow> chan list \<times> chan list \<Rightarrow> bool \<Rightarrow> Notify \<Rightarrow> 'w \<Rightarrow> (unit result \<times> Notify \<times> 'w) option" where
  "reconcile E sched resetHeat n0 w =
     (let n = close_watcher (set_ready False n0)
      in case NewWatcher (e_ino E) w of
           (Inl e, w1) \<Rightarrow> Some (Inl e, n, w1)
         | (Inr wt, w1) \<Rightarrow>
             (case addDirectoryWatches E n wt (DiskRoot (n_cache n)) w1 of
                None \<Rightarrow> None
              | Some (Inl e, _, w2) \<Rightarrow> Some (Inl e, n, w2)
              | Some (Inr _, wt1, w2) \<Rightarrow>
                  (case scanEntriesWhileDraining E sched n wt1 w2 of
                     None \<Rightarrow> None
                   | Some (Inl e, _, w3) \<Rightarrow> Some (Inl e, n, w3)
                   | Some (Inr ents, wt2, w3) \<Rightarrow>
                       let n1 = n\<lparr>n_watcher := Some wt2\<rparr>;
                           (n2, w4) = (if resetHeat
                             then (case e_now E w3 of
                                     (t, w4) \<Rightarrow> (n1\<lparr>n_heavykeeper := hk_reset (n_heavykeeper n1),
                                                    n_warmUntil := t + WarmupDuration (n_policy n1)\<rparr>, w4))
                             else (n1, w3))
                       in Some (Inr (), set_ready True (observe RecordReconciliation
                            (observe (SetCacheBytes (totalBytes ents)) n2)), w4))))"

definition recoverWatcher ::
  "'w env \<Rightarrow> chan list \<times> chan list \<Rightarrow> Notify \<Rightarrow> 'w \<Rightarrow> (unit result \<times> Notify \<times> 'w) option" where
  "recoverWatcher E sched n w = reconcile E sched True (observe (RecordFrozen ''watcher_loss'') n) w"

section \<open>The checkpoint\<close>

primrec existing_items :: "'w sys \<Rightarrow> Cache \<Rightarrow> Item list \<Rightarrow> 'w \<Rightarrow> Item list \<times> 'w" where
  "existing_items S c [] w = ([], w)"
| "existing_items S c (it # its) w =
     (case Snapshot S c (item_Key it) w of
        (r, w1) \<Rightarrow> (case existing_items S c its w1 of
          (rest, w2) \<Rightarrow> (case r of Inl _ \<Rightarrow> rest | Inr _ \<Rightarrow> it # rest, w2)))"

definition restoreCheckpoint :: "'w env \<Rightarrow> Notify \<Rightarrow> 'w \<Rightarrow> (bool \<times> Notify \<times> 'w) option" where
  "restoreCheckpoint E n w =
     (case loadCheckpoint (e_json E) (e_ck E) (n_checkpointFile n) (TopKCapacity (n_policy n)) w of
        (Inl _, w1) \<Rightarrow> Some (False, n, w1)
      | (Inr None, w1) \<Rightarrow> Some (False, n, w1)
      | (Inr (Some items), w1) \<Rightarrow>
          (case existing_items (e_sys E) (n_cache n) items w1 of
             (existing, w2) \<Rightarrow>
               map_option (\<lambda>tk. (True, n\<lparr>n_heavykeeper := tk\<rparr>, w2)) (hk_Restore (e_hk E) (n_heavykeeper n) existing)))"

text \<open>The method of the manager; \<open>saveCheckpoint\<close> is the function that writes the file.\<close>

definition notify_saveCheckpoint :: "'w env \<Rightarrow> Notify \<Rightarrow> 'w \<Rightarrow> (unit result \<times> 'w) option" where
  "notify_saveCheckpoint E n w =
     (case hk_List (n_heavykeeper n) of
        None \<Rightarrow> None
      | Some items \<Rightarrow>
          (case e_now E w of
             (t, w1) \<Rightarrow> Some (saveCheckpoint (e_json E) (e_ck E) (n_checkpointFile n) items t w1)))"

section \<open>The watched area\<close>

text \<open>The root, and what is at or below one of the two stores.\<close>

definition cache_area :: "Cache \<Rightarrow> string \<Rightarrow> bool" where
  "cache_area c path \<longleftrightarrow> (\<exists>rest. Clean path = abs_path (root_elements c @ rest) \<and> (\<forall>p \<in> set rest. plain p) \<and>
     (rest = [] \<or> hd rest = ''ac'' \<or> hd rest = ''cas''))"

definition watched_relative :: "Cache \<Rightarrow> string \<Rightarrow> bool" where
  "watched_relative c path \<longleftrightarrow> (case Rel (diskRoot c) path of
     None \<Rightarrow> False | Some relative \<Rightarrow> \<not> leaves_root relative \<and> (relative = ''.'' \<or> in_store relative))"

lemma plain_stays:
  assumes "qs \<noteq> []" "\<forall>q \<in> set qs. plain q" shows "\<not> leaves_root (join_slash qs)"
proof
  assume "leaves_root (join_slash qs)"
  have sp: "split_slash (join_slash qs) = qs" using assms by (intro split_join_slash) (auto simp: plain_no_slash)
  have "\<not> IsAbs (join_slash qs)" using Clean_relative(2) [OF assms] .
  then have "join_slash qs = ''..'' \<or> (\<exists>r. join_slash qs = ''..'' @ slash # r)" using \<open>leaves_root (join_slash qs)\<close>
    by (auto simp: leaves_root_def) (metis append_Cons append_Nil append_take_drop_id)
  then have "hd (split_slash (join_slash qs)) = ''..''"
  proof
    assume "\<exists>r. join_slash qs = ''..'' @ slash # r"
    then show ?thesis by (auto simp: split_slash_append [of "''..''", simplified])
  qed simp
  then show False using sp assms by (simp add: plain_def hd_in_set)
qed

lemma watched_relative_iff:
  assumes "cache_ok c" shows "watched_relative c path \<longleftrightarrow> cache_area c path"
proof (cases "IsAbs path")
  case True
  let ?ps = "root_elements c"
  have ps: "diskRoot c = abs_path ?ps" "\<forall>p \<in> set ?ps. plain p" using assms by (auto simp: cache_ok_def)
  obtain ts where ts: "Clean path = abs_path ts" "\<forall>t \<in> set ts. plain t" using Clean_abs [OF True] .
  have rel: "Rel (diskRoot c) path = Rel (abs_path ?ps) (abs_path ts)" using Rel_Clean [OF True, of "diskRoot c"] ts ps by simp
  have area: "cache_area c path \<longleftrightarrow> (\<exists>rest. ts = ?ps @ rest \<and> (rest = [] \<or> hd rest = ''ac'' \<or> hd rest = ''cas''))"
  proof -
    have "abs_path ts = abs_path (?ps @ rest) \<longleftrightarrow> ts = ?ps @ rest" if "\<forall>p \<in> set rest. plain p" for rest
      using ts(2) ps(2) that by (intro abs_path_inj) auto
    then show ?thesis using ts unfolding cache_area_def by auto
  qed
  from Rel_abs_cases [OF ps(2) ts(2)] show ?thesis
  proof cases
    case 1
    then show ?thesis using rel area by (simp add: watched_relative_def leaves_root_def)
  next
    case (2 qs)
    have q: "\<forall>q \<in> set qs. plain q" "plain (hd qs)" using 2 ts(2) by (auto simp: hd_in_set)
    have sp: "split_slash (join_slash qs) = qs" using q(1) 2(2) by (intro split_join_slash) (auto simp: plain_no_slash)
    have "\<not> leaves_root (join_slash qs)" by (rule plain_stays [OF 2(2) q(1)])
    moreover have "join_slash qs \<noteq> ''.''" using sp q(2) by (auto simp: plain_def)
    moreover have "in_store (join_slash qs) \<longleftrightarrow> hd qs = ''ac'' \<or> hd qs = ''cas''"
      by (simp add: in_store_def sp kind_string_def Let_def)
    ultimately show ?thesis using 2 rel area by (auto simp: watched_relative_def)
  next
    case (3 rs)
    have "leaves_root (join_slash (''..'' # rs))" by (cases rs) (auto simp: leaves_root_def)
    then show ?thesis using 3 rel area by (auto simp: watched_relative_def)
  qed
next
  case False
  then have "Rel (diskRoot c) path = None" using Rel_abs_only [of "diskRoot c" path] assms
    unfolding cache_ok_def by (metis IsAbs_abs_path not_None_eq)
  moreover have "\<not> cache_area c path" using False IsAbs_Clean [of path] by (auto simp: cache_area_def)
  ultimately show ?thesis by (simp add: watched_relative_def)
qed

lemma cache_area_Clean: "cache_area c (Clean path) \<longleftrightarrow> cache_area c path"
proof (cases "IsAbs path")
  case True
  then show ?thesis by (rule Clean_abs) (simp add: cache_area_def)
next
  case False
  then have "\<not> cache_area c path" "\<not> cache_area c (Clean path)"
    unfolding cache_area_def by (metis IsAbs_Clean IsAbs_abs_path)+
  then show ?thesis by simp
qed

lemma watchPathAllowed_area: "cache_ok (n_cache n) \<Longrightarrow> watchPathAllowed n path \<longleftrightarrow> cache_area (n_cache n) path"
  using watched_relative_iff [of "n_cache n" "Clean path"] cache_area_Clean [of "n_cache n" path]
  by (auto simp: watchPathAllowed_def watched_relative_def DiskRoot_def split: option.splits)

lemma cache_area_path:
  assumes "cache_ok c" "cache_area c (Clean path)"
  obtains ps where "Clean path = abs_path ps" "\<forall>p \<in> set ps. plain p"
proof -
  have "IsAbs path" using assms(2) unfolding cache_area_def by (metis IsAbs_Clean IsAbs_abs_path)
  then show thesis using Clean_abs that by blast
qed

section \<open>Placing watches\<close>

definition watcher_ok :: "Cache \<Rightarrow> Watcher \<Rightarrow> bool" where
  "watcher_ok c wt \<longleftrightarrow> \<not> wt_isClosed wt \<and> (\<forall>p \<in> dom (wt_watches wt). cache_area c p)"

lemma AddWatch_dom:
  assumes "AddWatch I wt path flags w = ((r, wt'), w')"
  shows "wt_isClosed wt' = wt_isClosed wt \<and> dom (wt_watches wt) \<subseteq> dom (wt_watches wt') \<and>
    dom (wt_watches wt') \<subseteq> insert path (dom (wt_watches wt)) \<and> (r = Inr () \<longrightarrow> path \<in> dom (wt_watches wt'))"
  using assms by (auto simp: AddWatch_def Let_def split: if_splits option.splits sum.splits prod.splits)

lemma watch_fn_keeps:
  fixes E :: "'w env"
  assumes "cache_ok (n_cache n)"
  shows "keeps (\<lambda>s. watcher_ok (n_cache n) (snd s) \<and> D \<subseteq> dom (wt_watches (snd s))) (watch_fn E n path d err)"
proof (rule keepsI)
  fix s :: "'w \<times> Watcher"
  assume s: "watcher_ok (n_cache n) (snd s) \<and> D \<subseteq> dom (wt_watches (snd s))"
  obtain r wt' w' where a: "AddWatch (e_ino E) (snd s) path watchMask (fst s) = ((r, wt'), w')"
    by (metis prod.exhaust_sel)
  have "snd (watch_fn E n path d err s) = s \<or>
      (snd (watch_fn E n path d err s) = (w', wt') \<and> watched_relative (n_cache n) path)"
    using a by (auto simp: watch_fn_def watched_relative_def DiskRoot_def split: option.split sum.split)
  then show "watcher_ok (n_cache n) (snd (snd (watch_fn E n path d err s))) \<and>
      D \<subseteq> dom (wt_watches (snd (snd (watch_fn E n path d err s))))"
  proof
    assume "snd (watch_fn E n path d err s) = (w', wt') \<and> watched_relative (n_cache n) path"
    then have w: "snd (watch_fn E n path d err s) = (w', wt')" "cache_area (n_cache n) path"
      using watched_relative_iff [OF assms] by simp_all
    note dom = AddWatch_dom [OF a]
    have "watcher_ok (n_cache n) wt'" using s dom w(2) unfolding watcher_ok_def by (metis insert_iff subsetD)
    moreover have "D \<subseteq> dom (wt_watches wt')" using s dom by (meson order_trans)
    ultimately show ?thesis by (simp add: w(1))
  qed (use s in simp)
qed

lemma addDirectoryWatches_ok:
  assumes "cache_ok (n_cache n)" "watcher_ok (n_cache n) wt" "addDirectoryWatches E n wt start w = Some (r, wt', w')"
  shows "watcher_ok (n_cache n) wt'" "dom (wt_watches wt) \<subseteq> dom (wt_watches wt')"
proof -
  let ?P = "\<lambda>s. watcher_ok (n_cache n) (snd s) \<and> dom (wt_watches wt) \<subseteq> dom (wt_watches (snd s))"
  have k: "keeps_opt ?P (WalkDir (e_depth E) (\<lambda>p. on_fst (sys_lstat (e_sys E) p)) (\<lambda>p. on_fst (sys_ReadDir (e_sys E) p))
      (watch_fn E n) start)"
    by (rule WalkDir_keeps) (rule watch_fn_keeps [OF assms(1)] on_fst_keeps)+
  have "wt' = wt \<or> (\<exists>r1. WalkDir (e_depth E) (\<lambda>p. on_fst (sys_lstat (e_sys E) p)) (\<lambda>p. on_fst (sys_ReadDir (e_sys E) p))
      (watch_fn E n) start (w, wt) = Some (r1, (w', wt')))"
    using assms(3) by (auto simp: addDirectoryWatches_def split: if_splits option.splits)
  then have "?P (w', wt')"
  proof
    assume "\<exists>r1. WalkDir (e_depth E) (\<lambda>p. on_fst (sys_lstat (e_sys E) p)) (\<lambda>p. on_fst (sys_ReadDir (e_sys E) p))
      (watch_fn E n) start (w, wt) = Some (r1, (w', wt'))"
    then show ?thesis using keeps_optD [OF k, of "(w, wt)"] assms(2) by (metis order_refl snd_conv)
  qed (use assms(2) in simp)
  then show "watcher_ok (n_cache n) wt'" "dom (wt_watches wt) \<subseteq> dom (wt_watches wt')" by simp_all
qed

lemma addDirectoryWatches_total:
  assumes "cache_ok (n_cache n)" "walks_end E"
  shows "\<exists>r wt' w'. addDirectoryWatches E n wt (Clean path) w = Some (r, wt', w')"
proof (cases "watchPathAllowed n (Clean path)")
  case True
  then have "cache_area (n_cache n) (Clean path)" using watchPathAllowed_area [OF assms(1)] by simp
  from cache_area_path [OF assms(1) this] obtain ps where ps: "Clean path = abs_path ps" "\<forall>p \<in> set ps. plain p" .
  have "WalkDir (e_depth E) (\<lambda>p. on_fst (sys_lstat (e_sys E) p)) (\<lambda>p. on_fst (sys_ReadDir (e_sys E) p))
      (watch_fn E n) (abs_path ps) (w, wt) \<noteq> None"
    using assms(2) by (intro WalkDir_total bounded_reads_on_fst ps(2)) (simp_all add: walks_end_def)
  then show ?thesis using True ps(1) by (auto simp: addDirectoryWatches_def split: option.split)
qed (simp add: addDirectoryWatches_def)

section \<open>Keeping the manager well-formed\<close>

text \<open>What no step of the manager changes.\<close>

definition same_manager :: "Notify \<Rightarrow> Notify \<Rightarrow> bool" where
  "same_manager n n' \<longleftrightarrow> n_cache n' = n_cache n \<and> n_lease n' = n_lease n \<and> n_policy n' = n_policy n \<and>
     n_checkpointFile n' = n_checkpointFile n \<and> hk_config (n_heavykeeper n') = hk_config (n_heavykeeper n)"

lemma same_manager_refl [simp]: "same_manager n n"
  by (simp add: same_manager_def)

lemma same_manager_trans [trans]: "same_manager a b \<Longrightarrow> same_manager b c \<Longrightarrow> same_manager a c"
  by (simp add: same_manager_def)

lemma same_manager_simps [simp]:
  "same_manager n (observe ob n') = same_manager n n'" "same_manager n (n'\<lparr>n_watcher := x\<rparr>) = same_manager n n'"
  "same_manager n (n'\<lparr>n_ready := b\<rparr>) = same_manager n n'" "same_manager n (n'\<lparr>n_warmUntil := t\<rparr>) = same_manager n n'"
  "same_manager n (n'\<lparr>n_evicting := b\<rparr>) = same_manager n n'"
  by (simp_all add: same_manager_def)

lemma notify_ok_simps [simp]:
  "notify_ok (n\<lparr>n_watcher := x\<rparr>) = notify_ok n" "notify_ok (n\<lparr>n_ready := b\<rparr>) = notify_ok n"
  "notify_ok (n\<lparr>n_warmUntil := t\<rparr>) = notify_ok n"
  by (simp_all add: notify_ok_def)

lemma notify_ok_heat:
  assumes "notify_ok n" "hk_inv tk" "hk_config tk = hk_config (n_heavykeeper n)"
  shows "notify_ok (n\<lparr>n_heavykeeper := tk\<rparr>)" "same_manager n (n\<lparr>n_heavykeeper := tk\<rparr>)"
  using assms by (auto simp: notify_ok_def same_manager_def hk_config_def)

lemma seed_fn_keeps:
  assumes "hk_width tk0 \<noteq> 0"
  shows "keeps (\<lambda>s. \<exists>tk. snd s = Some tk \<and> hk_inv tk \<and> hk_config tk = hk_config tk0) (seed_fn E n path d err)"
proof (rule keepsI)
  fix s :: "'a \<times> HeavyKeeper option"
  assume "\<exists>tk. snd s = Some tk \<and> hk_inv tk \<and> hk_config tk = hk_config tk0"
  then obtain tk where tk: "snd s = Some tk" "hk_inv tk" "hk_config tk = hk_config tk0" by blast
  then have "hk_width tk \<noteq> 0" using assms by (simp add: hk_config_def)
  from hk_add_total [OF tk(2) this] have
    "\<exists>out tk'. hk_add (e_hk E) tk key 1 = Some (out, tk') \<and> hk_inv tk' \<and> hk_config tk' = hk_config tk0" for key
    using tk(3) by metis
  then show "\<exists>tk. snd (snd (seed_fn E n path d err s)) = Some tk \<and> hk_inv tk \<and> hk_config tk = hk_config tk0"
    using tk by (auto simp: seed_fn_def split: option.splits sum.splits prod.splits) (metis option.inject prod.inject option.distinct(1))+
qed

lemma seedExistingEntries_ok:
  assumes "cache_ok (n_cache n)" "walks_end E" "notify_ok n"
  shows "\<exists>r tk w'. seedExistingEntries E n (Clean path) w = Some (r, n\<lparr>n_heavykeeper := tk\<rparr>, w') \<and>
    hk_inv tk \<and> hk_config tk = hk_config (n_heavykeeper n)"
proof (cases "watchPathAllowed n (Clean path)")
  case False
  have "n = n\<lparr>n_heavykeeper := n_heavykeeper n\<rparr>" "hk_inv (n_heavykeeper n)" using assms(3) by (simp_all add: notify_ok_def)
  moreover have "seedExistingEntries E n (Clean path) w = Some (Inr (), n, w)" using False by (simp add: seedExistingEntries_def)
  ultimately show ?thesis by (intro exI [of _ "Inr ()"] exI [of _ "n_heavykeeper n"] exI [of _ w]) auto
next
  case True
  let ?hk = "n_heavykeeper n"
  let ?W = "WalkDir (e_depth E) (\<lambda>p. on_fst (sys_lstat (e_sys E) p)) (\<lambda>p. on_fst (sys_ReadDir (e_sys E) p))
    (seed_fn E n) (Clean path)"
  let ?P = "\<lambda>s. \<exists>tk. snd s = Some tk \<and> hk_inv tk \<and> hk_config tk = hk_config ?hk"
  have hk: "hk_inv ?hk" "hk_width ?hk \<noteq> 0" using assms(3) by (simp_all add: notify_ok_def)
  have "cache_area (n_cache n) (Clean path)" using True watchPathAllowed_area [OF assms(1)] by simp
  from cache_area_path [OF assms(1) this] obtain ps where ps: "Clean path = abs_path ps" "\<forall>p \<in> set ps. plain p" .
  have "?W (w, Some ?hk) \<noteq> None" unfolding ps(1)
    using assms(2) by (intro WalkDir_total bounded_reads_on_fst ps(2)) (simp_all add: walks_end_def)
  then obtain r s' where r: "?W (w, Some ?hk) = Some (r, s')" by auto
  have "keeps_opt ?P ?W" by (rule WalkDir_keeps) (rule seed_fn_keeps [OF hk(2)] on_fst_keeps)+
  from keeps_optD [OF this _ r] hk(1) have "?P s'" by simp
  then show ?thesis using True r by (cases s') (auto simp: seedExistingEntries_def)
qed

section \<open>Handling an event keeps the manager well-formed\<close>

text \<open>What an event leaves alone besides the fixed parts.\<close>

definition same_phase :: "Notify \<Rightarrow> Notify \<Rightarrow> bool" where
  "same_phase n n' \<longleftrightarrow> n_ready n' = n_ready n \<and> n_warmUntil n' = n_warmUntil n \<and> n_evicting n' = n_evicting n"

definition watching :: "Notify \<Rightarrow> bool" where
  "watching n \<longleftrightarrow> (\<exists>wt. n_watcher n = Some wt \<and> watcher_ok (n_cache n) wt)"

lemma same_phase_simps [simp]:
  "same_phase n n" "same_phase n (observe ob n') = same_phase n n'"
  "same_phase n (n'\<lparr>n_watcher := x\<rparr>) = same_phase n n'" "same_phase n (n'\<lparr>n_heavykeeper := tk\<rparr>) = same_phase n n'"
  by (simp_all add: same_phase_def)

lemma watching_simps [simp]:
  "watching (observe ob n) = watching n" "watching (n\<lparr>n_heavykeeper := tk\<rparr>) = watching n"
  "watching (n\<lparr>n_watcher := Some wt\<rparr>) = watcher_ok (n_cache n) wt"
  "watching (n\<lparr>n_ready := b\<rparr>) = watching n" "watching (n\<lparr>n_warmUntil := t\<rparr>) = watching n"
  "watching (n\<lparr>n_evicting := b\<rparr>) = watching n"
  by (simp_all add: watching_def)

lemma handleEntryEvent_ok:
  assumes "notify_ok n"
  shows "\<exists>n'. handleEntryEvent E n ev key kind = Some n' \<and> notify_ok n' \<and> same_manager n n' \<and> same_phase n n' \<and>
    n_watcher n' = n_watcher n"
proof -
  have hk: "hk_inv (n_heavykeeper n)" "hk_width (n_heavykeeper n) \<noteq> 0" using assms by (simp_all add: notify_ok_def)
  obtain tk1 where r: "hk_Remove (n_heavykeeper n) key = Some tk1" "hk_inv tk1"
    "hk_config tk1 = hk_config (n_heavykeeper n)"
    using hk_Remove_ok [OF hk(1), of key] by blast
  obtain out tk2 where a: "hk_add (e_hk E) (n_heavykeeper n) key 1 = Some (out, tk2)" "hk_inv tk2"
    "hk_config tk2 = hk_config (n_heavykeeper n)"
    using hk_add_total [OF hk, of "e_hk E" key 1] by blast
  note ok = notify_ok_heat [OF assms r(2,3)] notify_ok_heat [OF assms a(2,3)]
  have obs: "(observe ob n)\<lparr>n_heavykeeper := tk\<rparr> = observe ob (n\<lparr>n_heavykeeper := tk\<rparr>)" for ob tk by (simp add: observe_def)
  show ?thesis using r(1) a(1) ok assms by (auto simp: handleEntryEvent_def Let_def obs)
qed

lemma handleEvent_ok:
  assumes "notify_ok n" "cache_ok (n_cache n)" "walks_end E" "watching n"
  shows "\<exists>r n' w'. handleEvent E n event w = Some (r, n', w') \<and> notify_ok n' \<and> same_manager n n' \<and>
    same_phase n n' \<and> watching n'"
proof (cases event)
  case (Some ev)
  obtain wt where wt: "n_watcher n = Some wt" "watcher_ok (n_cache n) wt" using assms(4) by (auto simp: watching_def)
  obtain r wt1 w1 where a: "addDirectoryWatches E n wt (Clean (ev_Name ev)) w = Some (r, wt1, w1)"
    using addDirectoryWatches_total [OF assms(2,3)] by metis
  let ?n1 = "n\<lparr>n_watcher := Some wt1\<rparr>"
  have wt1: "watching ?n1" using addDirectoryWatches_ok(1) [OF assms(2) wt(2) a] by simp
  have "cache_ok (n_cache ?n1)" "notify_ok ?n1" using assms by simp_all
  from seedExistingEntries_ok [OF this(1) assms(3) this(2), of "ev_Name ev" w1]
  obtain r2 tk w2 where s: "seedExistingEntries E ?n1 (Clean (ev_Name ev)) w1 = Some (r2, ?n1\<lparr>n_heavykeeper := tk\<rparr>, w2)"
    "hk_inv tk" "hk_config tk = hk_config (n_heavykeeper ?n1)" by blast
  have sok: "notify_ok (?n1\<lparr>n_heavykeeper := tk\<rparr>)" "same_manager ?n1 (?n1\<lparr>n_heavykeeper := tk\<rparr>)"
    using notify_ok_heat [OF \<open>notify_ok ?n1\<close> s(2,3)] by simp_all
  have sm: "same_manager n (?n1\<lparr>n_heavykeeper := tk\<rparr>)" using same_manager_trans [OF _ sok(2), of n] by simp
  obtain k w3 where k: "KeyForPath (e_sys E) (n_cache n) (ev_Name ev) w = (k, w3)" by fastforce
  show ?thesis
  proof (cases "coverage_lost ev \<or> HasEvent ev InIsdir")
    case True
    then show ?thesis using Some wt a s(1) sok sm wt1 assms(1,4)
      by (cases r) (auto simp: handleEvent_def)
  next
    case False
    show ?thesis
    proof (cases k)
      case (Inl e)
      then show ?thesis using False Some k assms by (simp add: handleEvent_def)
    next
      case (Inr kk)
      obtain key kind where kk: "kk = (key, kind)" by fastforce
      obtain n' where "handleEntryEvent E n ev key kind = Some n'" "notify_ok n'" "same_manager n n'" "same_phase n n'"
        "n_watcher n' = n_watcher n" using handleEntryEvent_ok [OF assms(1)] by blast
      moreover from this have "watching n'" using assms(4) by (simp add: watching_def same_manager_def)
      ultimately show ?thesis using False Some k Inr kk by (simp add: handleEvent_def)
    qed
  qed
qed (use assms in \<open>simp add: handleEvent_def\<close>)

end
