(* ===== verification/Sample_System.thy ===== *)
theory Sample_System
  imports Notify_State
begin

text \<open>
  A concrete file system in memory: an instance of the calls of \<open>sys\<close> on which the definitions of the
  development can be evaluated. Files are a list of paths with their status; directory listings are
  kept apart and may be stale; an open descriptor
  remembers its path; the lock can be held by someone else. It shows that the hypotheses of the properties can be met; no property is limited to it.
\<close>

record memfs =
  ms_files :: "(string \<times> filestat) list"
  ms_dirs :: "(string \<times> dirent list) list"
  ms_fds :: "(fd \<times> string) list"
  ms_next :: fd
  ms_busy :: bool

definition look :: "memfs \<Rightarrow> string \<Rightarrow> errno + filestat" where
  "look m p = (case map_of (ms_files m) p of None \<Rightarrow> Inl ENOENT | Some st \<Rightarrow> Inr st)"

definition open_path :: "string \<Rightarrow> memfs \<Rightarrow> (errno + fd) \<times> memfs" where
  "open_path p m =
     (case look m p of
        Inl e \<Rightarrow> (Inl e, m)
      | Inr _ \<Rightarrow> (Inr (ms_next m), m\<lparr>ms_fds := (ms_next m, p) # ms_fds m, ms_next := ms_next m + 1\<rparr>))"

definition at_path :: "memfs \<Rightarrow> fd \<Rightarrow> string \<Rightarrow> string" where
  "at_path m f name = (case map_of (ms_fds m) f of None \<Rightarrow> name | Some p \<Rightarrow> p @ ''/'' @ name)"

definition children :: "memfs \<Rightarrow> string \<Rightarrow> dirent list" where
  "children m p =
     (case map_of (ms_dirs m) p of
        None \<Rightarrow> []
      | Some ds \<Rightarrow> if PATH_MAX \<le> length p then [] else filter (\<lambda>d. plain (de_name d)) ds)"

definition mem_sys :: "memfs sys" where
  "mem_sys =
     \<lparr>sys_getwd = (\<lambda>m. (Inr ''/'', m)),
      sys_EvalSymlinks = (\<lambda>p m. (case look m p of Inl e \<Rightarrow> (Inl e, m) | Inr _ \<Rightarrow> (Inr p, m))),
      sys_lstat = (\<lambda>p m. (look m p, m)),
      sys_ReadDir = (\<lambda>p m. ((children m p, None), m)),
      sys_open = (\<lambda>p fl m. open_path p m),
      sys_openat = (\<lambda>f p fl m. open_path (at_path m f p) m),
      sys_fstat = (\<lambda>f m. (case map_of (ms_fds m) f of None \<Rightarrow> (Inl (Eother 9), m) | Some p \<Rightarrow> (look m p, m))),
      sys_fstatat = (\<lambda>f p m. (look m (at_path m f p), m)),
      sys_unlinkat = (\<lambda>f p m. (case look m (at_path m f p) of
          Inl e \<Rightarrow> (Inl e, m)
        | Inr _ \<Rightarrow> (Inr (), m\<lparr>ms_files := filter (\<lambda>(q, _). q \<noteq> at_path m f p) (ms_files m)\<rparr>))),
      sys_close = (\<lambda>f m. (Inr (), m\<lparr>ms_fds := filter (\<lambda>(g, _). g \<noteq> f) (ms_fds m)\<rparr>)),
      sys_flock = (\<lambda>f l m. (if ms_busy m \<and> l = LOCK_EX_NB then Inl EAGAIN else Inr (), m))\<rparr>"

definition dir_stat :: "u64 \<Rightarrow> filestat" where
  "dir_stat ino = \<lparr>st_dev = 7, st_ino = ino, st_mode = S_IFDIR, st_size = 0, st_mtime = 0\<rparr>"

definition file_stat :: "u64 \<Rightarrow> int \<Rightarrow> time \<Rightarrow> filestat" where
  "file_stat ino sz t = \<lparr>st_dev = 7, st_ino = ino, st_mode = S_IFREG, st_size = sz, st_mtime = t\<rparr>"

abbreviation digest_a :: string where "digest_a \<equiv> replicate 64 CHR ''a''"

text \<open>A cache at \<open>/cache\<close> with one action-cache entry, the lock file and a stray file.\<close>

definition sample_fs :: memfs where
  "sample_fs =
     \<lparr>ms_files = [(''/cache'', dir_stat 1), (''/cache/ac'', dir_stat 2), (''/cache/ac/aa'', dir_stat 3),
        (''/cache/ac/aa/'' @ digest_a, file_stat 4 100 10), (''/cache/ac/aa/tmp'', file_stat 5 1 10),
        (''/lock'', file_stat 6 0 0)],
      ms_dirs = [(''/cache'', [\<lparr>de_name = ''ac'', de_type = S_IFDIR\<rparr>]),
        (''/cache/ac'', [\<lparr>de_name = ''aa'', de_type = S_IFDIR\<rparr>]),
        (''/cache/ac/aa'', [\<lparr>de_name = digest_a, de_type = S_IFREG\<rparr>, \<lparr>de_name = ''tmp'', de_type = S_IFREG\<rparr>])],
      ms_fds = [], ms_next = 3, ms_busy = False\<rparr>"

text \<open>The estimator's hashes by length, draws that never decay, no inotify and no checkpoint calls.\<close>

definition no_ino :: "'w ino_sys" where
  "no_ino = \<lparr>inotify_init1 = (\<lambda>w. (Inl (Eother 38), w)), inotify_add_watch = (\<lambda>_ _ _ w. (Inl (Eother 38), w)),
     inotify_rm_watch = (\<lambda>_ _ w. (Inl (Eother 38), w))\<rparr>"

definition no_ck :: "'w ck_sys" where
  "no_ck = \<lparr>ck_Open = (\<lambda>_ w. (Inl ENOENT, w)), ck_Read = (\<lambda>_ _ w. (Inl ENOENT, w)), ck_Close = (\<lambda>_ w. (Inr (), w)),
     ck_MkdirAll = (\<lambda>_ w. (Inl ENOENT, w)), ck_CreateTemp = (\<lambda>_ w. (Inl ENOENT, w)), ck_Chmod = (\<lambda>_ w. (Inl ENOENT, w)),
     ck_Write = (\<lambda>_ _ w. (Inl ENOENT, w)), ck_Sync = (\<lambda>_ w. (Inl ENOENT, w)), ck_Rename = (\<lambda>_ _ w. (Inl ENOENT, w)),
     ck_Remove = (\<lambda>_ w. (Inl ENOENT, w))\<rparr>"

text \<open>An environment where the disk is full and stays so (the byte counts are zero, which keeps the evaluation of the simulated percentage short).\<close>

definition sample_env :: "memfs env" where
  "sample_env = \<lparr>e_sys = mem_sys, e_ino = no_ino, e_ck = no_ck, e_json = one_json, e_hk = length_env, e_sort = go_sort,
     e_statfs = (\<lambda>_ m. (Inr \<lparr>Blocks = 1, Bavail = 0, Bsize = 0\<rparr>, m)), e_now = (\<lambda>m. (10 ^ 18, m)), e_depth = 5\<rparr>"

definition sample_policy :: "bool \<Rightarrow> EvictionPolicy" where
  "sample_policy shadow = \<lparr>DiskCheckInterval = 1, CheckpointInterval = 1, TopKDecayInterval = 1, MinimumResidence = 5,
     WarmupDuration = 0, MinPercentBlocksFree = Fin 30, EvictUntilPercentBlocksFree = Fin 35,
     MaxCacheBytes = 1000, TargetCacheBytes = 500, MinActionCacheBytes = 0, CleanupBatchSize = 1,
     TopKCapacity = 2, TopKWidth = 8, TopKDepth = 1, TopKDecay = Fin (1 / 2), TopKMinCount = 1, Shadow = shadow\<rparr>"

definition sample_notify :: "bool \<Rightarrow> Notify" where
  "sample_notify shadow = \<lparr>n_cache = example_cache, n_watcher = None,
     n_heavykeeper = NewHeavyKeeper length_env 2 8 1 (Fin (1 / 2)) 1, n_lease = \<lparr>al_path = ''/lock''\<rparr>,
     n_policy = sample_policy shadow, n_checkpointFile = ''/state/hot-set.json'', n_observer = [], n_ready = True,
     n_warmUntil = 0, n_evicting = False\<rparr>"

lemma sample_policy_valid: "Validate (sample_policy shadow) = None"
  by (simp add: sample_policy_def Validate_def validatePercent_def isInf_def fle_def)

lemma sample_notify_ok: "notify_ok (sample_notify shadow)"
  using hk_new_ok(1) [of length_env 2 8 1 "Fin (1 / 2)" 1] sample_policy_valid
  by (simp add: notify_ok_def sample_notify_def) (simp add: NewHeavyKeeper_def)

text \<open>The same environment with room for walks as deep as the longest path.\<close>

definition deep_env :: "memfs env" where
  "deep_env = sample_env\<lparr>e_depth := PATH_MAX\<rparr>"

lemma deep_env_walks_end: "walks_end deep_env"
  by (auto simp: walks_end_def deep_env_def sample_env_def bounded_reads_def mem_sys_def children_def
      split: option.splits if_splits)

theorem GetEntries_backed_witness:
  "\<exists>e. fst (the (GetEntries 5 mem_sys example_cache sample_fs)) = Inr [e] \<and>
     ei_Key e = ''ac/aa/'' @ digest_a \<and> ParseKey (ei_Key e) = Inr (ei_Kind e) \<and> ei_Size e = 100"
proof -
  have "map_option (map_sum id (map (\<lambda>e. (ei_Key e, ei_Size e))) \<circ> fst) (GetEntries 5 mem_sys example_cache sample_fs) =
      Some (Inr [(''ac/aa/'' @ digest_a, 100)])"
    by code_simp
  then obtain x w' where x: "GetEntries 5 mem_sys example_cache sample_fs = Some (x, w')"
    "map_sum id (map (\<lambda>e. (ei_Key e, ei_Size e))) x = Inr [(''ac/aa/'' @ digest_a, 100)]"
    by auto
  then obtain e where e: "GetEntries 5 mem_sys example_cache sample_fs = Some (Inr [e], w')"
    "ei_Key e = ''ac/aa/'' @ digest_a" "ei_Size e = 100"
    by (cases x) auto
  then show ?thesis using GetEntries_backed [OF e(1)] by simp
qed

end
