(* ===== verification/Cleanup_Properties.thy ===== *)
theory Cleanup_Properties
  imports Notify_Cleanup Sample_System
begin

text \<open>
  What a cleanup cycle guarantees: which entries it selects and in which order, that the action-cache
  budget holds, what a projection predicts, that files are unlinked only behind all gates and under the lease, when
  the cycle stops evicting, and that it always returns.
\<close>

section \<open>The sort\<close>

text \<open>The contract of \<open>sort.Slice\<close> for a strict weak order; it says nothing about equal elements.\<close>

definition sorts :: "((EntryInfo \<Rightarrow> EntryInfo \<Rightarrow> bool) \<Rightarrow> EntryInfo list \<Rightarrow> EntryInfo list) \<Rightarrow> bool" where
  "sorts srt \<longleftrightarrow> (\<forall>lt xs. strict_weak lt \<longrightarrow>
     mset (srt lt xs) = mset xs \<and> sorted_wrt (\<lambda>a b. \<not> lt b a) (srt lt xs))"

interpretation victim: strict_weak "victim_less m"
  by unfold_locales (auto simp: victim_less_def split: if_splits)

lemma sorts_go_sort: "sorts go_sort"
  unfolding sorts_def using strict_weak.go_sort_sorted by (metis mset_go_sort)

section \<open>Exact byte counts\<close>

definition bytes_sum :: "EntryInfo list \<Rightarrow> int" where
  "bytes_sum es = sum_list (map ei_Size es)"

definition kind_sum :: "EntryKind \<Rightarrow> EntryInfo list \<Rightarrow> int" where
  "kind_sum k es = sum_list (map ei_Size (filter (\<lambda>e. ei_Kind e = k) es))"

text \<open>Sizes of files are not negative and a disk holds less than \<open>2 ^ 63\<close> bytes.\<close>

definition sizes_ok :: "EntryInfo list \<Rightarrow> bool" where
  "sizes_ok es \<longleftrightarrow> (\<forall>e \<in> set es. 0 \<le> ei_Size e) \<and> bytes_sum es < 2 ^ 63"

lemma bytes_sum_nonneg: "\<forall>e \<in> set es. 0 \<le> ei_Size e \<Longrightarrow> 0 \<le> bytes_sum es"
  by (auto simp: bytes_sum_def intro!: sum_list_nonneg)

lemma kind_sum_bounds: "\<forall>e \<in> set es. 0 \<le> ei_Size e \<Longrightarrow> 0 \<le> kind_sum k es \<and> kind_sum k es \<le> bytes_sum es"
  by (induction es) (auto simp: kind_sum_def bytes_sum_def)

lemma i64_exact: "0 \<le> x \<Longrightarrow> x < 2 ^ 63 \<Longrightarrow> i64 x = x"
  by (simp add: in_i64_def)

lemma foldl_add_exact:
  "\<forall>e \<in> set es. 0 \<le> ei_Size e \<Longrightarrow> 0 \<le> a \<Longrightarrow> a + bytes_sum es < 2 ^ 63 \<Longrightarrow>
   foldl (\<lambda>t e. i64_add t (ei_Size e)) a es = a + bytes_sum es"
proof (induction es arbitrary: a)
  case (Cons e es)
  have "0 \<le> bytes_sum es" using Cons.prems(1) by (intro bytes_sum_nonneg) simp
  then have "i64_add a (ei_Size e) = a + ei_Size e"
    using Cons.prems unfolding i64_add_def by (intro i64_exact) (auto simp: bytes_sum_def)
  then show ?case using Cons by (simp add: bytes_sum_def)
qed (simp add: bytes_sum_def)

lemma foldl_kind_exact:
  "\<forall>e \<in> set es. 0 \<le> ei_Size e \<Longrightarrow> 0 \<le> a \<Longrightarrow> a + bytes_sum es < 2 ^ 63 \<Longrightarrow>
   foldl (\<lambda>t e. if ei_Kind e = k then i64_add t (ei_Size e) else t) a es = a + kind_sum k es"
proof (induction es arbitrary: a)
  case (Cons e es)
  have "0 \<le> bytes_sum es" using Cons.prems(1) by (intro bytes_sum_nonneg) simp
  then have "i64_add a (ei_Size e) = a + ei_Size e"
    using Cons.prems unfolding i64_add_def by (intro i64_exact) (auto simp: bytes_sum_def)
  then show ?case using Cons by (auto simp: bytes_sum_def kind_sum_def intro!: sum_list_nonneg)
qed (simp add: kind_sum_def)

lemma totalBytes_exact: "sizes_ok es \<Longrightarrow> totalBytes es = bytes_sum es"
  using foldl_add_exact [of es 0] by (simp add: totalBytes_def sizes_ok_def)

lemma bytesByKind_exact: "sizes_ok es \<Longrightarrow> bytesByKind es k = kind_sum k es"
  using foldl_kind_exact [of es 0 k] by (simp add: bytesByKind_def sizes_ok_def)

lemma sizes_ok_mset: "mset a = mset b \<Longrightarrow> sizes_ok a = sizes_ok b \<and> bytes_sum a = bytes_sum b \<and> kind_sum k a = kind_sum k b"
proof -
  assume h: "mset a = mset b"
  then have "set a = set b" by (rule mset_eq_setD)
  moreover have "bytes_sum a = bytes_sum b"
    using h unfolding bytes_sum_def by (metis mset_map sum_mset_sum_list)
  moreover have "kind_sum k x = (\<Sum>e \<in># filter_mset (\<lambda>e. ei_Kind e = k) (mset x). ei_Size e)" for x
    by (simp add: kind_sum_def flip: mset_filter sum_mset_sum_list)
  then have "kind_sum k a = kind_sum k b" using h by simp
  ultimately show ?thesis by (simp add: sizes_ok_def)
qed

lemma subseq_sums:
  assumes "subseq vs es" "\<forall>e \<in> set es. 0 \<le> ei_Size e"
  shows "set vs \<subseteq> set es" "bytes_sum vs \<le> bytes_sum es" "kind_sum k vs \<le> kind_sum k es"
proof -
  show "set vs \<subseteq> set es" using assms(1) by (auto elim: list_emb_set)
  show "bytes_sum vs \<le> bytes_sum es" "kind_sum k vs \<le> kind_sum k es"
    using assms by (induction rule: list_emb.induct) (auto simp: bytes_sum_def kind_sum_def intro!: sum_list_nonneg)
qed

lemma ac_budget_exact:
  "ac_budget mn a vs \<Longrightarrow> \<forall>e \<in> set vs. 0 \<le> ei_Size e \<Longrightarrow> kind_sum ActionCache vs \<le> a \<Longrightarrow> a < 2 ^ 63 \<Longrightarrow>
   \<exists>e \<in> set vs. ei_Kind e = ActionCache \<Longrightarrow> mn \<le> a - kind_sum ActionCache vs"
proof (induction vs arbitrary: a)
  case (Cons e vs)
  show ?case
  proof (cases "ei_Kind e = ActionCache")
    case True
    have k: "0 \<le> kind_sum ActionCache vs" using Cons.prems(2) kind_sum_bounds [of vs] by simp
    have s: "kind_sum ActionCache (e # vs) = ei_Size e + kind_sum ActionCache vs" using True by (simp add: kind_sum_def)
    then have sub: "i64_sub a (ei_Size e) = a - ei_Size e"
      using Cons.prems k unfolding i64_sub_def by (intro i64_exact) auto
    show ?thesis
    proof (cases "\<exists>e \<in> set vs. ei_Kind e = ActionCache")
      case True
      then show ?thesis using Cons.IH [of "a - ei_Size e"] Cons.prems s sub \<open>ei_Kind e = ActionCache\<close> by auto
    next
      case False
      then have "filter (\<lambda>e. ei_Kind e = ActionCache) vs = []" by (auto simp: filter_empty_conv)
      then have "kind_sum ActionCache vs = 0" by (simp add: kind_sum_def)
      then show ?thesis using Cons.prems(1) s sub \<open>ei_Kind e = ActionCache\<close> by simp
    qed
  next
    case False
    then show ?thesis using Cons by (auto simp: kind_sum_def)
  qed
qed simp

lemma subseq_mset: "subseq xs ys \<Longrightarrow> mset xs \<subseteq># mset ys"
proof (induction rule: list_emb.induct)
  case (list_emb_Cons xs ys y)
  then show ?case by (metis add_mset_add_single mset.simps(2) mset_subset_eq_add_left subset_mset.order_trans)
qed auto

lemma foldl_sizes:
  "foldl i64_add a (map ei_Size vs) = foldl (\<lambda>t e. i64_add t (ei_Size e)) a vs"
  by (induction vs arbitrary: a) auto

lemma selectVictims_total:
  assumes "hk_inv (n_heavykeeper n)" "hk_List (n_heavykeeper n) = Some items"
  shows "\<exists>p n' w'. selectVictims E n ents now bytesFree bytesUsed del w = Some (p, n', w')"
proof -
  have "selectVictims E n ents now bytesFree bytesUsed del w \<noteq> None"
    using select_loop_total [OF assms(1)] assms(2) by (simp add: selectVictims_def Let_def)
  then show ?thesis by auto
qed

text \<open>What the loop selected, with the machine arithmetic replaced by sums.\<close>

lemma selected_exact:
  assumes "selected E now del es (start_tally es bytesFree bytesUsed) n k vs tried p n'" "sizes_ok es"
  shows "mset vs \<subseteq># mset es" "p = bytes_sum vs"
    "\<exists>e \<in> set vs. ei_Kind e = ActionCache \<Longrightarrow>
       MinActionCacheBytes (n_policy n) \<le> kind_sum ActionCache es - kind_sum ActionCache vs"
proof -
  have "subseq vs (take k es)" using assms(1) by (simp add: selected_def)
  then have sub: "subseq vs es" using subseq_rev_drop_many [of vs "take k es" "drop k es"] by simp
  have nonneg: "\<forall>e \<in> set es. 0 \<le> ei_Size e" using assms(2) by (simp add: sizes_ok_def)
  note sums = subseq_sums [OF sub nonneg]
  have vsnn: "\<forall>e \<in> set vs. 0 \<le> ei_Size e" using sums(1) nonneg by auto
  show "mset vs \<subseteq># mset es" using sub by (rule subseq_mset)
  show "p = bytes_sum vs" using assms foldl_add_exact [of vs 0] vsnn sums(2)
    by (simp add: selected_def foldl_sizes start_tally_def sizes_ok_def)
  assume "\<exists>e \<in> set vs. ei_Kind e = ActionCache"
  then show "MinActionCacheBytes (n_policy n) \<le> kind_sum ActionCache es - kind_sum ActionCache vs"
    using assms ac_budget_exact [OF _ vsnn] sums(3) [of ActionCache] kind_sum_bounds [OF nonneg, of ActionCache]
    by (simp add: selected_def start_tally_def bytesByKind_exact sizes_ok_def)
qed

text \<open>The order in which entries are to go: the colder first, among equals the older, and then the larger.\<close>

definition goes_first :: "(string \<rightharpoonup> u32) \<Rightarrow> EntryInfo \<Rightarrow> EntryInfo \<Rightarrow> bool" where
  "goes_first counts a b \<longleftrightarrow>
     (let ha = (case counts (ei_Key a) of None \<Rightarrow> 0 | Some c \<Rightarrow> unat c); hb = (case counts (ei_Key b) of None \<Rightarrow> 0 | Some c \<Rightarrow> unat c)
      in ha < hb \<or> ha = hb \<and> (ei_ModTime a < ei_ModTime b \<or> ei_ModTime a = ei_ModTime b \<and> ei_Size b \<le> ei_Size a))"

lemma heat_table_map_of:
  assumes "distinct (map item_Key items)"
  shows "heat_table items = map_of (map (\<lambda>it. (item_Key it, item_Count it)) items)"
proof -
  have "foldl (\<lambda>m it. m(item_Key it \<mapsto> item_Count it)) m0 items = m0 ++ map_of (map (\<lambda>it. (item_Key it, item_Count it)) items)" for m0
    using assms
  proof (induction items arbitrary: m0)
    case (Cons it items)
    have "map_of (map (\<lambda>it. (item_Key it, item_Count it)) items) (item_Key it) = None"
      using Cons.prems by (auto simp: map_of_eq_None_iff)
    then show ?case using Cons by (auto simp: map_add_def fun_eq_iff split: option.split)
  qed simp
  then show ?thesis by (simp add: heat_table_def)
qed

lemma victim_goes_first: "\<not> victim_less m e v \<longleftrightarrow> goes_first m v e"
  by (auto simp: goes_first_def victim_less_def heat_def Let_def word_less_nat_alt word_unat_eq_iff split: option.splits)

lemma selected_order:
  assumes "selected E now del es v n k vs tried p n'" "sorted_wrt (\<lambda>a b. \<not> lt b a) es"
    "e \<in> set es - set vs" "x \<in> set vs" "ei_Kind e = ContentCAS" "old_enough (n_policy n) now e"
    "\<forall>err. (e, Inl err) \<notin> set tried"
  shows "\<not> lt e x"
proof -
  have "subseq vs (take k es)" "e \<notin> set (take k es)" using assms by (auto simp: selected_def)
  then have "x \<in> set (take k es)" "e \<in> set (drop k es)" using assms(3,4)
    by (auto elim: list_emb_set) (metis Un_iff append_take_drop_id set_append)
  moreover have "sorted_wrt (\<lambda>a b. \<not> lt b a) (take k es @ drop k es)" using assms(2) by simp
  ultimately show ?thesis unfolding sorted_wrt_append by blast
qed

lemma sorted_wrt_subseq: "subseq xs ys \<Longrightarrow> sorted_wrt P ys \<Longrightarrow> sorted_wrt P xs"
  by (induction rule: list_emb.induct) (auto dest: list_emb_set)

section \<open>Properties\<close>

text \<open>C5: what \<open>selectVictims\<close> takes. With any sort that meets its contract, on entries of realistic sizes,
  the call returns; its victims are entries of the list, none of them younger than the minimum
  residence; the returned bytes are the sum of their sizes; when one is an action-cache entry, the action
  cache that remains is at least the protected budget. The victims are taken from cold to hot, by the counts of the hot set, then from old to new, then
  from large to small; and no entry of the content store that is old enough is left while one that comes after it is taken, unless the call of \<open>Delete\<close>
  this very run made for it failed. While deleting, the system is changed by calls of \<open>Delete\<close> only, apart from measurements of the disk
  usage; they concern entries of the list, each at most once; the victims are exactly those deleted, and exactly they are reported to the observer, in that order, and
  taken out of the hot set. In a projection nothing changes.\<close>

theorem selectVictims_sound:
  assumes "hk_inv (n_heavykeeper n)" "sorts (e_sort E)" "sizes_ok ents"
  shows "\<exists>projected n' w' vs tried. selectVictims E n ents now bytesFree bytesUsed del w = Some (projected, n', w') \<and>
    mset vs \<subseteq># mset ents \<and>
    deletes E (n_cache n) w tried w' \<and> mset (map fst tried) \<subseteq># mset ents \<and> (if del then vs = deleted tried else tried = []) \<and>
    (\<forall>e \<in> set vs. ei_ModTime e \<le> now - MinimumResidence (n_policy n)) \<and>
    projected = bytes_sum vs \<and>
    ((\<exists>e \<in> set vs. ei_Kind e = ActionCache) \<longrightarrow>
       MinActionCacheBytes (n_policy n) \<le> kind_sum ActionCache ents - kind_sum ActionCache vs) \<and>
    sorted_wrt (goes_first (hk_hot (n_heavykeeper n))) vs \<and>
    (\<forall>e \<in> set ents - set vs. \<forall>v \<in> set vs. ei_Kind e = ContentCAS \<longrightarrow> ei_ModTime e \<le> now - MinimumResidence (n_policy n) \<longrightarrow>
       (\<forall>err. (e, Inl err) \<notin> set tried) \<longrightarrow> goes_first (hk_hot (n_heavykeeper n)) v e) \<and>
    n_observer n' = n_observer n @ (if del then map (\<lambda>e. RecordDeleted (ei_Kind e) (ei_Size e)) vs else []) \<and>
    (\<forall>key. hk_hot (n_heavykeeper n') key =
       (if del \<and> key \<in> ei_Key ` set vs then None else hk_hot (n_heavykeeper n) key)) \<and>
    (\<not> del \<longrightarrow> n' = n \<and> w' = w)"
proof -
  let ?hot = "hk_hot (n_heavykeeper n)"
  obtain items where items: "hk_List (n_heavykeeper n) = Some items" "heat_table items = ?hot"
    using hk_List_ok [OF assms(1)] heat_table_map_of by metis
  define es where "es = e_sort E (victim_less ?hot) ents"
  have es: "mset es = mset ents" "sorted_wrt (\<lambda>a b. \<not> victim_less ?hot b a) es" "set es = set ents"
    using assms(2) victim.strict_weak_axioms by (auto simp: sorts_def es_def dest: mset_eq_setD)
  have sz: "sizes_ok es" "kind_sum ActionCache es = kind_sum ActionCache ents" using sizes_ok_mset [OF es(1)] assms(3) by auto
  let ?v = "start_tally es bytesFree bytesUsed"
  obtain p n' w' where r: "select_loop E now del es ?v n w = Some (p, n', w')"
    using select_loop_total [OF assms(1)] by (metis not_Some_eq prod_cases3)
  then have sel: "selectVictims E n ents now bytesFree bytesUsed del w = Some (p, n', w')"
    using items by (simp add: selectVictims_def es_def Let_def)
  obtain k vs tried where s: "selected E now del es ?v n k vs tried p n'" "deletes E (n_cache n) w tried w'" using select_loop_selected [OF r assms(1)] by blast
  note exact = selected_exact [OF s(1) sz(1), unfolded es(1) sz(2)]
  have order: "goes_first ?hot v e" if "e \<in> set ents - set vs" "v \<in> set vs" "ei_Kind e = ContentCAS"
      "ei_ModTime e \<le> now - MinimumResidence (n_policy n)"
      "\<forall>err. (e, Inl err) \<notin> set tried" for e v
    using selected_order [OF s(1) es(2)] that es(3) by (simp add: old_enough_def flip: victim_goes_first)
  have "subseq (map fst tried) es" using s(1) subseq_rev_drop_many [of "map fst tried" "take k es" "drop k es"] by (simp add: selected_def)
  then have tried: "mset (map fst tried) \<subseteq># mset ents" "if del then vs = deleted tried else tried = []"
    using subseq_mset [of "map fst tried" es] s(1) by (simp_all add: es(1) selected_def)
  have "subseq vs es" using s(1) subseq_rev_drop_many [of vs "take k es" "drop k es"] by (simp add: selected_def)
  then have sorted: "sorted_wrt (goes_first ?hot) vs" using es(2) by (simp add: sorted_wrt_subseq victim_goes_first)
  have rest: "\<forall>e \<in> set vs. ei_ModTime e \<le> now - MinimumResidence (n_policy n)"
    "n_observer n' = n_observer n @ (if del then map (\<lambda>e. RecordDeleted (ei_Kind e) (ei_Size e)) vs else [])"
    "hk_hot (n_heavykeeper n') key = (if del \<and> key \<in> ei_Key ` set vs then None else ?hot key)" for key
    using s(1) by (auto simp: selected_def old_enough_def deletions_def cooled_def restrict_map_def)
  have "\<not> del \<longrightarrow> n' = n \<and> w' = w" using select_loop_shadow [of E now es ?v n w p n' w'] r by auto
  then show ?thesis using sel exact order sorted rest tried s(2)
    by (intro exI [of _ p] exI [of _ n'] exI [of _ w'] exI [of _ vs] exI [of _ tried] conjI impI ballI allI) (assumption | blast)+
qed

text \<open>A small cache and a manager to evaluate on: one action-cache entry of 100 bytes.\<close>

definition sample_entry :: EntryInfo where
  "sample_entry = \<lparr>ei_Key = ''ac/aa/'' @ digest_a, ei_Path = ''/cache/ac/aa/'' @ digest_a, ei_Kind = ActionCache,
     ei_Size = 100, ei_ModTime = 10, ei_Device = 7, ei_Inode = 4\<rparr>"

lemma sample_hk: "hk_inv (n_heavykeeper (sample_notify b))" "hk_List (n_heavykeeper (sample_notify b)) = Some []"
proof -
  show "hk_inv (n_heavykeeper (sample_notify b))" using sample_notify_ok by (simp add: notify_ok_def)
  have "hk_List (NewHeavyKeeper length_env 2 8 1 (Fin (1 / 2)) 1) = Some []" by code_simp
  then show "hk_List (n_heavykeeper (sample_notify b)) = Some []" by (simp add: sample_notify_def)
qed

lemma sample_env_sorts: "sorts (e_sort sample_env)"
  by (simp add: sample_env_def sorts_go_sort)

theorem selectVictims_sound_witness:
  "\<exists>projected n' w' vs. selectVictims sample_env (sample_notify True) [sample_entry] (10 ^ 18) 100 900 False sample_fs =
     Some (projected, n', w') \<and> mset vs \<subseteq># {#sample_entry#} \<and> projected = bytes_sum vs \<and> w' = sample_fs"
proof -
  have "sizes_ok [sample_entry]" by (simp add: sizes_ok_def bytes_sum_def sample_entry_def)
  from selectVictims_sound [OF sample_hk(1) sample_env_sorts this, of True "10 ^ 18" 100 900 False sample_fs]
  show ?thesis by auto
qed

text \<open>C22: a projection stops as early as it can. In shadow mode \<open>selectVictims\<close> changes nothing and returns the
  bytes of a list of victims in sorted order of which no shorter non-empty prefix brings the simulated free
  space and cache size to their targets; and either the whole list does, or everything old enough outside the action
  cache was taken.\<close>

theorem projection_minimal:
  assumes "hk_List (n_heavykeeper n) = Some items"
    "selectVictims E n ents now bytesFree bytesUsed False w = Some (projected, n', w')"
  defines "es \<equiv> e_sort E (victim_less (heat_table items)) ents"
  shows "n' = n \<and> w' = w \<and>
    (\<exists>vs. shadow_pick (n_policy n) now es (start_tally es bytesFree bytesUsed) vs \<and>
       projected = t_projectedBytes (simulate (start_tally es bytesFree bytesUsed) vs))"
  using select_loop_shadow [of E now es "start_tally es bytesFree bytesUsed" n w projected n' w'] assms
  by (simp add: selectVictims_def Let_def)

theorem projection_minimal_witness:
  "\<exists>projected vs. selectVictims sample_env (sample_notify True) [sample_entry] (10 ^ 18) 100 900 False sample_fs =
     Some (projected, sample_notify True, sample_fs) \<and>
     shadow_pick (sample_policy True) (10 ^ 18) [sample_entry] (start_tally [sample_entry] 100 900) vs"
proof -
  obtain p n' w' where r: "selectVictims sample_env (sample_notify True) [sample_entry] (10 ^ 18) 100 900 False sample_fs =
      Some (p, n', w')"
    using selectVictims_total [OF sample_hk(1) sample_hk(2), where E = sample_env and b1 = True and ents = "[sample_entry]"
        and now = "10 ^ 18" and bytesFree = 100 and bytesUsed = 900 and del = False and w = sample_fs] by (elim exE)
  have "e_sort sample_env lt [sample_entry] = [sample_entry]" for lt by (simp add: sample_env_def)
  then show ?thesis using projection_minimal [OF sample_hk(2) r] r by (auto simp: sample_notify_def)
qed

text \<open>Past the gates: without shadow mode, a trace with an unlink is bracketed by the lock.\<close>

definition bracketed :: "string \<Rightarrow> event list \<Rightarrow> bool" where
  "bracketed path tr \<longleftrightarrow> (\<exists>f u mid. tr = [EvOpen path lease_flags (Inr f), EvFlock f LOCK_EX_NB (Inr ())] @ mid @
     [EvFlock f LOCK_UN u, EvClose f] \<and> no_flock mid)"

lemma cleanup_evict_shadow:
  assumes "cleanup_evict (traced_env E) now ents f u n (w, tr) = Some (r, n', (w', tr'))" "Shadow (n_policy n)"
  shows "tr' = tr"
  using assms select_loop_shadow
  by (auto simp: cleanup_evict_def selectVictims_def Let_def split: option.splits prod.splits) force+

lemma cleanup_evict_bracketed:
  assumes "cleanup_evict (traced_env E) now ents f u n (w, tr0) = Some (r, n', (w', tr))"
  shows "\<exists>es. tr = tr0 @ es \<and> temporaries es = [] \<and> removals es = [] \<and>
    (unlinks es \<noteq> [] \<longrightarrow> \<not> Shadow (n_policy n) \<and> bracketed (al_path (n_lease n)) es)"
proof (cases "Shadow (n_policy n)")
  case True
  then show ?thesis using cleanup_evict_shadow [OF assms] by (auto simp: unlinks_def)
next
  case ns: False
  obtain lr w3 tr3 where l: "TryExclusive (traced (e_sys E)) (n_lease n) (w, tr0) = (lr, (w3, tr3))"
    by (metis prod.exhaust_sel)
  obtain es where es: "tr3 = tr0 @ es" "unlinks es = []" "temporaries es = []" "removals es = []"
    "(\<exists>f. lr = Inr (Some f) \<and> es = [EvOpen (al_path (n_lease n)) lease_flags (Inr f), EvFlock f LOCK_EX_NB (Inr ())]) \<or>
     ((\<nexists>f. lr = Inr (Some f)) \<and> opened_fds es = closed_fds es)"
    using TryExclusive_trace [OF l] by metis
  show ?thesis
  proof (cases "\<exists>f. lr = Inr (Some f)")
    case False
    then have "tr = tr0 @ es" using assms ns l es(1)
      by (auto simp: cleanup_evict_def split: sum.splits option.splits)
    then show ?thesis using es(2-4) by blast
  next
    case True
    then obtain lf where lf: "lr = Inr (Some lf)"
      "es = [EvOpen (al_path (n_lease n)) lease_flags (Inr lf), EvFlock lf LOCK_EX_NB (Inr ())]"
      using es(5) by auto
    obtain n1 w4 tr4 where c: "cleanup_locked (traced_env E) now n (w3, tr3) = Some (r, n1, (w4, tr4))"
      "snd (release (traced (e_sys E)) lf (w4, tr4)) = (w', tr)"
      using assms ns l lf(1) by (auto simp: cleanup_evict_def split: option.splits prod.splits)
    obtain mid where mid: "tr4 = tr3 @ mid" "no_flock mid" "temporaries mid = []" "removals mid = []"
      using cleanup_locked_log [OF c(1)] deleting_no_flock deleting_files by blast
    obtain rr where "release (traced (e_sys E)) lf (w4, tr4) = (rr, (w', tr))" using c(2) by (metis prod.collapse)
    then obtain uu where "tr = tr4 @ [EvFlock lf LOCK_UN uu, EvClose lf]" by (rule release_trace)
    then show ?thesis using ns mid es(1) lf(2) by (auto simp: bracketed_def)
  qed
qed

lemma cleanup_unlinks:
  assumes "cleanup (traced_env E) now n (w, tr0) = Some (r, n', (w', tr))"
  shows "\<exists>es. tr = tr0 @ es \<and> temporaries es = [] \<and> removals es = [] \<and>
    (unlinks es \<noteq> [] \<longrightarrow> n_ready n \<and> n_warmUntil n \<le> now \<and> \<not> Shadow (n_policy n) \<and>
    bracketed (al_path (n_lease n)) es)"
proof (cases "tr = tr0")
  case True
  then show ?thesis by (simp add: unlinks_def)
next
  case False
  obtain x w1 tr1 where x: "GetEntries (e_depth E) (traced (e_sys E)) (n_cache n) (w, tr0) = Some (x, (w1, tr1))"
    using assms(1) by (auto simp: cleanup_def Let_def split: option.splits)
  have tr1: "tr1 = tr0" using GetEntries_log [OF x] .
  obtain ents f u n2 w2 where gate: "n_ready n" "n_warmUntil n \<le> now"
    "cleanup_evict (traced_env E) now ents f u n2 (w2, tr0) = Some (r, n', (w', tr))"
    "n_policy n2 = n_policy n" "n_lease n2 = n_lease n"
    using assms x tr1 False
    by (auto simp: cleanup_def Let_def Ready_def not_less split: sum.splits prod.splits if_splits)
  then show ?thesis using cleanup_evict_bracketed [OF gate(3)] by simp
qed

text \<open>C1: files are deleted only behind all the gates and under the lease. If a cleanup cycle calls
  \<open>unlinkat\<close>, then the manager was ready, the warm-up was over and shadow mode was off; and its trace begins with
  opening the lock file and taking the exclusive lock on it, ends with unlocking and closing that
  descriptor, and touches no lock in between: every unlink happens while the lease is held, and the
  lease is always given back.\<close>

theorem cleanup_gated:
  assumes "cleanup (traced_env E) now n (w, []) = Some (r, n', (w', tr))" "unlinks tr \<noteq> []"
  shows "n_ready n \<and> n_warmUntil n \<le> now \<and> \<not> Shadow (n_policy n) \<and>
    (\<exists>f u mid. tr = [EvOpen (al_path (n_lease n)) lease_flags (Inr f), EvFlock f LOCK_EX_NB (Inr ())] @ mid @
       [EvFlock f LOCK_UN u, EvClose f] \<and> no_flock mid)"
  using cleanup_unlinks [OF assms(1)] assms(2) by (simp add: bracketed_def)

lemma sample_cleanup:
  "case cleanup (traced_env sample_env) (10 ^ 18) (sample_notify False) (sample_fs, []) of
     Some (r, n', (w', tr)) \<Rightarrow> r = Inr () \<and> RecordDeleted ActionCache 100 \<in> set (n_observer n') \<and> length (unlinks tr) = 1
   | None \<Rightarrow> False"
  by code_simp

theorem cleanup_gated_witness:
  "\<exists>r n' w' tr. cleanup (traced_env sample_env) (10 ^ 18) (sample_notify False) (sample_fs, []) = Some (r, n', (w', tr)) \<and>
     unlinks tr \<noteq> [] \<and> (\<exists>f. hd tr = EvOpen ''/lock'' lease_flags (Inr f))"
proof -
  obtain r n' w' tr where c: "cleanup (traced_env sample_env) (10 ^ 18) (sample_notify False) (sample_fs, []) = Some (r, n', (w', tr))"
    "length (unlinks tr) = 1"
    using sample_cleanup by (auto split: option.splits)
  then have u: "unlinks tr \<noteq> []" by auto
  from cleanup_gated [OF c(1) u] c(1) u show ?thesis by (auto simp: sample_notify_def)
qed

section \<open>The cycle returns\<close>

definition kept :: "Notify \<Rightarrow> Notify \<Rightarrow> bool" where
  "kept n n' \<longleftrightarrow> same_setup n n' \<and> hk_config (n_heavykeeper n') = hk_config (n_heavykeeper n)"

lemma kept_simps [simp]:
  "kept n n" "kept n (observe ob n') = kept n n'" "kept n (n'\<lparr>n_evicting := b\<rparr>) = kept n n'"
  by (simp_all add: kept_def)

lemma kept_trans: "kept a b \<Longrightarrow> kept b c \<Longrightarrow> kept a c"
  by (auto simp: kept_def intro: same_setup_trans)

lemma notify_ok_frame:
  "notify_ok n \<Longrightarrow> same_setup n n' \<Longrightarrow> hk_inv (n_heavykeeper n') \<Longrightarrow>
   hk_config (n_heavykeeper n') = hk_config (n_heavykeeper n) \<Longrightarrow> notify_ok n'"
  by (auto simp: notify_ok_def same_setup_def hk_config_def)

lemma selectVictims_keeps:
  assumes "notify_ok n"
  shows "\<exists>p n' w'. selectVictims E n ents now f u del w = Some (p, n', w') \<and> notify_ok n' \<and> kept n n'"
proof -
  have inv: "hk_inv (n_heavykeeper n)" using assms by (simp add: notify_ok_def)
  obtain items where items: "hk_List (n_heavykeeper n) = Some items" using hk_List_ok [OF inv] by blast
  obtain p n' w' where r: "selectVictims E n ents now f u del w = Some (p, n', w')"
    using selectVictims_total [OF inv items, of E ents now f u del w] by (elim exE)
  then have "same_setup n n' \<and> hk_inv (n_heavykeeper n') \<and> hk_config (n_heavykeeper n') = hk_config (n_heavykeeper n)"
    using items by (intro select_loop_frame [OF _ inv]) (simp add: selectVictims_def Let_def)
  then show ?thesis using r notify_ok_frame [OF assms] by (auto simp: kept_def)
qed

lemma notify_ok_evicting [simp]: "notify_ok (n\<lparr>n_evicting := b\<rparr>) = notify_ok n"
  by (simp add: notify_ok_def)

lemma cleanup_locked_keeps:
  assumes "notify_ok n" "cache_ok (n_cache n)" "walks_end E"
  shows "\<exists>r n' w'. cleanup_locked E now n w = Some (r, n', w') \<and> notify_ok n' \<and> kept n n'"
proof -
  obtain x w1 where x: "GetEntries (e_depth E) (e_sys E) (n_cache n) w = Some (x, w1)"
    using GetEntries_ends [OF assms(3,2), of w] by auto
  show ?thesis
  proof (cases x)
    case (Inr ents)
    obtain y w2 where y: "getDiskUsage E (diskRoot (n_cache n)) w1 = (y, w2)" by fastforce
    show ?thesis
    proof (cases y)
      case y': (Inr m)
      obtain pct f u where m: "m = (pct, f, u)" by (metis prod_cases3)
      let ?n = "n\<lparr>n_evicting := nextEvicting (n_policy n) (n_evicting n) \<lparr>percentBlocksFree = pct, cacheBytes = totalBytes ents\<rparr>\<rparr>"
      have "notify_ok ?n" using assms(1) by simp
      from selectVictims_keeps [OF this, of E ents now f u True w2]
      obtain p n' w' where "selectVictims E ?n ents now f u True w2 = Some (p, n', w')" "notify_ok n'" "kept ?n n'"
        by blast
      moreover have "kept n n'" using calculation(3) by (simp add: kept_def same_setup_def)
      ultimately show ?thesis using x Inr y y' m assms(1) by (auto simp: cleanup_locked_def Let_def)
    qed (use x Inr y assms(1) in \<open>auto simp: cleanup_locked_def\<close>)
  qed (use x assms(1) in \<open>auto simp: cleanup_locked_def\<close>)
qed

lemma cleanup_evict_keeps:
  assumes "notify_ok n" "cache_ok (n_cache n)" "walks_end E"
  shows "\<exists>r n' w'. cleanup_evict E now ents f u n w = Some (r, n', w') \<and> notify_ok n' \<and> kept n n'"
proof (cases "Shadow (n_policy n)")
  case True
  then show ?thesis using selectVictims_keeps [OF assms(1), of E ents now f u False w]
    by (auto simp: cleanup_evict_def)
next
  case False
  obtain l w1 where l: "TryExclusive (e_sys E) (n_lease n) w = (l, w1)" by fastforce
  show ?thesis
  proof (cases l)
    case (Inl e)
    then show ?thesis using False l assms(1) by (simp add: cleanup_evict_def)
  next
    case (Inr fo)
    then show ?thesis using False l assms(1) cleanup_locked_keeps [OF assms, of now w1]
      by (cases fo) (auto simp: cleanup_evict_def)
  qed
qed

lemma cleanup_keeps:
  assumes "notify_ok n" "cache_ok (n_cache n)" "walks_end E"
  shows "\<exists>r n' w'. cleanup E now n w = Some (r, n', w') \<and> notify_ok n' \<and> kept n n'"
proof -
  obtain x w1 where x: "GetEntries (e_depth E) (e_sys E) (n_cache n) w = Some (x, w1)"
    using GetEntries_ends [OF assms(3,2), of w] by auto
  show ?thesis
  proof (cases x)
    case (Inr ents)
    obtain y w2 where y: "getDiskUsage E (diskRoot (n_cache n)) w1 = (y, w2)" by fastforce
    show ?thesis
    proof (cases y)
      case y': (Inr m)
      obtain pct f u where m: "m = (pct, f, u)" by (metis prod_cases3)
      let ?n1 = "observe (SetCacheBytes (totalBytes ents)) (observe (SetDisk f u) (observe (RecordProjected 0) n))"
      let ?n2 = "?n1\<lparr>n_evicting := nextEvicting (n_policy ?n1) (n_evicting ?n1)
          \<lparr>percentBlocksFree = pct, cacheBytes = totalBytes ents\<rparr>\<rparr>"
      have ok: "notify_ok ?n2" "kept n ?n2" using assms(1) by simp_all
      have "n_cache ?n2 = n_cache n" by simp
      then obtain r n' w' where "cleanup_evict E now ents f u ?n2 w2 = Some (r, n', w')" "notify_ok n'" "kept ?n2 n'"
        using cleanup_evict_keeps [OF ok(1) _ assms(3), of now ents f u w2] assms(2) by auto
      then show ?thesis using x Inr y y' m ok kept_trans [OF ok(2)]
        by (auto simp: cleanup_def Let_def)
    qed (use x Inr y assms(1) in \<open>auto simp: cleanup_def Let_def\<close>)
  qed (use x assms(1) in \<open>auto simp: cleanup_def Let_def\<close>)
qed

text \<open>C21: a cleanup cycle always returns. When the estimator is well-formed, as it is after \<open>New\<close>, and the kernel bounds
  the length of paths, \<open>cleanup\<close> neither panics nor hangs, whatever the file system, the disk probe and the
  lock answer; the manager stays well-formed and keeps its cache, policy, lease, watcher, readiness and warm-up time.\<close>

theorem cleanup_returns:
  assumes "notify_ok n" "cache_ok (n_cache n)" "walks_end E"
  shows "\<exists>r n' w'. cleanup E now n w = Some (r, n', w') \<and> notify_ok n' \<and> same_setup n n'"
  using cleanup_keeps [OF assms, of now w] by (auto simp: kept_def)

theorem cleanup_returns_witness:
  "\<exists>r n' w'. cleanup deep_env (10 ^ 18) (sample_notify False) sample_fs = Some (r, n', w') \<and> notify_ok n'"
proof -
  have "cache_ok (n_cache (sample_notify False))" using example_cache_ok by (simp add: sample_notify_def)
  from cleanup_returns [OF sample_notify_ok this deep_env_walks_end, of "10 ^ 18" sample_fs]
  show ?thesis by blast
qed

end
