(* ===== verification/State_Machine.thy ===== *)
theory State_Machine
  imports Main
begin

text \<open>
  Machines given by a partial step function: the states they pass through on admissible inputs while their outcomes say
  to go on, and the contract under which an invariant holds in all of them and no step is stuck. It is met by the event
  loop (\<open>Notify_Run\<close>) and by the reader of the inotify descriptor (\<open>Inotify_Reader\<close>).
\<close>

inductive reachable :: "('i \<Rightarrow> 's \<Rightarrow> ('o \<times> 's) option) \<Rightarrow> ('i \<Rightarrow> bool) \<Rightarrow> ('o \<Rightarrow> bool) \<Rightarrow> 's \<Rightarrow> 's \<Rightarrow> bool"
  for step good cont s0 where
  here: "reachable step good cont s0 s0"
| there: "reachable step good cont s0 s \<Longrightarrow> good i \<Longrightarrow> step i s = Some (out, s') \<Longrightarrow> cont out \<Longrightarrow> reachable step good cont s0 s'"

lemma reachable_one: "good i \<Longrightarrow> step i s = Some (out, s') \<Longrightarrow> cont out \<Longrightarrow> reachable step good cont s s'"
  by (rule reachable.there) (rule reachable.here)

locale machine =
  fixes step :: "'i \<Rightarrow> 's \<Rightarrow> ('o \<times> 's) option" and good :: "'i \<Rightarrow> bool" and cont :: "'o \<Rightarrow> bool" and inv :: "'s \<Rightarrow> bool"
  assumes progress: "inv s \<Longrightarrow> good i \<Longrightarrow> step i s \<noteq> None"
    and keeps_inv: "inv s \<Longrightarrow> good i \<Longrightarrow> step i s = Some (out, s') \<Longrightarrow> cont out \<Longrightarrow> inv s'"
begin

lemma reachable_inv: "reachable step good cont s0 s \<Longrightarrow> inv s0 \<Longrightarrow> inv s"
  by (induction rule: reachable.induct) (auto intro: keeps_inv)

lemma never_stuck: "reachable step good cont s0 s \<Longrightarrow> inv s0 \<Longrightarrow> good i \<Longrightarrow> \<exists>out s'. step i s = Some (out, s')"
  using progress [OF reachable_inv, of s0 s i] by auto

end

end
