(* ===== verification/Notify_Run.thy ===== *)
theory Notify_Run
  imports Notify_Events Cleanup_Properties State_Machine
begin

text \<open>
  The event loop \<open>Run\<close> of \<open>src/eviction/notify.go\<close> as a state machine: a step is one case of the \<open>select\<close>
  statement, with the value received as the input; which case is taken is not determined, so every
  sequence of inputs is a run. A step either continues or returns, and a return runs the deferred
  function. Logging is left out.

  The invariant of the loop: between two steps the manager is well-formed, ready, has an open
  watcher and watches only the cache area; no step panics.
\<close>

section \<open>The loop\<close>

datatype input = CtxDone | Receive chan | CleanupTick | CheckpointTick | DecayTick

datatype outcome = Continue | Return "unit result"

type_synonym schedule = "chan list \<times> chan list"

definition recover_step ::
  "'w env \<Rightarrow> schedule \<Rightarrow> Notify \<Rightarrow> 'w \<Rightarrow> (outcome \<times> Notify \<times> 'w) option" where
  "recover_step E sched n w =
     (case recoverWatcher E sched n w of
        None \<Rightarrow> None
      | Some (Inl e, n', w') \<Rightarrow> Some (Return (Inl e), n', w')
      | Some (Inr _, n', w') \<Rightarrow> Some (Continue, n', w'))"

definition receive_step ::
  "'w env \<Rightarrow> schedule \<Rightarrow> chan \<Rightarrow> Notify \<Rightarrow> 'w \<Rightarrow> (outcome \<times> Notify \<times> 'w) option" where
  "receive_step E sched m n w =
     (case m of
        EventClosed \<Rightarrow> recover_step E sched n w
      | EventMsg event \<Rightarrow>
          (case handleEvent E n event w of
             None \<Rightarrow> None
           | Some (Inl e, n', w') \<Rightarrow> recover_step E sched n' w'
           | Some (Inr _, n', w') \<Rightarrow> Some (Continue, n', w'))
      | ErrorClosed \<Rightarrow> recover_step E sched n w
      | ErrorMsg err \<Rightarrow> if err = ErrEventOverflow then recover_step E sched n w else Some (Continue, n, w))"

text \<open>The loop reads the channels of the watcher first, which panics without one.\<close>

definition run_step :: "'w env \<Rightarrow> schedule \<Rightarrow> input \<Rightarrow> Notify \<Rightarrow> 'w \<Rightarrow> (outcome \<times> Notify \<times> 'w) option" where
  "run_step E sched i n w =
     (case n_watcher n of
        None \<Rightarrow> None
      | Some _ \<Rightarrow>
          (case i of
             CtxDone \<Rightarrow>
               (case notify_saveCheckpoint E n w of None \<Rightarrow> None | Some (_, w') \<Rightarrow> Some (Return (Inr ()), n, w'))
           | Receive m \<Rightarrow> receive_step E sched m n w
           | CleanupTick \<Rightarrow>
               (case e_now E w of
                  (t, w1) \<Rightarrow> (case cleanup E t n w1 of None \<Rightarrow> None | Some (_, n', w') \<Rightarrow> Some (Continue, n', w')))
           | CheckpointTick \<Rightarrow>
               (case notify_saveCheckpoint E n w of None \<Rightarrow> None | Some (_, w') \<Rightarrow> Some (Continue, n, w'))
           | DecayTick \<Rightarrow>
               map_option (\<lambda>tk. (Continue, n\<lparr>n_heavykeeper := tk\<rparr>, w)) (hk_Fading (n_heavykeeper n))))"

definition run_exit :: "Notify \<Rightarrow> Notify" where
  "run_exit n = close_watcher (set_ready False n)"

text \<open>The first component: \<open>None\<close> while the loop is still running after the inputs.\<close>

primrec run_loop ::
  "'w env \<Rightarrow> (schedule \<times> input) list \<Rightarrow> Notify \<Rightarrow> 'w \<Rightarrow> (unit result option \<times> Notify \<times> 'w) option" where
  "run_loop E [] n w = Some (None, n, w)"
| "run_loop E (i # is) n w =
     (case run_step E (fst i) (snd i) n w of
        None \<Rightarrow> None
      | Some (Return r, n', w') \<Rightarrow> Some (Some r, run_exit n', w')
      | Some (Continue, n', w') \<Rightarrow> run_loop E is n' w')"

text \<open>What is done before the loop: \<open>Inl\<close> when \<open>Run\<close> returns at once.\<close>

definition run_start :: "'w env \<Rightarrow> schedule \<Rightarrow> Notify \<Rightarrow> 'w \<Rightarrow> (unit result \<times> Notify \<times> 'w) option" where
  "run_start E sched n w =
     (case restoreCheckpoint E n w of
        None \<Rightarrow> None
      | Some (checkpointRestored, n1, w1) \<Rightarrow>
          (case reconcile E sched False n1 w1 of
             None \<Rightarrow> None
           | Some (Inl e, n2, w2) \<Rightarrow> Some (Inl e, n2, w2)
           | Some (Inr _, n2, w2) \<Rightarrow>
               if \<not> checkpointRestored
               then (case e_now E w2 of
                       (t, w3) \<Rightarrow> Some (Inr (), n2\<lparr>n_warmUntil := t + WarmupDuration (n_policy n2)\<rparr>, w3))
               else Some (Inr (), n2, w2)))"

text \<open>A ticker with an interval that is not positive panics.\<close>

definition start_tickers :: "EvictionPolicy \<Rightarrow> unit option" where
  "start_tickers p =
     (if DiskCheckInterval p \<le> 0 \<or> CheckpointInterval p \<le> 0 \<or> TopKDecayInterval p \<le> 0 then None else Some ())"

definition Run ::
  "'w env \<Rightarrow> schedule \<Rightarrow> (schedule \<times> input) list \<Rightarrow> Notify \<Rightarrow> 'w \<Rightarrow> (unit result option \<times> Notify \<times> 'w) option" where
  "Run E sched is n w =
     (case run_start E sched n w of
        None \<Rightarrow> None
      | Some (Inl e, n', w') \<Rightarrow> Some (Some (Inl e), n', w')
      | Some (Inr _, n', w') \<Rightarrow>
          (case start_tickers (n_policy n') of None \<Rightarrow> None | Some _ \<Rightarrow> run_loop E is n' w'))"

section \<open>Reconciling\<close>

lemma drain_ok:
  assumes "cache_ok (n_cache n)" "walks_end E" "watcher_ok (n_cache n) wt"
  shows "\<exists>r' wt' w'. drainReconciliationEvents E n ms r wt w = Some (r', wt', w') \<and> watcher_ok (n_cache n) wt'"
  using assms(3)
proof (induction ms arbitrary: r wt w)
  case (Cons m ms)
  show ?case
  proof (cases "\<exists>event. r = Inr () \<and> m = EventMsg event")
    case True
    then obtain event where m: "r = Inr ()" "m = EventMsg event" by blast
    have "\<exists>r' wt' w'. handleReconciliationEvent E n wt event w = Some (r', wt', w') \<and> watcher_ok (n_cache n) wt'"
    proof (cases event)
      case (Some ev)
      obtain r' wt' w' where a: "addDirectoryWatches E n wt (Clean (ev_Name ev)) w = Some (r', wt', w')"
        using addDirectoryWatches_total [OF assms(1,2)] by metis
      from addDirectoryWatches_ok(1) [OF assms(1) Cons.prems a] show ?thesis
        using Some a Cons.prems by (auto simp: handleReconciliationEvent_def)
    qed (use Cons.prems in \<open>simp add: handleReconciliationEvent_def\<close>)
    then obtain r' wt' w' where h: "handleReconciliationEvent E n wt event w = Some (r', wt', w')"
      "watcher_ok (n_cache n) wt'" by blast
    show ?thesis using m h(1) Cons.IH [OF h(2), of r' w'] by simp
  qed (use Cons.prems in \<open>auto split: sum.split chan.split\<close>)
qed simp

lemma scan_draining_ok:
  assumes "cache_ok (n_cache n)" "walks_end E" "watcher_ok (n_cache n) wt"
  shows "\<exists>r wt' w'. scanEntriesWhileDraining E sched n wt w = Some (r, wt', w') \<and> watcher_ok (n_cache n) wt'"
proof -
  obtain r1 wt1 w1 where 1: "drainReconciliationEvents E n (fst sched) (Inr ()) wt w = Some (r1, wt1, w1)"
    "watcher_ok (n_cache n) wt1" using drain_ok [OF assms] by blast
  obtain x w2 where 2: "GetEntries (e_depth E) (e_sys E) (n_cache n) w1 = Some (x, w2)"
    using GetEntries_ends [OF assms(2,1), of w1] by auto
  obtain r3 wt3 w3 where 3: "drainReconciliationEvents E n (snd sched) r1 wt1 w2 = Some (r3, wt3, w3)"
    "watcher_ok (n_cache n) wt3" using drain_ok [OF assms(1,2) 1(2)] by blast
  show ?thesis using 1(1) 2 3 by (simp add: scanEntriesWhileDraining_def)
qed

definition reset_if :: "bool \<Rightarrow> HeavyKeeper \<Rightarrow> HeavyKeeper" where
  "reset_if b tk = (if b then hk_reset tk else tk)"

lemma set_ready_simps [simp]:
  "n_cache (set_ready b n) = n_cache n" "n_watcher (set_ready b n) = n_watcher n"
  "n_heavykeeper (set_ready b n) = n_heavykeeper n" "n_policy (set_ready b n) = n_policy n"
  "n_ready (set_ready b n) = b" "n_warmUntil (set_ready b n) = n_warmUntil n" "n_evicting (set_ready b n) = n_evicting n"
  "n_observer (set_ready b n) = n_observer n @ [SetReady b]"
  "notify_ok (set_ready b n) = notify_ok n" "same_manager m (set_ready b n) = same_manager m n"
  "watching (set_ready b n) = watching n"
  by (simp_all add: set_ready_def)

lemma close_watcher_simps [simp]:
  "n_cache (close_watcher n) = n_cache n" "n_heavykeeper (close_watcher n) = n_heavykeeper n"
  "n_policy (close_watcher n) = n_policy n" "n_ready (close_watcher n) = n_ready n"
  "n_warmUntil (close_watcher n) = n_warmUntil n" "n_evicting (close_watcher n) = n_evicting n"
  "n_observer (close_watcher n) = n_observer n" "notify_ok (close_watcher n) = notify_ok n"
  "same_manager m (close_watcher n) = same_manager m n"
  by (simp_all add: close_watcher_def)

definition watcher_closed :: "Notify \<Rightarrow> bool" where
  "watcher_closed n \<longleftrightarrow> (\<forall>wt. n_watcher n = Some wt \<longrightarrow> wt_isClosed wt)"

lemma isClosed_Close [simp]: "wt_isClosed (Watcher_Close wt)"
  by (simp add: Watcher_Close_def)

lemma watcher_closed_close [simp]: "watcher_closed (close_watcher n)"
  by (auto simp: watcher_closed_def close_watcher_def)

lemma NewWatcher_watcher_ok: "NewWatcher I w = (Inr wt, w') \<Longrightarrow> watcher_ok c wt"
  by (auto simp: NewWatcher_def watcher_ok_def split: sum.splits prod.splits)

text \<open>The two ends of a reconciliation.\<close>

definition reconciled :: "'w env \<Rightarrow> bool \<Rightarrow> Notify \<Rightarrow> Notify \<Rightarrow> bool" where
  "reconciled E resetHeat n n' \<longleftrightarrow> n_ready n' \<and> watching n' \<and>
     n_heavykeeper n' = reset_if resetHeat (n_heavykeeper n) \<and>
     (if resetHeat then \<exists>w t w'. e_now E w = (t, w') \<and> n_warmUntil n' = t + WarmupDuration (n_policy n)
      else n_warmUntil n' = n_warmUntil n)"

definition frozen :: "Notify \<Rightarrow> Notify \<Rightarrow> bool" where
  "frozen n n' \<longleftrightarrow> \<not> n_ready n' \<and> watcher_closed n' \<and> n_heavykeeper n' = n_heavykeeper n \<and> n_warmUntil n' = n_warmUntil n"

lemma reconcile_ok:
  assumes "notify_ok n" "cache_ok (n_cache n)" "walks_end E"
  shows "\<exists>r n' w'. reconcile E sched b n w = Some (r, n', w') \<and> notify_ok n' \<and> same_manager n n' \<and>
    n_evicting n' = n_evicting n \<and> (if r = Inr () then reconciled E b n n' else frozen n n')"
proof -
  let ?n = "close_watcher (set_ready False n)"
  have c: "cache_ok (n_cache ?n)" using assms(2) by simp
  have fz: "frozen n ?n" by (simp add: frozen_def)
  obtain x w1 where x: "NewWatcher (e_ino E) w = (x, w1)" by fastforce
  show ?thesis
  proof (cases x)
    case (Inl e)
    then show ?thesis using x fz assms(1) by (simp add: reconcile_def)
  next
    case (Inr wt)
    obtain r1 wt1 w2 where a: "addDirectoryWatches E ?n wt (DiskRoot (n_cache ?n)) w1 = Some (r1, wt1, w2)"
    proof -
      have "Clean (diskRoot (n_cache n)) = diskRoot (n_cache n)" using assms(2) unfolding cache_ok_def by (metis Clean_abs_path)
      then show thesis using addDirectoryWatches_total [OF c assms(3), of wt "diskRoot (n_cache n)" w1] that
        by (auto simp: DiskRoot_def)
    qed
    have wt: "watcher_ok (n_cache ?n) wt1"
      using addDirectoryWatches_ok(1) [OF c NewWatcher_watcher_ok [OF x [unfolded Inr]] a] .
    obtain r2 wt2 w3 where s: "scanEntriesWhileDraining E sched ?n wt1 w2 = Some (r2, wt2, w3)" "watcher_ok (n_cache n) wt2"
      using scan_draining_ok [OF c assms(3) wt, of sched w2] by auto
    obtain t w4 where t: "e_now E w3 = (t, w4)" by fastforce
    have now: "\<exists>w w'. e_now E w = (t, w')" using t by blast
    have hk: "notify_ok (?n\<lparr>n_watcher := Some wt2, n_heavykeeper := hk_reset (n_heavykeeper n)\<rparr>)"
        "same_manager n (?n\<lparr>n_watcher := Some wt2, n_heavykeeper := hk_reset (n_heavykeeper n)\<rparr>)"
      using assms(1) hk_reset_ok(1,2) [of "n_heavykeeper n"] by (auto simp: notify_ok_def same_manager_def hk_config_def
          close_watcher_def set_ready_def)
    show ?thesis
    proof (cases "r1 = Inr () \<and> (\<exists>ents. r2 = Inr ents)")
      case True
      then show ?thesis using x Inr a s t hk now assms(1)
        by (cases b; auto simp: reconcile_def reconciled_def reset_if_def Let_def; blast)
    next
      case False
      then show ?thesis using x Inr a s(1) fz assms(1) by (cases r1; cases r2) (auto simp: reconcile_def)
    qed
  qed
qed

lemma recover_step_ok:
  assumes "notify_ok n" "cache_ok (n_cache n)" "walks_end E"
  shows "\<exists>out n' w'. recover_step E sched n w = Some (out, n', w') \<and> notify_ok n' \<and> same_manager n n' \<and>
    n_evicting n' = n_evicting n \<and>
    (if out = Continue then reconciled E True n n' else (\<exists>e. out = Return (Inl e)) \<and> frozen n n')"
proof -
  let ?n = "observe (RecordFrozen ''watcher_loss'') n"
  obtain r n' w' where r: "reconcile E sched True ?n w = Some (r, n', w')" "notify_ok n'" "same_manager ?n n'"
    "n_evicting n' = n_evicting ?n" "if r = Inr () then reconciled E True ?n n' else frozen ?n n'"
    using reconcile_ok [of ?n E sched True w] assms by auto
  have "same_manager n n'" using r(3) by (simp add: same_manager_def)
  moreover have "reconciled E True ?n n' = reconciled E True n n'" "frozen ?n n' = frozen n n'"
    by (simp_all add: reconciled_def frozen_def)
  ultimately show ?thesis using r by (cases r) (auto simp: recover_step_def recoverWatcher_def)
qed

section \<open>The invariant of the loop\<close>

definition loop_step :: "'w env \<Rightarrow> schedule \<times> input \<Rightarrow> Notify \<times> 'w \<Rightarrow> (outcome \<times> Notify \<times> 'w) option" where
  "loop_step E i s = run_step E (fst i) (snd i) (fst s) (snd s)"

abbreviation goes_on :: "outcome \<Rightarrow> bool" where
  "goes_on out \<equiv> out = Continue"

definition loop_ok :: "'w env \<Rightarrow> Notify \<Rightarrow> bool" where
  "loop_ok E n \<longleftrightarrow> walks_end E \<and> cache_ok (n_cache n) \<and> notify_ok n \<and> n_ready n \<and> watching n"

definition loop_inv :: "'w env \<Rightarrow> Notify \<Rightarrow> Notify \<times> 'w \<Rightarrow> bool" where
  "loop_inv E n0 s \<longleftrightarrow> loop_ok E (fst s) \<and> same_manager n0 (fst s)"

lemma loop_okI:
  "loop_ok E n \<Longrightarrow> notify_ok n' \<Longrightarrow> same_manager n n' \<Longrightarrow> n_ready n' \<Longrightarrow> watching n' \<Longrightarrow> loop_ok E n'"
  by (simp add: loop_ok_def same_manager_def)

lemma saveCheckpoint_total:
  assumes "notify_ok n" shows "\<exists>r w'. notify_saveCheckpoint E n w = Some (r, w')"
proof -
  obtain items where "hk_List (n_heavykeeper n) = Some items"
    using hk_List_ok [of "n_heavykeeper n"] assms by (auto simp: notify_ok_def)
  then show ?thesis by (auto simp: notify_saveCheckpoint_def split: prod.split)
qed

lemma cleanup_loop:
  assumes "loop_ok E n"
  shows "\<exists>r n' w'. cleanup E t n w = Some (r, n', w') \<and> loop_ok E n' \<and> same_manager n n' \<and> n_warmUntil n' = n_warmUntil n"
proof -
  have c: "notify_ok n" "cache_ok (n_cache n)" "walks_end E" using assms by (simp_all add: loop_ok_def)
  from cleanup_keeps [OF this, of t w] obtain r n' w' where n': "cleanup E t n w = Some (r, n', w')" "notify_ok n'" "kept n n'"
    by blast
  then have "same_manager n n'" by (simp add: kept_def same_setup_def same_manager_def)
  then show ?thesis using n' assms loop_okI [OF assms, of n'] by (auto simp: kept_def same_setup_def watching_def loop_ok_def)
qed

text \<open>The end of the warm-up stays, or is set anew from a reading of the clock.\<close>

definition rewarmed :: "'w env \<Rightarrow> Notify \<Rightarrow> Notify \<Rightarrow> bool" where
  "rewarmed E n n' \<longleftrightarrow> n_warmUntil n' = n_warmUntil n \<or>
     (\<exists>w t w'. e_now E w = (t, w') \<and> n_warmUntil n' = t + WarmupDuration (n_policy n))"

lemma rewarmed_same [simp]: "n_warmUntil n' = n_warmUntil n \<Longrightarrow> rewarmed E n n'"
  by (simp add: rewarmed_def)

lemma reconciled_rewarmed: "reconciled E b x n' \<Longrightarrow> same_manager n x \<Longrightarrow> n_warmUntil x = n_warmUntil n \<Longrightarrow> rewarmed E n n'"
  by (cases b) (simp_all add: reconciled_def rewarmed_def same_manager_def)

lemma receive_step_ok:
  assumes "loop_ok E n"
  shows "\<exists>out n' w'. receive_step E sched m n w = Some (out, n', w') \<and> notify_ok n' \<and> same_manager n n' \<and>
    (out = Continue \<longrightarrow> n_ready n' \<and> watching n' \<and> rewarmed E n n')"
proof -
  have n: "notify_ok n" "cache_ok (n_cache n)" "walks_end E" "n_ready n" "watching n" using assms by (simp_all add: loop_ok_def)
  have rec: "\<exists>out n' w'. recover_step E sched x w1 = Some (out, n', w') \<and> notify_ok n' \<and> same_manager n n' \<and>
      (out = Continue \<longrightarrow> n_ready n' \<and> watching n' \<and> rewarmed E n n')" if x: "notify_ok x" "same_manager n x" "n_warmUntil x = n_warmUntil n" for x w1
  proof -
    have "cache_ok (n_cache x)" using x(2) n(2) by (simp add: same_manager_def)
    from recover_step_ok [OF x(1) this n(3), of sched w1] obtain out n' w'
      where r: "recover_step E sched x w1 = Some (out, n', w')" "notify_ok n'" "same_manager x n'"
        "out = Continue \<longrightarrow> reconciled E True x n'" by (auto split: if_splits)
    have "n_ready n' \<and> watching n' \<and> rewarmed E n n'" if "out = Continue"
      using r(4) that reconciled_rewarmed [OF _ x(2,3), of E True n'] by (simp add: reconciled_def)
    then show ?thesis using r(1,2) same_manager_trans [OF x(2) r(3)] by blast
  qed
  show ?thesis
  proof (cases m)
    case (EventMsg event)
    obtain r n' w' where h: "handleEvent E n event w = Some (r, n', w')" "notify_ok n'" "same_manager n n'" "same_phase n n'"
      "watching n'" using handleEvent_ok [OF n(1-3,5), of event w] by blast
    then show ?thesis using EventMsg rec [OF h(2,3), of w'] n(4) by (cases r) (auto simp: receive_step_def same_phase_def)
  qed (use rec [OF n(1), of w] n in \<open>auto simp: receive_step_def\<close>)
qed

lemma run_step_ok:
  assumes "loop_ok E n"
  shows "\<exists>out n' w'. run_step E sched i n w = Some (out, n', w') \<and> notify_ok n' \<and> same_manager n n' \<and>
    (out = Continue \<longrightarrow> n_ready n' \<and> watching n' \<and> rewarmed E n n')"
proof -
  have n: "notify_ok n" "n_ready n" "watching n" using assms by (simp_all add: loop_ok_def)
  obtain wt where wt: "n_watcher n = Some wt" using n(3) by (auto simp: watching_def)
  show ?thesis
  proof (cases i)
    case (Receive m)
    then show ?thesis using receive_step_ok [OF assms, of sched m w] wt by (simp add: run_step_def)
  next
    case CleanupTick
    obtain t w1 where t: "e_now E w = (t, w1)" by fastforce
    from cleanup_loop [OF assms, of t w1] show ?thesis using CleanupTick wt t by (auto simp: run_step_def loop_ok_def)
  next
    case DecayTick
    obtain tk where tk: "hk_Fading (n_heavykeeper n) = Some tk" "hk_inv tk" "hk_config tk = hk_config (n_heavykeeper n)"
      using hk_Fading_ok [of "n_heavykeeper n"] n(1) by (auto simp: notify_ok_def)
    show ?thesis using DecayTick wt tk(1) n notify_ok_heat [OF n(1) tk(2,3)] by (simp add: run_step_def)
  qed (use saveCheckpoint_total [OF n(1), of E w] wt n in \<open>auto simp: run_step_def\<close>)
qed

interpretation loop: machine "loop_step E" "\<lambda>_. True" goes_on "loop_inv E n0" for E n0
proof
  fix s i assume inv: "loop_inv E n0 s"
  then have ok: "loop_ok E (fst s)" "same_manager n0 (fst s)" by (simp_all add: loop_inv_def)
  from run_step_ok [OF ok(1), of "fst i" "snd i" "snd s"]
  show "loop_step E i s \<noteq> None" by (auto simp: loop_step_def)
  fix out s' assume st: "loop_step E i s = Some (out, s')" "goes_on out"
  with run_step_ok [OF ok(1), of "fst i" "snd i" "snd s"]
  have "notify_ok (fst s')" "same_manager (fst s) (fst s')" "n_ready (fst s')" "watching (fst s')"
    by (auto simp: loop_step_def)
  then show "loop_inv E n0 s'" using ok loop_okI [OF ok(1)] same_manager_trans [OF ok(2)] by (auto simp: loop_inv_def)
qed

section \<open>The start\<close>

lemma hk_Restore_total:
  assumes "hk_inv tk" "hk_width tk \<noteq> 0"
  shows "\<exists>tk'. hk_Restore E tk items = Some tk' \<and> hk_inv tk' \<and> hk_config tk' = hk_config tk"
  using hk_step_ok [OF assms hk_within_top, of E "HkRestore items"] by auto

lemma restoreCheckpoint_ok:
  assumes "notify_ok n"
  shows "\<exists>b n' w'. restoreCheckpoint E n w = Some (b, n', w') \<and> notify_ok n' \<and> same_manager n n' \<and>
    same_phase n n' \<and> n_watcher n' = n_watcher n \<and> (b \<or> n' = n)"
proof -
  have hk: "hk_inv (n_heavykeeper n)" "hk_width (n_heavykeeper n) \<noteq> 0" using assms by (simp_all add: notify_ok_def)
  obtain x w1 where x: "loadCheckpoint (e_json E) (e_ck E) (n_checkpointFile n) (TopKCapacity (n_policy n)) w = (x, w1)"
    by fastforce
  show ?thesis
  proof (cases "\<exists>items. x = Inr (Some items)")
    case True
    then obtain items where items: "x = Inr (Some items)" by blast
    obtain ex w2 where ex: "existing_items (e_sys E) (n_cache n) items w1 = (ex, w2)" by fastforce
    obtain tk where tk: "hk_Restore (e_hk E) (n_heavykeeper n) ex = Some tk" "hk_inv tk"
      "hk_config tk = hk_config (n_heavykeeper n)" using hk_Restore_total [OF hk] by blast
    show ?thesis using x items ex tk(1) notify_ok_heat [OF assms tk(2,3)] by (auto simp: restoreCheckpoint_def)
  qed (use x assms in \<open>auto simp: restoreCheckpoint_def split: sum.split option.split\<close>)
qed

lemma run_start_ok:
  assumes "notify_ok n" "cache_ok (n_cache n)" "walks_end E"
  shows "\<exists>r n' w'. run_start E sched n w = Some (r, n', w') \<and> notify_ok n' \<and> same_manager n n' \<and>
    (if r = Inr () then loop_ok E n' else \<not> n_ready n' \<and> watcher_closed n')"
proof -
  obtain b n1 w1 where 1: "restoreCheckpoint E n w = Some (b, n1, w1)" "notify_ok n1" "same_manager n n1"
    using restoreCheckpoint_ok [OF assms(1), of E w] by blast
  have c: "cache_ok (n_cache n1)" using 1(3) assms(2) by (simp add: same_manager_def)
  obtain r n2 w2 where 2: "reconcile E sched False n1 w1 = Some (r, n2, w2)" "notify_ok n2" "same_manager n1 n2"
    "if r = Inr () then reconciled E False n1 n2 else frozen n1 n2"
    using reconcile_ok [OF 1(2) c assms(3), of sched False w1] by blast
  have sm: "same_manager n n2" using same_manager_trans [OF 1(3) 2(3)] .
  then have ok: "r = Inr () \<Longrightarrow> loop_ok E n2"
    using 2(2,4) assms(2,3) by (simp add: loop_ok_def reconciled_def same_manager_def)
  have upd: "loop_ok E (n2\<lparr>n_warmUntil := t\<rparr>) = loop_ok E n2" for t by (simp add: loop_ok_def)
  obtain t w3 where "e_now E w2 = (t, w3)" by fastforce
  then show ?thesis using 1(1) 2 sm ok upd
    by (cases r; cases b) (auto simp: run_start_def frozen_def)
qed

lemma run_loop_ok:
  assumes "loop_ok E n"
  shows "\<exists>r n' w'. run_loop E is n w = Some (r, n', w') \<and> notify_ok n' \<and> same_manager n n' \<and>
    (if r = None then loop_ok E n' \<and> CtxDone \<notin> snd ` set is else \<not> n_ready n' \<and> watcher_closed n')"
  using assms
proof (induction "is" arbitrary: n w)
  case (Cons i "is")
  obtain out n' w' where st: "run_step E (fst i) (snd i) n w = Some (out, n', w')" "notify_ok n'" "same_manager n n'"
    "out = Continue \<longrightarrow> n_ready n' \<and> watching n' \<and> rewarmed E n n'" using run_step_ok [OF Cons.prems] by blast
  show ?case
  proof (cases out)
    case Continue
    then have ok: "loop_ok E n'" using loop_okI [OF Cons.prems] st by blast
    have "snd i \<noteq> CtxDone" using st(1) Continue by (auto simp: run_step_def split: option.splits prod.splits)
    moreover obtain r n2 w2 where "run_loop E is n' w' = Some (r, n2, w2)" "notify_ok n2" "same_manager n' n2"
      "if r = None then loop_ok E n2 \<and> CtxDone \<notin> snd ` set is else \<not> n_ready n2 \<and> watcher_closed n2"
      using Cons.IH [OF ok, of w'] by blast
    ultimately show ?thesis using st Continue same_manager_trans [OF st(3)] by auto
  next
    case (Return r)
    then show ?thesis using st by (simp add: run_exit_def)
  qed
qed (simp add: loop_ok_def)

lemma start_tickers_ok: "notify_ok n \<Longrightarrow> start_tickers (n_policy n) = Some ()"
  by (auto simp: notify_ok_def start_tickers_def elim!: ValidateD)

lemma Run_ends:
  assumes "notify_ok n" "cache_ok (n_cache n)" "walks_end E"
  shows "\<exists>r n' w'. Run E sched is n w = Some (r, n', w') \<and> (CtxDone \<in> snd ` set is \<longrightarrow> r \<noteq> None) \<and>
    (r = None \<longrightarrow> n_ready n') \<and>
    (r \<noteq> None \<longrightarrow> \<not> n_ready n' \<and> watcher_closed n')"
proof -
  obtain x n1 w1 where x: "run_start E sched n w = Some (x, n1, w1)"
    "if x = Inr () then loop_ok E n1 else \<not> n_ready n1 \<and> watcher_closed n1"
    using run_start_ok [OF assms] by blast
  show ?thesis
  proof (cases x)
    case (Inl e)
    then show ?thesis using x by (simp add: Run_def)
  next
    case (Inr u)
    then have "loop_ok E n1" using x(2) by simp
    from run_loop_ok [OF this, of "is" w1] obtain r n' w' where "run_loop E is n1 w1 = Some (r, n', w')"
      "if r = None then loop_ok E n' \<and> CtxDone \<notin> snd ` set is else \<not> n_ready n' \<and> watcher_closed n'" by blast
    moreover have "start_tickers (n_policy n1) = Some ()" using \<open>loop_ok E n1\<close> start_tickers_ok by (simp add: loop_ok_def)
    ultimately show ?thesis using x Inr by (auto simp: Run_def loop_ok_def split: if_splits)
  qed
qed

text \<open>\<open>Run\<close> returns without an error only when the context was cancelled.\<close>

lemma run_step_nil: "run_step E sched i n w = Some (Return (Inr ()), n', w') \<Longrightarrow> i = CtxDone"
  by (cases i) (auto simp: run_step_def receive_step_def recover_step_def
      split: option.splits prod.splits sum.splits chan.splits if_splits)

lemma run_loop_nil: "run_loop E is n w = Some (Some (Inr ()), n', w') \<Longrightarrow> CtxDone \<in> snd ` set is"
  by (induction "is" arbitrary: n w) (fastforce split: option.splits outcome.splits dest!: run_step_nil)+

lemma Run_nil: "Run E sched is n w = Some (Some (Inr ()), n', w') \<Longrightarrow> CtxDone \<in> snd ` set is"
  by (auto simp: Run_def split: option.splits sum.splits dest!: run_loop_nil)

end
