(* ===== verification/Run_Properties.thy ===== *)
theory Run_Properties
  imports Notify_Run
begin

text \<open>
  Properties of the event loop: its invariant, that it never gets stuck and stops when it is told to, and that nothing but a cleanup tick behind its gates
  deletes a file, so that no file is deleted during a warm-up. The last two are about traces of the
  system calls (\<open>traced_env\<close>), so the first part shows that everything but \<open>cleanup\<close> leaves the trace alone.
\<close>

section \<open>Everything but a cleanup leaves the trace alone\<close>

lemma traced_env_more [simp]:
  "inotify_init1 (e_ino (traced_env E)) = on_fst (inotify_init1 (e_ino E))"
  "inotify_add_watch (e_ino (traced_env E)) f p m = on_fst (inotify_add_watch (e_ino E) f p m)"
  "e_now (traced_env E) = on_fst (e_now E)" "e_json (traced_env E) = e_json E"
  "ck_Open (e_ck (traced_env E)) p = on_fst (ck_Open (e_ck E) p)"
  "ck_Read (e_ck (traced_env E)) fd k = on_fst (ck_Read (e_ck E) fd k)"
  "ck_Close (e_ck (traced_env E)) fd = on_fst (ck_Close (e_ck E) fd)"
  "ck_MkdirAll (e_ck (traced_env E)) p = on_fst (ck_MkdirAll (e_ck E) p)"
  "ck_CreateTemp (e_ck (traced_env E)) p = traced_call (ck_CreateTemp (e_ck E) p) (EvCreateTemp p)"
  "ck_Chmod (e_ck (traced_env E)) fd = on_fst (ck_Chmod (e_ck E) fd)"
  "ck_Write (e_ck (traced_env E)) fd t = on_fst (ck_Write (e_ck E) fd t)"
  "ck_Sync (e_ck (traced_env E)) fd = on_fst (ck_Sync (e_ck E) fd)"
  "ck_Rename (e_ck (traced_env E)) p q = on_fst (ck_Rename (e_ck E) p q)"
  "ck_Remove (e_ck (traced_env E)) p = traced_call (ck_Remove (e_ck E) p) (EvRemove p)"
  by (simp_all add: traced_env_def)

lemma walks_end_traced [simp]: "walks_end E \<Longrightarrow> walks_end (traced_env E)"
  using bounded_reads_on_fst [of "sys_ReadDir (e_sys E)"] by (simp add: walks_end_def traced_def)

lemma AddWatch_log: "snd (snd (AddWatch (e_ino (traced_env E)) wt path flags s)) = snd s"
  by (auto simp: AddWatch_def Let_def on_fst_def split: option.split sum.split prod.split)

lemma watch_fn_log:
  fixes E :: "'w env" shows "keeps (\<lambda>s. snd (fst s) = tr) (watch_fn (traced_env E) n path d err)"
proof (rule keepsI)
  fix s :: "('w \<times> event list) \<times> Watcher" assume tr: "snd (fst s) = tr"
  obtain r wt' s' where a: "AddWatch (e_ino (traced_env E)) (snd s) path watchMask (fst s) = ((r, wt'), s')"
    by (metis prod.exhaust_sel)
  have "snd s' = tr" using AddWatch_log [of E "snd s" path watchMask "fst s"] a tr by simp
  then show "snd (fst (snd (watch_fn (traced_env E) n path d err s))) = tr"
    using tr a by (auto simp: watch_fn_def split: option.split sum.split)
qed

lemma seed_fn_log:
  fixes E :: "'w env" shows "keeps (\<lambda>s. snd (fst s) = tr) (seed_fn (traced_env E) n path d err)"
proof (rule keepsI)
  fix s :: "('w \<times> event list) \<times> HeavyKeeper option" assume tr: "snd (fst s) = tr"
  obtain r s1 where k: "KeyForPath (traced (e_sys E)) (n_cache n) path (fst s) = (r, s1)" by (rule prod.exhaust)
  have s1: "snd s1 = tr" using KeyForPath_log [of "e_sys E" "n_cache n" path "fst s"] k tr by simp
  have "snd s2 = tr" if "Snapshot (traced (e_sys E)) (n_cache n) key s1 = (x, s2)" for key x s2
    using Snapshot_log [of "e_sys E" "n_cache n" key s1] that s1 by simp
  then show "snd (fst (snd (seed_fn (traced_env E) n path d err s))) = tr"
    using tr k s1 by (auto simp: seed_fn_def split: option.split sum.split prod.split)
qed

lemma walk_log:
  assumes "\<And>path d err. keeps (\<lambda>s. snd (fst s) = tr) (fn path d err)"
    "WalkDir k (\<lambda>p. on_fst (sys_lstat (traced S) p)) (\<lambda>p. on_fst (sys_ReadDir (traced S) p)) fn start ((w, tr), a) =
     Some (r, ((w', tr'), a'))"
  shows "tr' = tr"
proof -
  have "keeps (\<lambda>s. snd (fst s) = tr) (on_fst (sys_lstat (traced S) p))"
       "keeps (\<lambda>s. snd (fst s) = tr) (on_fst (sys_ReadDir (traced S) p))" for p
    by (rule keepsI, simp add: traced_simps on_fst_def split: prod.split)+
  then have "keeps_opt (\<lambda>s. snd (fst s) = tr)
      (WalkDir k (\<lambda>p. on_fst (sys_lstat (traced S) p)) (\<lambda>p. on_fst (sys_ReadDir (traced S) p)) fn start)"
    by (intro WalkDir_keeps assms(1))
  from keeps_optD [OF this _ assms(2)] show ?thesis by simp
qed

lemma addDirectoryWatches_log:
  "addDirectoryWatches (traced_env E) n wt start (w, tr) = Some (r, wt', (w', tr')) \<Longrightarrow> tr' = tr"
  using walk_log [OF watch_fn_log, of "e_depth E" "e_sys E"]
  by (fastforce simp: addDirectoryWatches_def split: if_splits option.splits)

lemma seedExistingEntries_log:
  "seedExistingEntries (traced_env E) n start (w, tr) = Some (r, n', (w', tr')) \<Longrightarrow> tr' = tr"
  using walk_log [OF seed_fn_log, of "e_depth E" "e_sys E"]
  by (fastforce simp: seedExistingEntries_def split: if_splits option.splits)

lemma handleEvent_log:
  assumes "handleEvent (traced_env E) n event (w, tr) = Some (r, n', (w', tr'))" shows "tr' = tr"
proof (cases event)
  case (Some ev)
  obtain k w1 tr1 where k: "KeyForPath (traced (e_sys E)) (n_cache n) (ev_Name ev) (w, tr) = (k, (w1, tr1))"
    by (metis prod.exhaust_sel)
  have "tr1 = tr" using KeyForPath_log [of "e_sys E" "n_cache n" "ev_Name ev" "(w, tr)"] k by simp
  then show ?thesis using assms Some k
    by (auto simp: handleEvent_def split: if_splits option.splits sum.splits
        dest!: addDirectoryWatches_log seedExistingEntries_log)
qed (use assms in \<open>simp add: handleEvent_def\<close>)

lemma drain_log:
  "drainReconciliationEvents (traced_env E) n ms r wt (w, tr) = Some (r', wt', (w', tr')) \<Longrightarrow> tr' = tr"
proof (induction ms arbitrary: r wt w tr)
  case (Cons m ms)
  have h: "tr1 = tr" if "handleReconciliationEvent (traced_env E) n wt event (w, tr) = Some (x, wt1, (w1, tr1))"
    for event x wt1 w1 tr1
    using that by (auto simp: handleReconciliationEvent_def split: option.splits if_splits dest: addDirectoryWatches_log)
  show ?case using Cons.prems Cons.IH h
    by (auto split: sum.splits chan.splits option.splits) blast
qed simp

lemma reconcile_log:
  assumes "reconcile (traced_env E) sched b n (w, tr) = Some (r, n', (w', tr'))" shows "tr' = tr"
proof -
  have new: "tr1 = tr" if "NewWatcher (e_ino (traced_env E)) (w, tr) = (x, (w1, tr1))" for x w1 tr1
    using that by (auto simp: NewWatcher_def split: prod.splits sum.splits)
  have scan: "tr2 = tr1" if "scanEntriesWhileDraining (traced_env E) sched m wt (w1, tr1) = Some (x, wt', (w2, tr2))"
    for m wt w1 tr1 x wt' w2 tr2
    using that by (auto simp: scanEntriesWhileDraining_def split: option.splits dest!: drain_log GetEntries_log)
  show ?thesis using assms
    by (auto simp: reconcile_def Let_def split: option.splits sum.splits prod.splits if_splits
        dest!: new scan addDirectoryWatches_log)
qed

lemma recover_step_log: "recover_step (traced_env E) sched n (w, tr) = Some (out, n', (w', tr')) \<Longrightarrow> tr' = tr"
  by (auto simp: recover_step_def recoverWatcher_def split: option.splits sum.splits dest!: reconcile_log)

lemma snd_snd_on_fst [simp]: "snd (snd (on_fst m s)) = snd s"
  by (simp add: on_fst_def split: prod.split)

lemma sync_directory_log: "snd (snd (sync_directory (e_ck (traced_env E)) d s)) = snd s"
  by (simp add: sync_directory_def on_fst_def split: sum.split prod.split)

lemma write_temporary_log: "snd (snd (write_temporary J (e_ck (traced_env E)) f stored s)) = snd s"
  by (simp add: write_temporary_def on_fst_def split: sum.split prod.split option.split)

text \<open>A save creates at most one temporary file and calls \<open>os.Remove\<close> for exactly that one.\<close>

definition saving :: "event list \<Rightarrow> bool" where
  "saving es \<longleftrightarrow> es = [] \<or> (\<exists>d e. es = [EvCreateTemp d (Inl e)]) \<or> (\<exists>d f t r. es = [EvCreateTemp d (Inr (f, t)), EvRemove t r])"

lemma saving_files: "saving es \<Longrightarrow> unlinks es = [] \<and> removals es = temporaries es"
  by (auto simp: saving_def unlinks_def)

lemma saveCheckpoint_log:
  "\<exists>es. snd (snd (saveCheckpoint J (e_ck (traced_env E)) path items now s)) = snd s @ es \<and> saving es"
proof -
  have "snd w' = snd w" if "write_temporary J (e_ck (traced_env E)) f stored w = (r, w')" for f stored w r w'
    using write_temporary_log [of J E f stored w] that by simp
  moreover have "snd w' = snd w" if "sync_directory (e_ck (traced_env E)) d w = (r, w')" for d w r w'
    using sync_directory_log [of E d w] that by simp
  ultimately show ?thesis
    by (fastforce simp: saveCheckpoint_def on_fst_def traced_call_def saving_def split: sum.split prod.split)
qed

lemma notify_saveCheckpoint_log:
  assumes "notify_saveCheckpoint (traced_env E) n (w, tr) = Some (r, (w', tr'))"
  shows "\<exists>es. tr' = tr @ es \<and> unlinks es = [] \<and> removals es = temporaries es"
proof -
  obtain items t w1 where "saveCheckpoint (e_json E) (e_ck (traced_env E)) (n_checkpointFile n) items t (w1, tr) = (r, (w', tr'))"
    using assms by (auto simp: notify_saveCheckpoint_def split: option.splits prod.splits)
  then show ?thesis using saveCheckpoint_log [of "e_json E" E "n_checkpointFile n" items t "(w1, tr)"] saving_files by force
qed

lemma receive_step_log: "receive_step (traced_env E) sched m n (w, tr) = Some (out, n', (w', tr')) \<Longrightarrow> tr' = tr"
  by (auto simp: receive_step_def split: chan.splits option.splits sum.splits if_splits
      dest!: recover_step_log handleEvent_log)

text \<open>What a step can append to the trace.\<close>

lemma run_step_unlinks:
  assumes "run_step (traced_env E) sched i n (w, tr) = Some (out, n', (w', tr'))"
  shows "\<exists>es. tr' = tr @ es \<and> removals es = temporaries es \<and> (unlinks es \<noteq> [] \<longrightarrow> i = CleanupTick \<and> n_ready n \<and> \<not> Shadow (n_policy n) \<and>
    n_warmUntil n \<le> fst (e_now E w) \<and> bracketed (al_path (n_lease n)) es)"
proof (cases "i = CleanupTick")
  case True
  obtain t w1 r where "e_now E w = (t, w1)" "cleanup (traced_env E) t n (w1, tr) = Some (r, n', (w', tr'))"
    using assms True by (auto simp: run_step_def split: option.splits prod.splits)
  then show ?thesis using cleanup_unlinks [of E t n w1 tr r n' w' tr'] True by auto
next
  case False
  have "\<exists>es. tr' = tr @ es \<and> unlinks es = [] \<and> removals es = temporaries es" using assms False
    by (cases i) (auto simp: run_step_def unlinks_def split: option.splits prod.splits
        dest!: receive_step_log notify_saveCheckpoint_log)
  then show ?thesis by auto
qed

lemma loop_ok_traced: "loop_ok E n \<Longrightarrow> loop_ok (traced_env E) n"
  by (simp add: loop_ok_def)

lemma rewarmed_traced: "rewarmed (traced_env E) n n' \<Longrightarrow> rewarmed E n n'"
  by (auto simp: rewarmed_def)

text \<open>A run deletes nothing as long as every state it passes through forbids it.\<close>

lemma run_loop_unlinks:
  assumes "loop_ok E n" "Q n"
    and keep: "\<And>n n'. Q n \<Longrightarrow> same_manager n n' \<Longrightarrow> rewarmed E n n' \<Longrightarrow> Q n'"
    and forbid: "\<And>n w. Q n \<Longrightarrow> Shadow (n_policy n) \<or> fst (e_now E w) < n_warmUntil n"
    and run: "run_loop (traced_env E) is n (w, tr) = Some (r, n', (w', tr'))"
  shows "unlinks tr' = unlinks tr"
  using assms(1,2) run
proof (induction "is" arbitrary: n w tr)
  case (Cons i "is")
  obtain out n1 w1 tr1 where st: "run_step (traced_env E) (fst i) (snd i) n (w, tr) = Some (out, n1, (w1, tr1))"
    using Cons.prems(3) by (auto split: option.splits)
  have no: "unlinks tr1 = unlinks tr" using run_step_unlinks [OF st] forbid [OF Cons.prems(2), of w] by auto
  show ?case
  proof (cases out)
    case (Return x)
    then show ?thesis using Cons.prems(3) st no by simp
  next
    case Continue
    from run_step_ok [OF loop_ok_traced [OF Cons.prems(1)], of "fst i" "snd i" "(w, tr)"] st Continue
    have n1: "notify_ok n1" "same_manager n n1" "n_ready n1" "watching n1" "rewarmed E n n1"
      by (auto dest: rewarmed_traced)
    have "unlinks tr' = unlinks tr1"
      using Cons.IH [OF loop_okI [OF Cons.prems(1) n1(1-4)] keep [OF Cons.prems(2) n1(2,5)]] Cons.prems(3) st Continue by simp
    then show ?thesis using no by simp
  qed
qed simp

text \<open>Apart from cache entries a run removes the temporary files it created, and nothing else.\<close>

lemma run_loop_removals:
  "run_loop (traced_env E) is n (w, tr) = Some (r, n', (w', tr')) \<Longrightarrow> removals tr = temporaries tr \<Longrightarrow> removals tr' = temporaries tr'"
proof (induction "is" arbitrary: n w tr)
  case (Cons i "is")
  obtain out n1 w1 tr1 where st: "run_step (traced_env E) (fst i) (snd i) n (w, tr) = Some (out, n1, (w1, tr1))"
    using Cons.prems(1) by (auto split: option.splits)
  have "removals tr1 = temporaries tr1" using run_step_unlinks [OF st] Cons.prems(2) by auto
  then show ?case using Cons.IH Cons.prems(1) st by (cases out) auto
qed simp

section \<open>Samples\<close>

text \<open>An inotify whose watches always succeed, a cache root without stores, and the memory file system
  with room for every walk.\<close>

definition ok_ino :: "'w ino_sys" where
  "ok_ino = \<lparr>inotify_init1 = (\<lambda>w. (Inr 9, w)), inotify_add_watch = (\<lambda>_ _ _ w. (Inr 1, w)),
     inotify_rm_watch = (\<lambda>_ _ w. (Inr (), w))\<rparr>"

definition bare_fs :: memfs where
  "bare_fs = \<lparr>ms_files = [(''/cache'', dir_stat 1)], ms_dirs = [], ms_fds = [], ms_next = 3, ms_busy = False\<rparr>"

definition run_env :: "memfs env" where
  "run_env = sample_env\<lparr>e_ino := ok_ino, e_depth := PATH_MAX\<rparr>"

lemma run_env_walks_end: "walks_end run_env"
  using deep_env_walks_end by (simp add: walks_end_def deep_env_def run_env_def)

lemma sample_start_eval: "map_option (\<lambda>(r, n, _). (r, n_ready n)) (run_start run_env ([], []) (sample_notify False) bare_fs) =
    Some (Inr (), True)"
  by code_simp

lemma sample_start:
  obtains n w where "run_start run_env ([], []) (sample_notify False) bare_fs = Some (Inr (), n, w)"
  using sample_start_eval by auto

lemma sample_cache_ok: "cache_ok (n_cache (sample_notify b))"
  using example_cache_ok by (simp add: sample_notify_def)

lemmas sample_ok = sample_notify_ok [of False] sample_cache_ok [of False] run_env_walks_end

lemma sample_loop_ok: "run_start run_env ([], []) (sample_notify False) bare_fs = Some (Inr (), n, w) \<Longrightarrow>
    loop_ok run_env n \<and> same_manager (sample_notify False) n"
  using run_start_ok [OF sample_ok, of "([], [])" bare_fs] by simp

section \<open>Properties\<close>

text \<open>C3: the invariant of the event loop. From a manager that is well-formed, as \<open>New\<close> makes it, every state the
  loop passes through, whatever arrives on the channels and whatever the system answers, is again
  well-formed, ready, with the same cache, policy, lease and estimator parameters and with an open watcher
  all of whose watches are on the cache root or at or below one of its two stores; and no input makes the next step panic.\<close>

theorem run_invariant:
  assumes "notify_ok n0" "cache_ok (n_cache n0)" "walks_end E" "run_start E sched n0 w0 = Some (Inr (), n1, w1)"
    "reachable (loop_step E) (\<lambda>_. True) goes_on (n1, w1) (n, w)"
  shows "notify_ok n \<and> n_ready n \<and> same_manager n0 n \<and>
    (\<exists>wt. n_watcher n = Some wt \<and> \<not> wt_isClosed wt \<and> (\<forall>p \<in> dom (wt_watches wt). cache_area (n_cache n0) p)) \<and>
    (\<forall>s i. \<exists>out n' w'. run_step E s i n w = Some (out, n', w'))"
proof -
  have inv: "loop_inv E n0 (n1, w1)" using run_start_ok [OF assms(1-3), of sched w0] assms(4) by (simp add: loop_inv_def)
  from loop.reachable_inv [OF assms(5) inv] have "loop_ok E n" "same_manager n0 n" by (simp_all add: loop_inv_def)
  moreover have "\<exists>out n' w'. run_step E s i n w = Some (out, n', w')" for s i
    using loop.never_stuck [OF assms(5) inv, of "(s, i)"] by (simp add: loop_step_def)
  ultimately show ?thesis by (auto simp: loop_ok_def watching_def watcher_ok_def same_manager_def)
qed

theorem run_invariant_witness:
  "\<exists>n w. reachable (loop_step run_env) (\<lambda>_. True) goes_on (n, w) (n, w) \<and> n_ready n \<and>
     (\<exists>out n' w'. run_step run_env ([], []) CleanupTick n w = Some (out, n', w'))"
proof -
  obtain n w where s: "run_start run_env ([], []) (sample_notify False) bare_fs = Some (Inr (), n, w)" by (rule sample_start)
  have "reachable (loop_step run_env) (\<lambda>_. True) goes_on (n, w) (n, w)" by (rule reachable.here)
  with run_invariant [OF sample_ok s this] show ?thesis by blast
qed

text \<open>C11: the loop stops when it is told to. \<open>Run\<close> never panics; when the context is cancelled during the inputs it
  returns, after at most that many steps, and it returns without an error only then; and whenever it has returned, the manager is not ready and its
  watcher, if there is one, is closed.\<close>

theorem Run_stops:
  assumes "notify_ok n" "cache_ok (n_cache n)" "walks_end E"
  shows "\<exists>r n' w'. Run E sched is n w = Some (r, n', w') \<and> (CtxDone \<in> snd ` set is \<longrightarrow> r \<noteq> None) \<and>
    (r = Some (Inr ()) \<longrightarrow> CtxDone \<in> snd ` set is) \<and> (r = None \<longrightarrow> n_ready n') \<and>
    (r \<noteq> None \<longrightarrow> \<not> n_ready n' \<and> (\<forall>wt. n_watcher n' = Some wt \<longrightarrow> wt_isClosed wt))"
  using Run_ends [OF assms, of sched "is" w] Run_nil [of E sched "is" n w] by (auto simp: watcher_closed_def)

theorem Run_stops_witness:
  "\<exists>r n' w'. Run run_env ([], []) [(([], []), DecayTick), (([], []), CtxDone)] (sample_notify False) bare_fs = Some (Some r, n', w') \<and>
     \<not> n_ready n'"
  using Run_stops [OF sample_ok, of "([], [])" "[(([], []), DecayTick), (([], []), CtxDone)]" bare_fs] by auto

text \<open>C6: no file is deleted during a warm-up. If the clock stays within the warm-up that ends at \<open>T\<close>, then no run of the
  loop from a state whose warm-up lasts at least until \<open>T\<close> calls \<open>unlinkat\<close>, whatever the inputs are; in
  particular a loss of the watcher in between never brings the end of the warm-up forward to before \<open>T\<close>.\<close>

theorem warmup_no_unlink:
  assumes "loop_ok E n" "T \<le> n_warmUntil n"
    "\<forall>w. T - WarmupDuration (n_policy n) \<le> fst (e_now E w) \<and> fst (e_now E w) < T"
    "run_loop (traced_env E) is n (w, []) = Some (r, n', (w', tr))"
  shows "unlinks tr = []"
proof -
  let ?Q = "\<lambda>m. T \<le> n_warmUntil m \<and> n_policy m = n_policy n"
  have "?Q m'" if "?Q m" "same_manager m m'" "rewarmed E m m'" for m m'
    using that assms(3) unfolding rewarmed_def same_manager_def
    by (metis (no_types, opaque_lifting) add.commute diff_le_eq fst_conv)
  moreover have "fst (e_now E w) < n_warmUntil m" if "?Q m" for m w using that assms(3) by (meson less_le_trans)
  ultimately have "unlinks tr = unlinks []" using run_loop_unlinks [OF assms(1), of ?Q] assms(2,4) by blast
  then show ?thesis by (simp add: unlinks_def)
qed

definition warm_env :: "memfs env" where
  "warm_env = run_env\<lparr>e_now := (\<lambda>m. (0, m))\<rparr>"

lemma loop_ok_now: "loop_ok (E\<lparr>e_now := f\<rparr>) n = loop_ok E n"
  by (simp add: loop_ok_def walks_end_def)

theorem warmup_no_unlink_witness:
  "\<exists>n r n' w' tr. run_loop (traced_env warm_env) [(([], []), CleanupTick)] n (sample_fs, []) = Some (r, n', (w', tr)) \<and>
     unlinks tr = [] \<and> n_ready n"
proof -
  obtain n0 w0 where s: "run_start run_env ([], []) (sample_notify False) bare_fs = Some (Inr (), n0, w0)" by (rule sample_start)
  let ?p = "(n_policy n0)\<lparr>WarmupDuration := 1\<rparr>"
  let ?n = "n0\<lparr>n_warmUntil := 1, n_policy := ?p\<rparr>"
  have n0: "loop_ok run_env n0" "n_policy n0 = sample_policy False"
    using sample_loop_ok [OF s] by (simp_all add: same_manager_def sample_notify_def)
  have "Validate ?p = None" by (simp add: n0(2) sample_policy_def Validate_def validatePercent_def isInf_def fle_def)
  then have ok: "loop_ok warm_env ?n" using n0(1)
    by (simp add: warm_env_def loop_ok_now) (simp add: loop_ok_def notify_ok_def watching_def)
  from run_loop_ok [OF loop_ok_traced [OF ok], of "[(([], []), CleanupTick)]" "(sample_fs, [])"]
  obtain r n' w' tr where l: "run_loop (traced_env warm_env) [(([], []), CleanupTick)] ?n (sample_fs, []) = Some (r, n', (w', tr))"
    by auto
  have "unlinks tr = []"
    by (rule warmup_no_unlink [OF ok _ _ l, of 1]) (simp_all add: warm_env_def)
  moreover have "n_ready ?n" using ok by (simp add: loop_ok_def)
  ultimately show ?thesis using l by blast
qed

text \<open>C7: only a cleanup tick deletes files. If a step of the loop calls \<open>unlinkat\<close>, its input was the cleanup ticker, the
  manager was ready, shadow mode was off, the clock had passed the end of the warm-up, and the calls of the step
  are bracketed by taking and giving back the exclusive lock.\<close>

theorem only_cleanup_unlinks:
  assumes "run_step (traced_env E) sched i n (w, []) = Some (out, n', (w', tr))" "unlinks tr \<noteq> []"
  shows "i = CleanupTick \<and> n_ready n \<and> \<not> Shadow (n_policy n) \<and> n_warmUntil n \<le> fst (e_now E w) \<and>
    bracketed (al_path (n_lease n)) tr"
  using run_step_unlinks [OF assms(1)] assms(2) by simp

theorem only_cleanup_unlinks_witness:
  "\<exists>n out n' w' tr. run_step (traced_env sample_env) ([], []) CleanupTick n (sample_fs, []) = Some (out, n', (w', tr)) \<and>
     unlinks tr \<noteq> [] \<and> bracketed ''/lock'' tr"
proof -
  let ?n = "(sample_notify False)\<lparr>n_watcher := Some sample_watcher\<rparr>"
  have "case run_step (traced_env sample_env) ([], []) CleanupTick ?n (sample_fs, []) of
      Some (out, n', (w', tr)) \<Rightarrow> length (unlinks tr) = 1 | None \<Rightarrow> False" by code_simp
  then obtain out n' w' tr where st: "run_step (traced_env sample_env) ([], []) CleanupTick ?n (sample_fs, []) = Some (out, n', (w', tr))"
    "length (unlinks tr) = 1" by (auto split: option.splits)
  then have u: "unlinks tr \<noteq> []" by auto
  then have "bracketed ''/lock'' tr" using only_cleanup_unlinks [OF st(1) u] by (simp add: sample_notify_def)
  then show ?thesis using st(1) u by blast
qed

end
