(* ===== verification/Event_Properties.thy ===== *)
theory Event_Properties
  imports Run_Properties
begin

unbundle bit_operations_syntax

text \<open>
  Properties of what the manager does with events: which paths it watches, what an event of an entry does to
  the heat, what the loss of watch coverage does, and what a start takes over from a checkpoint.
\<close>

section \<open>Lemmas\<close>

lemma reconcile_observer:
  "reconcile E sched b n w = Some (r, n', w') \<Longrightarrow> \<exists>os. n_observer n' = n_observer n @ os"
  by (auto simp: reconcile_def Let_def set_ready_def close_watcher_def split: option.splits sum.splits prod.splits if_splits)

lemma recover_step_observer:
  "recover_step E sched n w = Some (out, n', w') \<Longrightarrow> RecordFrozen ''watcher_loss'' \<in> set (n_observer n')"
  using reconcile_observer [of E sched True "observe (RecordFrozen ''watcher_loss'') n" w]
  by (fastforce simp: recover_step_def recoverWatcher_def split: option.splits sum.splits)

lemma hk_reset_Len [simp]: "hk_Len (hk_reset tk) = 0"
  by (simp add: hk_Len_def Len_def hk_reset_def NewHeap_def)

text \<open>The messages that say that events were or may be lost.\<close>

fun watcher_loss :: "chan \<Rightarrow> bool" where
  "watcher_loss EventClosed = True"
| "watcher_loss ErrorClosed = True"
| "watcher_loss (ErrorMsg err) = (err = ErrEventOverflow)"
| "watcher_loss (EventMsg None) = False"
| "watcher_loss (EventMsg (Some ev)) = coverage_lost ev"

lemma receive_loss:
  assumes "watcher_loss m" "n_watcher n \<noteq> None"
  shows "run_step E sched (Receive m) n w = recover_step E sched n w"
  using assms by (cases m rule: watcher_loss.cases) (auto simp: run_step_def receive_step_def handleEvent_def)

lemma existing_items_sub:
  "existing_items S c items w = (ex, w') \<Longrightarrow>
   set ex \<subseteq> set items \<and> (\<forall>it \<in> set ex. \<exists>w1 e w2. Snapshot S c (item_Key it) w1 = (Inr e, w2))"
proof (induction items arbitrary: w ex w')
  case (Cons it items)
  obtain r w1 where s: "Snapshot S c (item_Key it) w = (r, w1)" by fastforce
  obtain rest w2 where rest: "existing_items S c items w1 = (rest, w2)" by fastforce
  from Cons.IH [OF rest] show ?case using Cons.prems s rest by (auto split: sum.splits) blast+
qed simp

text \<open>The items that are left, in their order, and why the others are not.\<close>

text \<open>The answers of \<open>Snapshot\<close> to one call for each key, in order, from the state \<open>w\<close> of the system.\<close>

primrec snapshots :: "'w sys \<Rightarrow> Cache \<Rightarrow> string list \<Rightarrow> 'w \<Rightarrow> EntryInfo result list" where
  "snapshots S c [] w = []"
| "snapshots S c (key # keys) w = (case Snapshot S c key w of (r, w1) \<Rightarrow> r # snapshots S c keys w1)"

lemma existing_items_snapshots:
  "existing_items S c items w = (ex, w') \<Longrightarrow>
   ex = map fst (filter (\<lambda>(it, r). \<not> isl r) (zip items (snapshots S c (map item_Key items) w)))"
proof (induction items arbitrary: w ex w')
  case (Cons it items)
  obtain r w1 where s: "Snapshot S c (item_Key it) w = (r, w1)" by fastforce
  obtain rest w2 where rest: "existing_items S c items w1 = (rest, w2)" by fastforce
  from Cons.IH [OF rest] show ?case using Cons.prems s rest by (cases r) auto
qed simp

lemma restore_loop_keys:
  "restore_loop E tk items = Some tk' \<Longrightarrow> hk_inv tk \<Longrightarrow> hk_width tk \<noteq> 0 \<Longrightarrow>
   dom (hk_hot tk') \<subseteq> dom (hk_hot tk) \<union> item_Key ` set items"
proof (induction items arbitrary: tk)
  case (Cons it items)
  show ?case
  proof (cases "item_Key it = [] \<or> item_Count it = 0")
    case True
    then show ?thesis using Cons by auto
  next
    case False
    obtain out tk1 mx where a: "hk_add E tk (item_Key it) (item_Count it) = Some (out, tk1)" "hk_inv tk1"
      "hk_config tk1 = hk_config tk" "admit_spec (hk_k tk) (hk_minCount tk) (hk_hot tk) (item_Key it) mx out (hk_hot tk1)"
      using hk_add_total [OF Cons.prems(2,3), of E "item_Key it" "item_Count it"] by blast
    have "all_entries (\<lambda>k _. k \<in> insert (item_Key it) (dom (hk_hot tk))) (hk_hot tk1)"
      by (rule admit_spec_entries [OF a(4)]) (auto simp: all_entries_def)
    then have "dom (hk_hot tk1) \<subseteq> insert (item_Key it) (dom (hk_hot tk))" by (auto simp: all_entries_def)
    moreover have "hk_width tk1 \<noteq> 0" using a(3) Cons.prems(3) by (simp add: hk_config_def)
    moreover have "restore_loop E tk1 items = Some tk'" using Cons.prems(1) False a(1) by simp
    ultimately show ?thesis using Cons.IH [OF _ a(2)] by force
  qed
qed simp

lemma hk_Restore_keys:
  "hk_Restore E tk items = Some tk' \<Longrightarrow> hk_inv tk \<Longrightarrow> hk_width tk \<noteq> 0 \<Longrightarrow> dom (hk_hot tk') \<subseteq> item_Key ` set items"
  using restore_loop_keys [of E "hk_reset tk" items tk'] hk_reset_ok(1,2,5) [of tk]
  by (auto simp: hk_Restore_def hk_config_def)

section \<open>Properties\<close>

text \<open>\<open>watchPathAllowed\<close> accepts exactly the cache root and the paths at or below its two stores, after the path
  has been cleaned: \<open>..\<close> elements do not lead out, and relative paths are refused.\<close>

lemma watchPathAllowed_iff:
  assumes "cache_ok (n_cache n)" "diskRoot (n_cache n) = abs_path ps" "\<forall>p \<in> set ps. plain p"
  shows "watchPathAllowed n path \<longleftrightarrow>
    (\<exists>rest. Clean path = abs_path (ps @ rest) \<and> (\<forall>p \<in> set rest. plain p) \<and>
       (rest = [] \<or> hd rest = ''ac'' \<or> hd rest = ''cas''))"
  using watchPathAllowed_area [OF assms(1), of path] assms by (simp add: cache_area_def root_elements_def)

text \<open>Watches are placed only inside the cache. Whatever directories the file system shows, a walk that places
  watches leaves the watcher open, keeps the watches it had, and adds none outside the root and its two stores.\<close>

lemma addDirectoryWatches_inside:
  assumes "cache_ok (n_cache n)" "\<not> wt_isClosed wt" "addDirectoryWatches E n wt start w = Some (r, wt', w')"
    "\<forall>p \<in> dom (wt_watches wt). watchPathAllowed n p"
  shows "\<not> wt_isClosed wt' \<and> dom (wt_watches wt) \<subseteq> dom (wt_watches wt') \<and>
    (\<forall>p \<in> dom (wt_watches wt'). watchPathAllowed n p)"
proof -
  have "watcher_ok (n_cache n) wt" using assms(2,4) watchPathAllowed_area [OF assms(1)] by (simp add: watcher_ok_def)
  from addDirectoryWatches_ok [OF assms(1) this assms(3)] show ?thesis
    using watchPathAllowed_area [OF assms(1)] by (simp add: watcher_ok_def)
qed

text \<open>C10: losing the watcher freezes deletion and forgets the heat. When a channel closes, the queue overflows or a watch is
  gone, the step reports it and rebuilds the watches: if that succeeds, the hot set is empty, and a warm-up
  that starts at the time read then begins; if it fails, the loop returns with an error, not ready and with the watcher closed.\<close>

theorem watcher_loss_recovers:
  assumes "loop_ok E n" "watcher_loss m"
  shows "\<exists>out n' w'. run_step E sched (Receive m) n w = Some (out, n', w') \<and>
    RecordFrozen ''watcher_loss'' \<in> set (n_observer n') \<and>
    (if out = Continue
     then n_ready n' \<and> hk_Len (n_heavykeeper n') = 0 \<and>
       (\<exists>w1 t w2. e_now E w1 = (t, w2) \<and> n_warmUntil n' = t + WarmupDuration (n_policy n))
     else \<not> n_ready n' \<and> (\<exists>e. out = Return (Inl e)) \<and> (\<forall>wt. n_watcher n' = Some wt \<longrightarrow> wt_isClosed wt))"
proof -
  have n: "notify_ok n" "cache_ok (n_cache n)" "walks_end E" "n_watcher n \<noteq> None"
    using assms(1) by (auto simp: loop_ok_def watching_def)
  obtain out n' w' where r: "recover_step E sched n w = Some (out, n', w')"
    "if out = Continue then reconciled E True n n' else (\<exists>e. out = Return (Inl e)) \<and> frozen n n'"
    using recover_step_ok [OF n(1-3), of sched w] by blast
  then show ?thesis using receive_loss [OF assms(2) n(4), of E sched w] recover_step_observer [OF r(1)]
    by (auto simp: reconciled_def reset_if_def frozen_def watcher_closed_def split: if_splits)
qed

theorem watcher_loss_recovers_witness:
  "\<exists>n w out n' w'. loop_ok run_env n \<and> run_step run_env ([], []) (Receive (ErrorMsg ErrEventOverflow)) n w = Some (out, n', w') \<and>
     RecordFrozen ''watcher_loss'' \<in> set (n_observer n')"
proof -
  obtain n w where "run_start run_env ([], []) (sample_notify False) bare_fs = Some (Inr (), n, w)" by (rule sample_start)
  then have ok: "loop_ok run_env n" using sample_loop_ok by blast
  have "watcher_loss (ErrorMsg ErrEventOverflow)" by simp
  from watcher_loss_recovers [OF ok this, of "([], [])" w] show ?thesis using ok by blast
qed

text \<open>C25: what an event of a cache entry does. A deletion or a move away takes exactly that key out of the hot set;
  otherwise an open or a move to the path counts one access, admitted by the rule of the estimator; a close is
  reported and changes no heat; and an event that is none of these changes nothing. The event never makes the manager unready, and asks the file system nothing.\<close>

theorem handleEvent_heat:
  assumes "notify_ok n" "cache_ok (n_cache n)" "IsAbs (ev_Name ev)" "ParseKey key = Inr kind"
    "Clean (ev_Name ev) = filepath_Join (diskRoot (n_cache n)) key" "\<not> coverage_lost ev" "\<not> HasEvent ev InIsdir"
  shows "\<exists>n'. handleEvent E n (Some ev) w = Some (Inr (), n', w) \<and> n_ready n' = n_ready n \<and>
    n_warmUntil n' = n_warmUntil n \<and>
    (if HasEvent ev InDelete \<or> HasEvent ev InMovedFrom
     then hk_hot (n_heavykeeper n') = (hk_hot (n_heavykeeper n))(key := None) \<and> n_observer n' = n_observer n
     else (if HasEvent ev InOpen \<or> HasEvent ev InMovedTo
           then \<exists>rows r mx out. add_rows (e_hk E) (hk_lookupTable (n_heavykeeper n)) (hk_width (n_heavykeeper n)) key 1 0
                    (hk_buckets (n_heavykeeper n)) (hk_r (n_heavykeeper n)) 0 = Some (rows, r, mx) \<and>
                  hk_buckets (n_heavykeeper n') = rows \<and>
                  admit_spec (hk_k (n_heavykeeper n)) (hk_minCount (n_heavykeeper n)) (hk_hot (n_heavykeeper n)) key mx
                    out (hk_hot (n_heavykeeper n'))
           else n_heavykeeper n' = n_heavykeeper n) \<and>
       n_observer n' = n_observer n @ (if ev_Mask ev AND InClose \<noteq> 0 then [RecordClose kind] else []) @
         (if HasEvent ev InOpen then [RecordAccess kind] else []))"
proof -
  have hk: "hk_inv (n_heavykeeper n)" "hk_width (n_heavykeeper n) \<noteq> 0" using assms(1) by (simp_all add: notify_ok_def)
  have k: "KeyForPath (e_sys E) (n_cache n) (ev_Name ev) w = (Inr (key, kind), w)"
    using KeyForPath_abs [OF assms(2,3)] assms(4,5) by (metis prod.collapse)
  obtain tk1 where r: "hk_Remove (n_heavykeeper n) key = Some tk1" "hk_hot tk1 = (hk_hot (n_heavykeeper n))(key := None)"
    using hk_Remove_ok [OF hk(1), of key] by blast
  let ?admitted = "\<lambda>tk. \<exists>rows r mx out. add_rows (e_hk E) (hk_lookupTable (n_heavykeeper n)) (hk_width (n_heavykeeper n)) key 1 0
      (hk_buckets (n_heavykeeper n)) (hk_r (n_heavykeeper n)) 0 = Some (rows, r, mx) \<and> hk_buckets tk = rows \<and>
      admit_spec (hk_k (n_heavykeeper n)) (hk_minCount (n_heavykeeper n)) (hk_hot (n_heavykeeper n)) key mx out (hk_hot tk)"
  obtain out tk2 where a: "hk_add (e_hk E) (n_heavykeeper n) key 1 = Some (out, tk2)" "?admitted tk2"
    using hk_add_total [OF hk, of "e_hk E" key 1] by blast
  show ?thesis
  proof (cases "HasEvent ev InDelete \<or> HasEvent ev InMovedFrom")
    case True
    then show ?thesis using k r assms(6,7) by (auto simp: handleEvent_def handleEntryEvent_def)
  next
    case False
    show ?thesis
    proof (cases "HasEvent ev InOpen \<or> HasEvent ev InMovedTo")
      case True
      obtain n' where n': "handleEntryEvent E n ev key kind = Some n'" "n_heavykeeper n' = tk2"
        "n_ready n' = n_ready n" "n_warmUntil n' = n_warmUntil n"
        "n_observer n' = n_observer n @ (if ev_Mask ev AND InClose \<noteq> 0 then [RecordClose kind] else []) @
         (if HasEvent ev InOpen then [RecordAccess kind] else [])"
        using True False a(1) by (cases "ev_Mask ev AND InClose = 0") (auto simp: handleEntryEvent_def Let_def)
      then have "handleEvent E n (Some ev) w = Some (Inr (), n', w)" using k assms(6,7) by (simp add: handleEvent_def)
      then show ?thesis using n' a(2) True False by auto
    next
      case none: False
      then show ?thesis using k False assms(6,7) by (auto simp: handleEvent_def handleEntryEvent_def Let_def)
    qed
  qed
qed

theorem handleEvent_heat_witness:
  "\<exists>n'. handleEvent sample_env (sample_notify False)
       (Some \<lparr>ev_Mask = InOpen, ev_Cookie = 0, ev_Name = ''/cache/ac/aa/'' @ digest_a\<rparr>) sample_fs = Some (Inr (), n', sample_fs) \<and>
     n_observer n' = [RecordAccess ActionCache]"
proof -
  let ?ev = "\<lparr>ev_Mask = InOpen, ev_Cookie = 0, ev_Name = ''/cache/ac/aa/'' @ digest_a\<rparr>"
  have "ParseKey (''ac/aa/'' @ digest_a) = Inr ActionCache"
    "Clean (ev_Name ?ev) = filepath_Join (diskRoot example_cache) (''ac/aa/'' @ digest_a)" by code_simp+
  from handleEvent_heat [OF sample_ok(1,2) _ this(1), of ?ev sample_env sample_fs] this(2) show ?thesis
    by (auto simp: sample_notify_def HasEvent_def coverage_lost_def)
qed

text \<open>C26: what a start takes over. When \<open>Run\<close> reaches its loop and \<open>loadCheckpoint\<close> returned items, \<open>Snapshot\<close> is called once for each of them,
  in their order and right after the load; those it finds are restored into the estimator, in their order and no others; every hot key is then the key of such
  an item, and no warm-up is started.
  When it returned an error or found no checkpoint, the heat is as it was, and a warm-up is started at the time read at the end of the start.\<close>

theorem run_start_heat:
  assumes "notify_ok n" "cache_ok (n_cache n)" "walks_end E" "run_start E sched n w = Some (Inr (), n', w')"
    "loadCheckpoint (e_json E) (e_ck E) (n_checkpointFile n) (TopKCapacity (n_policy n)) w = (loaded, w1)"
  shows "case loaded of
      Inr (Some items) \<Rightarrow> n_warmUntil n' = n_warmUntil n \<and>
        (\<exists>existing.
           existing = map fst (filter (\<lambda>(it, r). \<not> isl r) (zip items (snapshots (e_sys E) (n_cache n) (map item_Key items) w1))) \<and>
           hk_Restore (e_hk E) (n_heavykeeper n) existing = Some (n_heavykeeper n') \<and>
           (\<forall>key \<in> dom (hk_hot (n_heavykeeper n')). key \<in> item_Key ` set existing \<and> (\<exists>kind. ParseKey key = Inr kind)))
    | _ \<Rightarrow> n_heavykeeper n' = n_heavykeeper n \<and>
        (\<exists>u t. e_now E u = (t, w') \<and> n_warmUntil n' = t + WarmupDuration (n_policy n))"
proof -
  obtain b n1 v1 where 1: "restoreCheckpoint E n w = Some (b, n1, v1)" "notify_ok n1" "same_manager n n1" "same_phase n n1"
    "b \<or> n1 = n" using restoreCheckpoint_ok [OF assms(1), of E w] by blast
  have c: "cache_ok (n_cache n1)" using 1(3) assms(2) by (simp add: same_manager_def)
  obtain r n2 w2 where 2: "reconcile E sched False n1 v1 = Some (r, n2, w2)"
    "if r = Inr () then reconciled E False n1 n2 else frozen n1 n2" "same_manager n1 n2"
    using reconcile_ok [OF 1(2) c assms(3), of sched False v1] by blast
  obtain t w3 where t: "e_now E w2 = (t, w3)" by fastforce
  have r: "r = Inr ()" using assms(4) 1(1) 2(1) by (cases r) (auto simp: run_start_def)
  then have n2: "n_heavykeeper n2 = n_heavykeeper n1" "n_warmUntil n2 = n_warmUntil n"
    using 2(2) 1(4) by (simp_all add: reconciled_def reset_if_def same_phase_def)
  have pol: "n_policy n2 = n_policy n" using 1(3) 2(3) by (simp add: same_manager_def)
  show ?thesis
  proof (cases "\<exists>items. loaded = Inr (Some items)")
    case False
    then have "\<not> b" using 1(1) assms(5) by (auto simp: restoreCheckpoint_def split: sum.splits option.splits)
    then have "n' = n2\<lparr>n_warmUntil := t + WarmupDuration (n_policy n)\<rparr>" "n1 = n" "w' = w3"
      using assms(4) 1 2(1) r t pol by (auto simp: run_start_def)
    then show ?thesis using n2 t False by (auto split: sum.split option.split)
  next
    case True
    then obtain items where items: "loaded = Inr (Some items)" by blast
    obtain ex w5 where ex: "existing_items (e_sys E) (n_cache n) items w1 = (ex, w5)" by fastforce
    obtain tk where tk: "hk_Restore (e_hk E) (n_heavykeeper n) ex = Some tk" "b" "n1 = n\<lparr>n_heavykeeper := tk\<rparr>"
      using 1(1) assms(5) items ex by (auto simp: restoreCheckpoint_def)
    then have n': "n' = n2" "n_heavykeeper n' = tk" using assms(4) 1(1) 2(1) r n2(1) by (simp_all add: run_start_def)
    have "dom (hk_hot tk) \<subseteq> item_Key ` set ex" using hk_Restore_keys [OF tk(1)] assms(1) by (simp add: notify_ok_def)
    moreover have "\<exists>kind. ParseKey (item_Key it) = Inr kind" if "it \<in> set ex" for it
      using existing_items_sub [OF ex] that by (fastforce simp: Snapshot_def split: sum.splits)
    ultimately have "\<forall>key \<in> dom (hk_hot (n_heavykeeper n')). key \<in> item_Key ` set ex \<and> (\<exists>kind. ParseKey key = Inr kind)"
      using n'(2) by blast
    then show ?thesis using items n' n2(2) tk(1) existing_items_snapshots [OF ex] by (simp only: sum.case option.case) blast
  qed
qed

text \<open>A start that finds the checkpoint of one item whose file is there.\<close>

definition saved_ck :: "'w ck_sys" where
  "saved_ck = \<lparr>ck_Open = (\<lambda>p w. (Inr 8, w)), ck_Read = (\<lambda>f k w. (Inr ''{}'', w)), ck_Close = (\<lambda>f w. (Inr (), w)),
     ck_MkdirAll = (\<lambda>p w. (Inl ENOENT, w)), ck_CreateTemp = (\<lambda>p w. (Inl ENOENT, w)), ck_Chmod = (\<lambda>f w. (Inl ENOENT, w)),
     ck_Write = (\<lambda>f s w. (Inl ENOENT, w)), ck_Sync = (\<lambda>f w. (Inl ENOENT, w)), ck_Rename = (\<lambda>p q w. (Inl ENOENT, w)),
     ck_Remove = (\<lambda>p w. (Inl ENOENT, w))\<rparr>"

definition saved_items :: "Item list" where
  "saved_items = [\<lparr>item_Key = ''ac/aa/'' @ digest_a, item_Count = 2\<rparr>]"

definition saved_json :: json where
  "saved_json = \<lparr>json_Encode = (\<lambda>_. None), json_Decode = (\<lambda>_. Some (\<lparr>ck_Version = 1, ck_SavedAt = 0, ck_Items = saved_items\<rparr>, [])),
     json_EOF = (\<lambda>s. s = [])\<rparr>"

definition saved_env :: "memfs env" where
  "saved_env = run_env\<lparr>e_ck := saved_ck, e_json := saved_json\<rparr>"

lemma saved_load:
  "loadCheckpoint (e_json saved_env) (e_ck saved_env) (n_checkpointFile (sample_notify False))
     (TopKCapacity (n_policy (sample_notify False))) sample_fs = (Inr (Some saved_items), sample_fs)"
proof -
  have "list_all item_ok saved_items" by code_simp
  then show ?thesis by (simp add: loadCheckpoint_def check_checkpoint_def saved_env_def saved_ck_def saved_json_def saved_items_def
      sample_notify_def sample_policy_def)
qed

lemma saved_eval:
  "case existing_items (e_sys saved_env) (n_cache (sample_notify False)) saved_items sample_fs of (ex, w) \<Rightarrow>
     (case hk_Restore (e_hk saved_env) (n_heavykeeper (sample_notify False)) ex of
        None \<Rightarrow> False
      | Some tk \<Rightarrow> hk_Len tk = 1 \<and>
          (case reconcile saved_env ([], []) False ((sample_notify False)\<lparr>n_heavykeeper := tk\<rparr>) w of
             Some (Inr _, n, _) \<Rightarrow> hk_Len (n_heavykeeper n) = 1 | _ \<Rightarrow> False))"
  by code_simp

lemma saved_start:
  obtains n w where "run_start saved_env ([], []) (sample_notify False) sample_fs = Some (Inr (), n, w)" "hk_Len (n_heavykeeper n) = 1"
proof -
  let ?n = "sample_notify False"
  obtain ex w1 where ex: "existing_items (e_sys saved_env) (n_cache ?n) saved_items sample_fs = (ex, w1)" by fastforce
  obtain tk where tk: "hk_Restore (e_hk saved_env) (n_heavykeeper ?n) ex = Some tk"
    using saved_eval ex by (auto split: option.splits)
  then have "case reconcile saved_env ([], []) False (?n\<lparr>n_heavykeeper := tk\<rparr>) w1 of
      Some (Inr _, n, _) \<Rightarrow> hk_Len (n_heavykeeper n) = 1 | _ \<Rightarrow> False" using saved_eval ex by simp
  moreover from this obtain r n w where "reconcile saved_env ([], []) False (?n\<lparr>n_heavykeeper := tk\<rparr>) w1 = Some (r, n, w)"
    by (auto split: option.splits)
  ultimately have "reconcile saved_env ([], []) False (?n\<lparr>n_heavykeeper := tk\<rparr>) w1 = Some (Inr (), n, w)"
    "hk_Len (n_heavykeeper n) = 1" by (cases r; simp)+
  then show ?thesis using that saved_load ex tk by (simp add: run_start_def restoreCheckpoint_def)
qed

theorem run_start_heat_witness:
  "\<exists>n w ex. run_start saved_env ([], []) (sample_notify False) sample_fs = Some (Inr (), n, w) \<and> hk_Len (n_heavykeeper n) = 1 \<and>
     ex = map fst (filter (\<lambda>(it, r). \<not> isl r)
       (zip saved_items (snapshots (e_sys saved_env) (n_cache (sample_notify False)) (map item_Key saved_items) sample_fs))) \<and>
     hk_Restore (e_hk saved_env) (n_heavykeeper (sample_notify False)) ex = Some (n_heavykeeper n)"
proof -
  have ok: "walks_end saved_env" using run_env_walks_end by (simp add: walks_end_def saved_env_def)
  obtain n w where s: "run_start saved_env ([], []) (sample_notify False) sample_fs = Some (Inr (), n, w)" "hk_Len (n_heavykeeper n) = 1"
    by (rule saved_start)
  from run_start_heat [OF sample_ok(1,2) ok s(1) saved_load] show ?thesis using s by auto
qed

end
