(* ===== verification/Metrics.thy ===== *)
theory Metrics
  imports Event_Properties
begin

text \<open>
  The log formatter and the metrics of \<open>src/prometheus.go\<close>: the first adds default fields to an entry and hands it to the formatter
  of the logging library it wraps; the second is the observer that turns the calls of the manager into gauges and
  counters. The collectors are those of the Prometheus client library, so their operations are the fields
  of \<open>prom\<close>, over types of gauges and counters that are left abstract; adding a negative number to a counter
  panics there. A counter vector is a function from the label to its counter.

  The lemmas follow what the manager reports about its readiness through the event loop: with gauges that show what was
  last set, the ready gauge agrees with the manager's readiness while the loop runs, and is zero once \<open>Run\<close> has
  returned. The property is in \<open>Daemon\<close>, with the readiness probe.
\<close>

section \<open>Log entries\<close>

text \<open>An entry has its fields, what the formatter copies besides them (logger, time, level and message), and what it
  leaves out.\<close>

record ('v, 'x, 'y) log_entry =
  le_Data :: "string \<rightharpoonup> 'v"
  le_copied :: 'x
  le_other :: "'y option"

record ('v, 'x, 'y) DefaultFieldsFormatter =
  WrappedFormatter :: "('v, 'x, 'y) log_entry \<Rightarrow> string result"
  DefaultFields :: "string \<rightharpoonup> 'v"

definition NewDefaultFieldsFormatter ::
  "(('v, 'x, 'y) log_entry \<Rightarrow> string result) \<Rightarrow> (('v, 'x, 'y) log_entry \<Rightarrow> string result) option \<Rightarrow> (string \<rightharpoonup> 'v) \<Rightarrow>
    ('v, 'x, 'y) DefaultFieldsFormatter" where
  "NewDefaultFieldsFormatter jsonFormatter wrapped defaults =
     \<lparr>WrappedFormatter = (case wrapped of None \<Rightarrow> jsonFormatter | Some f \<Rightarrow> f), DefaultFields = defaults\<rparr>"

definition Format :: "('v, 'x, 'y) DefaultFieldsFormatter \<Rightarrow> ('v, 'x, 'y) log_entry \<Rightarrow> string result" where
  "Format d e = WrappedFormatter d \<lparr>le_Data = DefaultFields d ++ le_Data e, le_copied = le_copied e, le_other = None\<rparr>"

section \<open>The observer\<close>

record ('g, 'c) prom =
  gauge_New :: 'g
  counter_New :: 'c
  gauge_Set :: "float64 \<Rightarrow> 'g \<Rightarrow> 'g"
  counter_Inc :: "'c \<Rightarrow> 'c"
  counter_Add :: "float64 \<Rightarrow> 'c \<Rightarrow> 'c option"

record ('g, 'c) metrics =
  m_diskFreeBytes :: 'g
  m_diskUsedBytes :: 'g
  m_cacheBytes :: 'g
  m_ready :: 'g
  m_projectedBytes :: 'g
  m_accesses :: "string \<Rightarrow> 'c"
  m_closes :: "string \<Rightarrow> 'c"
  m_deletedBytes :: "string \<Rightarrow> 'c"
  m_deletedFiles :: "string \<Rightarrow> 'c"
  m_skippedActive :: 'c
  m_frozen :: "string \<Rightarrow> 'c"
  m_reconciliations :: 'c

definition newMetrics :: "('g, 'c) prom \<Rightarrow> ('g, 'c) metrics" where
  "newMetrics P = \<lparr>m_diskFreeBytes = gauge_New P, m_diskUsedBytes = gauge_New P, m_cacheBytes = gauge_New P,
     m_ready = gauge_New P, m_projectedBytes = gauge_New P, m_accesses = (\<lambda>_. counter_New P), m_closes = (\<lambda>_. counter_New P),
     m_deletedBytes = (\<lambda>_. counter_New P), m_deletedFiles = (\<lambda>_. counter_New P), m_skippedActive = counter_New P,
     m_frozen = (\<lambda>_. counter_New P), m_reconciliations = counter_New P\<rparr>"

definition float_of_int64 :: "int \<Rightarrow> float64" where
  "float_of_int64 x = round64 (of_int x)"

definition inc_label :: "('g, 'c) prom \<Rightarrow> string \<Rightarrow> (string \<Rightarrow> 'c) \<Rightarrow> string \<Rightarrow> 'c" where
  "inc_label P l v = v(l := counter_Inc P (v l))"

fun metrics_call :: "('g, 'c) prom \<Rightarrow> obs \<Rightarrow> ('g, 'c) metrics \<Rightarrow> ('g, 'c) metrics option" where
  "metrics_call P (SetDisk bytesFree bytesUsed) m =
     Some (m\<lparr>m_diskFreeBytes := gauge_Set P (float_of_u64 bytesFree) (m_diskFreeBytes m),
             m_diskUsedBytes := gauge_Set P (float_of_u64 bytesUsed) (m_diskUsedBytes m)\<rparr>)"
| "metrics_call P (SetCacheBytes bytes) m = Some (m\<lparr>m_cacheBytes := gauge_Set P (float_of_int64 bytes) (m_cacheBytes m)\<rparr>)"
| "metrics_call P (SetReady b) m = Some (m\<lparr>m_ready := gauge_Set P (if b then Fin 1 else Fin 0) (m_ready m)\<rparr>)"
| "metrics_call P (RecordAccess kind) m = Some (m\<lparr>m_accesses := inc_label P (kind_string kind) (m_accesses m)\<rparr>)"
| "metrics_call P (RecordClose kind) m = Some (m\<lparr>m_closes := inc_label P (kind_string kind) (m_closes m)\<rparr>)"
| "metrics_call P (RecordProjected bytes) m =
     Some (m\<lparr>m_projectedBytes := gauge_Set P (float_of_int64 bytes) (m_projectedBytes m)\<rparr>)"
| "metrics_call P (RecordDeleted kind bytes) m =
     (let l = kind_string kind
      in case counter_Add P (float_of_int64 bytes) (m_deletedBytes m l) of
           None \<Rightarrow> None
         | Some c \<Rightarrow> Some (m\<lparr>m_deletedBytes := (m_deletedBytes m)(l := c),
                             m_deletedFiles := inc_label P l (m_deletedFiles m)\<rparr>))"
| "metrics_call P RecordSkippedActive m = Some (m\<lparr>m_skippedActive := counter_Inc P (m_skippedActive m)\<rparr>)"
| "metrics_call P (RecordFrozen reason) m = Some (m\<lparr>m_frozen := inc_label P reason (m_frozen m)\<rparr>)"
| "metrics_call P RecordReconciliation m = Some (m\<lparr>m_reconciliations := counter_Inc P (m_reconciliations m)\<rparr>)"

primrec metrics_calls :: "('g, 'c) prom \<Rightarrow> obs list \<Rightarrow> ('g, 'c) metrics \<Rightarrow> ('g, 'c) metrics option" where
  "metrics_calls P [] m = Some m"
| "metrics_calls P (ob # obs) m =
     (case metrics_call P ob m of None \<Rightarrow> None | Some m' \<Rightarrow> metrics_calls P obs m')"

section \<open>The last report of readiness\<close>

fun ready_report :: "obs \<Rightarrow> bool option" where
  "ready_report (SetReady b) = Some b"
| "ready_report _ = None"

definition no_report :: "obs list \<Rightarrow> bool" where
  "no_report os \<longleftrightarrow> (\<forall>ob \<in> set os. ready_report ob = None)"

text \<open>The observer has last been told \<open>b\<close>.\<close>

definition reported :: "bool \<Rightarrow> obs list \<Rightarrow> bool" where
  "reported b os \<longleftrightarrow> (\<exists>us vs. os = us @ SetReady b # vs \<and> no_report vs)"

lemma no_report_simps [simp]:
  "no_report []" "no_report (ob # os) \<longleftrightarrow> ready_report ob = None \<and> no_report os"
  "no_report (a @ b) \<longleftrightarrow> no_report a \<and> no_report b" "no_report (deletions del vs)"
  by (auto simp: no_report_def deletions_def)

lemma reported_append: "reported b os \<Longrightarrow> no_report vs \<Longrightarrow> reported b (os @ vs)"
  by (force simp: reported_def)

lemma reported_last [simp]: "reported b (os @ [SetReady b])"
  by (force simp: reported_def)

lemma metrics_call_ready:
  "metrics_call P ob m = Some m' \<Longrightarrow>
   m_ready m' = (case ready_report ob of None \<Rightarrow> m_ready m | Some b \<Rightarrow> gauge_Set P (if b then Fin 1 else Fin 0) (m_ready m))"
  by (cases ob) (auto simp: Let_def split: option.splits)

lemma metrics_calls_append:
  "metrics_calls P (xs @ ys) m = (case metrics_calls P xs m of None \<Rightarrow> None | Some m' \<Rightarrow> metrics_calls P ys m')"
  by (induction xs arbitrary: m) (auto split: option.split)

lemma metrics_calls_no_report: "metrics_calls P os m = Some m' \<Longrightarrow> no_report os \<Longrightarrow> m_ready m' = m_ready m"
proof (induction os arbitrary: m)
  case (Cons ob os)
  obtain m1 where m1: "metrics_call P ob m = Some m1" "metrics_calls P os m1 = Some m'"
    using Cons.prems(1) by (auto split: option.splits)
  then show ?case using Cons.IH [OF m1(2)] Cons.prems(2) metrics_call_ready [OF m1(1)] by simp
qed simp

lemma metrics_reported:
  assumes "metrics_calls P os m = Some m'" "reported b os"
  shows "\<exists>g. m_ready m' = gauge_Set P (if b then Fin 1 else Fin 0) g"
proof -
  obtain us vs where os: "os = us @ SetReady b # vs" "no_report vs" using assms(2) by (auto simp: reported_def)
  obtain m1 where "metrics_calls P us m = Some m1"
    "metrics_calls P vs (m1\<lparr>m_ready := gauge_Set P (if b then Fin 1 else Fin 0) (m_ready m1)\<rparr>) = Some m'"
    using assms(1) by (auto simp: os(1) metrics_calls_append split: option.splits)
  from metrics_calls_no_report [OF this(2) os(2)] show ?thesis by auto
qed

section \<open>What the manager reports\<close>

text \<open>Most of what the manager does reports nothing about readiness.\<close>

definition quiet :: "Notify \<Rightarrow> Notify \<Rightarrow> bool" where
  "quiet n n' \<longleftrightarrow> (\<exists>os. n_observer n' = n_observer n @ os \<and> no_report os)"

lemma quiet_same: "n_observer n' = n_observer n \<Longrightarrow> quiet n n'"
  by (simp add: quiet_def)

lemma quiet_trans: "quiet a b \<Longrightarrow> quiet b c \<Longrightarrow> quiet a c"
  by (force simp: quiet_def)

lemma quiet_observe: "quiet n n' \<Longrightarrow> ready_report ob = None \<Longrightarrow> quiet n (observe ob n')"
  by (force simp: quiet_def)

lemma quiet_reported: "quiet n n' \<Longrightarrow> reported b (n_observer n) \<Longrightarrow> reported b (n_observer n')"
  by (auto simp: quiet_def intro: reported_append)

lemma selectVictims_quiet:
  assumes "selectVictims E n ents now f u del w = Some (p, n', w')" "notify_ok n" shows "quiet n n'"
proof -
  have "hk_inv (n_heavykeeper n)" using assms(2) by (simp add: notify_ok_def)
  then show ?thesis using assms(1) select_loop_selected
    by (fastforce simp: selectVictims_def Let_def selected_def quiet_def split: option.splits)
qed

lemma cleanup_quiet:
  assumes "cleanup E now n w = Some (r, n', w')" "notify_ok n" shows "quiet n n'"
proof -
  have locked: "quiet m m'" if "cleanup_locked E now m w1 = Some (x, m', w2)" "notify_ok m" for m m' w1 w2 x
    using that by (auto simp: cleanup_locked_def Let_def split: option.splits sum.splits prod.splits if_splits
        intro: quiet_same dest!: selectVictims_quiet) (auto simp: quiet_def)
  have evict: "quiet m m'" if "cleanup_evict E now ents f u m w1 = Some (x, m', w2)" "notify_ok m" for m m' w1 w2 x ents f u
    using that by (auto simp: cleanup_evict_def split: option.splits sum.splits prod.splits if_splits
        intro: quiet_observe quiet_same locked selectVictims_quiet)
  have ok: "notify_ok (m\<lparr>n_evicting := b\<rparr>) = notify_ok m" for m b by (simp add: notify_ok_def)
  show ?thesis using assms
    by (auto simp: cleanup_def Let_def ok quiet_def split: option.splits sum.splits prod.splits if_splits
        dest!: evict)
qed

lemma handleEvent_quiet: "handleEvent E n event w = Some (r, n', w') \<Longrightarrow> quiet n n'"
  by (auto simp: handleEvent_def handleEntryEvent_def seedExistingEntries_def Let_def quiet_def
      split: option.splits if_splits sum.splits prod.splits)

lemma reported_set [simp]: "reported b (n_observer (set_ready b n))" "reported b (n_observer (close_watcher (set_ready b n)))"
  by simp_all

lemma reconcile_reported:
  "reconcile E sched b n w = Some (r, n', w') \<Longrightarrow> reported (r = Inr ()) (n_observer n')"
  unfolding reconcile_def Let_def
  by (auto split: option.splits sum.splits prod.splits if_splits simp del: set_ready_simps close_watcher_simps)

lemma recover_step_reported:
  "recover_step E sched n w = Some (out, n', w') \<Longrightarrow> reported (out = Continue) (n_observer n')"
  by (auto simp: recover_step_def recoverWatcher_def split: option.splits sum.splits dest!: reconcile_reported)

lemma receive_step_reported:
  "receive_step E sched m n w = Some (Continue, n', w') \<Longrightarrow> reported True (n_observer n) \<Longrightarrow> reported True (n_observer n')"
  using quiet_reported [OF handleEvent_quiet]
  by (fastforce simp: receive_step_def split: chan.splits option.splits sum.splits if_splits dest: recover_step_reported)

lemma run_step_reported:
  assumes "run_step E sched i n w = Some (Continue, n', w')" "notify_ok n" "reported True (n_observer n)"
  shows "reported True (n_observer n')"
  using assms by (cases i) (auto simp: run_step_def split: option.splits prod.splits
      intro: receive_step_reported quiet_reported cleanup_quiet)

lemma run_loop_reported:
  assumes "run_loop E is n w = Some (r, n', w')" "loop_ok E n" "reported True (n_observer n)"
  shows "reported (r = None) (n_observer n')"
  using assms
proof (induction "is" arbitrary: n w)
  case (Cons i "is")
  obtain out n1 w1 where st: "run_step E (fst i) (snd i) n w = Some (out, n1, w1)" "notify_ok n1" "same_manager n n1"
    "out = Continue \<longrightarrow> n_ready n1 \<and> watching n1 \<and> rewarmed E n n1" using run_step_ok [OF Cons.prems(2)] by blast
  show ?case
  proof (cases out)
    case Continue
    then have "loop_ok E n1" using loop_okI [OF Cons.prems(2)] st by blast
    moreover have "reported True (n_observer n1)"
      using run_step_reported [OF st(1) [unfolded Continue]] Cons.prems(2,3) by (simp add: loop_ok_def)
    ultimately show ?thesis using Cons.IH [of n1 w1] Cons.prems(1) st(1) Continue by simp
  next
    case (Return x)
    then show ?thesis using Cons.prems(1) st(1) by (auto simp: run_exit_def)
  qed
qed simp

lemma run_start_reported: "run_start E sched n w = Some (r, n', w') \<Longrightarrow> reported (r = Inr ()) (n_observer n')"
  by (auto simp: run_start_def split: option.splits sum.splits prod.splits if_splits dest!: reconcile_reported)

lemma Run_reported:
  assumes "Run E sched is n w = Some (r, n', w')" "notify_ok n" "cache_ok (n_cache n)" "walks_end E"
  shows "reported (r = None) (n_observer n')"
proof -
  obtain x n1 w1 where x: "run_start E sched n w = Some (x, n1, w1)" "x = Inr () \<longrightarrow> loop_ok E n1"
    using run_start_ok [OF assms(2-4)] by metis
  have rep: "reported (x = Inr ()) (n_observer n1)" using run_start_reported [OF x(1)] .
  show ?thesis
  proof (cases x)
    case (Inl e)
    then show ?thesis using assms(1) x(1) rep by (auto simp: Run_def)
  next
    case (Inr u)
    then show ?thesis using assms(1) x rep run_loop_reported [of E "is" n1 w1 r n' w']
      by (simp add: Run_def split: option.splits)
  qed
qed

section \<open>The collectors\<close>

text \<open>What the client library documents: a gauge shows what was last set, and a counter can be increased by
  any value that is not negative.\<close>

definition collectors_ok :: "('g, 'c) prom \<Rightarrow> ('g \<Rightarrow> float64) \<Rightarrow> bool" where
  "collectors_ok P val \<longleftrightarrow> (\<forall>v g. val (gauge_Set P v g) = v) \<and> (\<forall>v c. fle (Fin 0) v \<longrightarrow> counter_Add P v c \<noteq> None)"

definition sizes_ok :: "obs list \<Rightarrow> bool" where
  "sizes_ok os \<longleftrightarrow> (\<forall>kind bytes. RecordDeleted kind bytes \<in> set os \<longrightarrow> 0 \<le> bytes)"

lemma metrics_calls_total:
  assumes "collectors_ok P val" "sizes_ok os" shows "\<exists>m'. metrics_calls P os m = Some m'"
  using assms(2)
proof (induction os arbitrary: m)
  case (Cons ob os)
  have "metrics_call P ob m \<noteq> None"
  proof (cases ob)
    case (RecordDeleted kind bytes)
    then have "0 \<le> bytes" using Cons.prems by (simp add: sizes_ok_def)
    then have "fle (Fin 0) (float_of_int64 bytes)" using round64_mono_nonneg [of 0 "of_int bytes"] by (simp add: float_of_int64_def)
    then obtain c where "counter_Add P (float_of_int64 bytes) (m_deletedBytes m (kind_string kind)) = Some c"
      using assms(1) unfolding collectors_ok_def by blast
    then show ?thesis using RecordDeleted by (simp add: Let_def)
  qed simp_all
  then obtain m1 where "metrics_call P ob m = Some m1" by blast
  moreover have "sizes_ok os" using Cons.prems by (simp add: sizes_ok_def)
  ultimately show ?case using Cons.IH [of m1] by simp
qed simp

end
