(* ===== verification/Main_Options.thy ===== *)
theory Main_Options
  imports Notify_State
begin

text \<open>
  The command line of \<open>src/main.go\<close>: the options with their defaults, \<open>parseOptions\<close>, \<open>evictionConfig\<close> and
  \<open>gibToBytes\<close>. The splitting of arguments into flags follows the package \<open>flag\<close>; the conversion of
  a boolean is \<open>ParseBool\<close>; those of a number and of a duration (\<open>strconv\<close>, \<open>time.ParseDuration\<close>) are the fields of
  \<open>flag_values\<close>, about which nothing is assumed.

  The properties: the defaults are safe and valid for every cache directory; deletion takes an explicit
  flag; accepted options always name a cache, a lock and a checkpoint and use legal ports; and the
  conversion to the policy loses nothing.
\<close>

section \<open>Options\<close>

record options =
  cacheDir :: string
  activityLock :: string
  checkpointFile :: string
  host :: string
  metricsPort :: int
  pprofHost :: string
  pprofPort :: int
  shadow :: bool
  diskCheckInterval :: duration
  checkpointInterval :: duration
  minimumResidence :: duration
  warmupDuration :: duration
  topKDecayInterval :: duration
  minPercentBlocksFree :: float64
  evictUntilPercentBlocksFree :: float64
  maxCacheGiB :: u64
  targetCacheGiB :: u64
  minActionCacheGiB :: u64
  cleanupBatchSize :: int
  topKCapacity :: u64
  topKWidth :: u64
  topKDepth :: u64
  topKDecay :: float64
  topKMinCount :: u64

abbreviation Minute :: duration where "Minute \<equiv> 60000000000"
abbreviation Hour :: duration where "Hour \<equiv> 3600000000000"

definition default_options :: options where
  "default_options = \<lparr>cacheDir = [], activityLock = [], checkpointFile = [], host = ''0.0.0.0'', metricsPort = 9092,
     pprofHost = ''127.0.0.1'', pprofPort = 0, shadow = True, diskCheckInterval = Minute,
     checkpointInterval = 5 * Minute, minimumResidence = Hour, warmupDuration = 30 * Minute,
     topKDecayInterval = Hour, minPercentBlocksFree = Fin 30, evictUntilPercentBlocksFree = Fin 35,
     maxCacheGiB = 400, targetCacheGiB = 320, minActionCacheGiB = 4, cleanupBatchSize = 100,
     topKCapacity = 100000, topKWidth = 2 ^ 17, topKDepth = 4, topKDecay = round64 (9 / 10), topKMinCount = 1\<rparr>"

section \<open>Flags\<close>

record flag_values =
  fv_Int :: "string \<Rightarrow> int option"
  fv_Uint64 :: "string \<Rightarrow> u64 option"
  fv_Float64 :: "string \<Rightarrow> float64 option"
  fv_Duration :: "string \<Rightarrow> duration option"

type_synonym setter = "string \<Rightarrow> options \<Rightarrow> options option"

definition set_with :: "(string \<Rightarrow> 'a option) \<Rightarrow> ('a \<Rightarrow> options \<Rightarrow> options) \<Rightarrow> setter" where
  "set_with conv upd v opts = map_option (\<lambda>x. upd x opts) (conv v)"

text \<open>The flags other than \<open>shadow\<close>, which is the only boolean one.\<close>

definition value_flags :: "flag_values \<Rightarrow> (string \<times> setter) list" where
  "value_flags F =
     [(''cache-dir'', set_with Some (\<lambda>x op. op\<lparr>cacheDir := x\<rparr>)),
      (''activity-lock'', set_with Some (\<lambda>x op. op\<lparr>activityLock := x\<rparr>)),
      (''checkpoint-file'', set_with Some (\<lambda>x op. op\<lparr>checkpointFile := x\<rparr>)),
      (''host'', set_with Some (\<lambda>x op. op\<lparr>host := x\<rparr>)),
      (''metrics-port'', set_with (fv_Int F) (\<lambda>x op. op\<lparr>metricsPort := x\<rparr>)),
      (''pprof-host'', set_with Some (\<lambda>x op. op\<lparr>pprofHost := x\<rparr>)),
      (''pprof-port'', set_with (fv_Int F) (\<lambda>x op. op\<lparr>pprofPort := x\<rparr>)),
      (''disk-check-interval'', set_with (fv_Duration F) (\<lambda>x op. op\<lparr>diskCheckInterval := x\<rparr>)),
      (''checkpoint-interval'', set_with (fv_Duration F) (\<lambda>x op. op\<lparr>checkpointInterval := x\<rparr>)),
      (''minimum-residence'', set_with (fv_Duration F) (\<lambda>x op. op\<lparr>minimumResidence := x\<rparr>)),
      (''warmup-duration'', set_with (fv_Duration F) (\<lambda>x op. op\<lparr>warmupDuration := x\<rparr>)),
      (''top-k-decay-interval'', set_with (fv_Duration F) (\<lambda>x op. op\<lparr>topKDecayInterval := x\<rparr>)),
      (''min-percent-blocks-free'', set_with (fv_Float64 F) (\<lambda>x op. op\<lparr>minPercentBlocksFree := x\<rparr>)),
      (''evict-until-percent-blocks-free'', set_with (fv_Float64 F) (\<lambda>x op. op\<lparr>evictUntilPercentBlocksFree := x\<rparr>)),
      (''max-cache-gib'', set_with (fv_Uint64 F) (\<lambda>x op. op\<lparr>maxCacheGiB := x\<rparr>)),
      (''target-cache-gib'', set_with (fv_Uint64 F) (\<lambda>x op. op\<lparr>targetCacheGiB := x\<rparr>)),
      (''min-action-cache-gib'', set_with (fv_Uint64 F) (\<lambda>x op. op\<lparr>minActionCacheGiB := x\<rparr>)),
      (''cleanup-batch-size'', set_with (fv_Int F) (\<lambda>x op. op\<lparr>cleanupBatchSize := x\<rparr>)),
      (''top-k-capacity'', set_with (fv_Uint64 F) (\<lambda>x op. op\<lparr>topKCapacity := x\<rparr>)),
      (''top-k-width'', set_with (fv_Uint64 F) (\<lambda>x op. op\<lparr>topKWidth := x\<rparr>)),
      (''top-k-depth'', set_with (fv_Uint64 F) (\<lambda>x op. op\<lparr>topKDepth := x\<rparr>)),
      (''top-k-decay'', set_with (fv_Float64 F) (\<lambda>x op. op\<lparr>topKDecay := x\<rparr>)),
      (''top-k-min-count'', set_with (fv_Uint64 F) (\<lambda>x op. op\<lparr>topKMinCount := x\<rparr>))]"

definition ParseBool :: "string \<Rightarrow> bool option" where
  "ParseBool v =
     (if v \<in> {''1'', ''t'', ''T'', ''true'', ''TRUE'', ''True''} then Some True
      else if v \<in> {''0'', ''f'', ''F'', ''false'', ''FALSE'', ''False''} then Some False
      else None)"

definition set_shadow :: setter where
  "set_shadow = set_with ParseBool (\<lambda>x op. op\<lparr>shadow := x\<rparr>)"

text \<open>The name and the value of a flag: the text before and after the first \<open>=\<close>, which cannot be the first
  character.\<close>

definition split_value :: "string \<Rightarrow> string \<times> string option" where
  "split_value s =
     (let name = hd s # takeWhile (\<lambda>c. c \<noteq> CHR ''='') (tl s)
      in (name, if name = s then None else Some (drop (length name + 1) s)))"

text \<open>One argument that looks like a flag, after its dashes were removed: the new options and the rest of the arguments.\<close>

definition set_flag :: "flag_values \<Rightarrow> string \<Rightarrow> string list \<Rightarrow> options \<Rightarrow> (options \<times> string list) option" where
  "set_flag F s args opts =
     (case split_value s of (name, value) \<Rightarrow>
        if name = ''shadow''
        then map_option (\<lambda>o'. (o', args)) (set_shadow (case value of None \<Rightarrow> ''true'' | Some v \<Rightarrow> v) opts)
        else (case map_of (value_flags F) name of
                None \<Rightarrow> None
              | Some setv \<Rightarrow>
                  (case value of
                     Some v \<Rightarrow> map_option (\<lambda>o'. (o', args)) (setv v opts)
                   | None \<Rightarrow>
                       (case args of
                          [] \<Rightarrow> None
                        | v # rest \<Rightarrow> map_option (\<lambda>o'. (o', rest)) (setv v opts)))))"

text \<open>\<open>FlagSet.Parse\<close>: the options and the arguments that are left; \<open>None\<close> is an error. Parsing stops at
  the first argument that is not a flag and after \<open>--\<close>.\<close>

lemma set_flag_args: "set_flag F s args opts = Some (o', rest) \<Longrightarrow> length rest \<le> length args"
  by (auto simp: set_flag_def split: prod.splits if_splits option.splits list.splits)

function parse_flags :: "flag_values \<Rightarrow> string list \<Rightarrow> options \<Rightarrow> (options \<times> string list) option" where
  "parse_flags F [] opts = Some (opts, [])"
| "parse_flags F (s # args) opts =
     (if length s < 2 \<or> hd s \<noteq> CHR ''-'' then Some (opts, s # args)
      else if s = ''--'' then Some (opts, args)
      else let name = (if s ! 1 = CHR ''-'' then drop 2 s else tl s)
           in if name = [] \<or> hd name = CHR ''-'' \<or> hd name = CHR ''='' then None
              else (case set_flag F name args opts of
                None \<Rightarrow> None
              | Some (opts', rest) \<Rightarrow> parse_flags F rest opts'))"
  by pat_completeness auto
termination
  by (relation "measure (\<lambda>(_, args, _). length args)") (auto dest: set_flag_args)

declare parse_flags.simps(2) [simp del]

text \<open>\<open>filepath.Join\<close> of three elements joins them with slashes and cleans the result, which is joining the
  first with the other two already joined.\<close>

definition parseOptions :: "flag_values \<Rightarrow> string list \<Rightarrow> options result" where
  "parseOptions F args =
     (case parse_flags F args default_options of
        None \<Rightarrow> Inl (ErrMsg ''flag error'')
      | Some (opts, rest) \<Rightarrow>
          if rest \<noteq> [] then Inl (ErrMsg ''unexpected positional arguments'')
          else if cacheDir opts = [] then Inl (ErrMsg ''--cache-dir must be set'')
          else let opts1 = (if activityLock opts = []
                     then opts\<lparr>activityLock := filepath_Join (filepath_Dir (cacheDir opts)) ''bazel-cache.activity.lock''\<rparr>
                     else opts);
                   opts2 = (if checkpointFile opts1 = []
                     then opts1\<lparr>checkpointFile := filepath_Join (filepath_Dir (cacheDir opts1)) ''hoshino-state/hot-set.json''\<rparr>
                     else opts1)
               in if metricsPort opts2 \<le> 0 \<or> 65535 < metricsPort opts2 \<or> pprofPort opts2 < 0 \<or> 65535 < pprofPort opts2
                  then Inl (ErrMsg ''listen ports must be in range 1-65535; pprof may also be zero'')
                  else Inr opts2)"

section \<open>The configuration\<close>

abbreviation gibibyte :: int where "gibibyte \<equiv> 2 ^ 30"

definition gibToBytes :: "u64 \<Rightarrow> int result" where
  "gibToBytes v =
     (if (2 ^ 63 - 1) div 2 ^ 30 < v then Inl (ErrMsg ''GiB value is too large'')
      else Inr (i64 (i64 (uint v) * gibibyte)))"

definition MaxUint32 :: u64 where "MaxUint32 = 2 ^ 32 - 1"

definition evictionConfig :: "options \<Rightarrow> Config result" where
  "evictionConfig opts =
     (case gibToBytes (maxCacheGiB opts) of
        Inl e \<Rightarrow> Inl e
      | Inr maxCacheBytes \<Rightarrow>
          (case gibToBytes (targetCacheGiB opts) of
             Inl e \<Rightarrow> Inl e
           | Inr targetCacheBytes \<Rightarrow>
               (case gibToBytes (minActionCacheGiB opts) of
                  Inl e \<Rightarrow> Inl e
                | Inr minActionCacheBytes \<Rightarrow>
                    if MaxUint32 < topKCapacity opts \<or> MaxUint32 < topKWidth opts \<or> MaxUint32 < topKDepth opts \<or>
                       MaxUint32 < topKMinCount opts
                    then Inl (ErrMsg ''top-k values must fit in uint32'')
                    else Inr \<lparr>cfg_CacheDir = cacheDir opts, cfg_ActivityLock = activityLock opts,
                           cfg_CheckpointFile = checkpointFile opts,
                           cfg_Policy = \<lparr>DiskCheckInterval = diskCheckInterval opts,
                             CheckpointInterval = checkpointInterval opts, TopKDecayInterval = topKDecayInterval opts,
                             MinimumResidence = minimumResidence opts, WarmupDuration = warmupDuration opts,
                             MinPercentBlocksFree = minPercentBlocksFree opts,
                             EvictUntilPercentBlocksFree = evictUntilPercentBlocksFree opts,
                             MaxCacheBytes = maxCacheBytes, TargetCacheBytes = targetCacheBytes,
                             MinActionCacheBytes = minActionCacheBytes, CleanupBatchSize = cleanupBatchSize opts,
                             TopKCapacity = ucast (topKCapacity opts), TopKWidth = ucast (topKWidth opts),
                             TopKDepth = ucast (topKDepth opts), TopKDecay = topKDecay opts,
                             TopKMinCount = ucast (topKMinCount opts), Shadow = shadow opts\<rparr>\<rparr>)))"

section \<open>Conversions\<close>

lemma gibToBytes_iff:
  "gibToBytes v = Inr b \<longleftrightarrow> uint v * 2 ^ 30 < 2 ^ 63 \<and> b = uint v * 2 ^ 30"
proof -
  have le: "v \<le> (2 ^ 63 - 1) div 2 ^ 30 \<longleftrightarrow> uint v \<le> 8589934591" by (simp add: word_le_def)
  have "i64 (i64 (uint v) * gibibyte) = uint v * 2 ^ 30" if "uint v \<le> 8589934591"
  proof -
    have "in_i64 x" if "0 \<le> x" "x < 9223372036854775808" for x using that by (simp add: in_i64_def)
    then have "in_i64 (uint v)" "in_i64 (uint v * 2 ^ 30)" using that by simp_all
    then show ?thesis by simp
  qed
  then show ?thesis unfolding gibToBytes_def using le by (auto simp: not_less)
qed

lemma gibToBytes_Inl: "gibToBytes v = Inl e \<Longrightarrow> 2 ^ 63 \<le> uint v * 2 ^ 30"
  by (auto simp: gibToBytes_def word_less_def split: if_splits)

lemma ucast_small: "v \<le> MaxUint32 \<Longrightarrow> uint (ucast v :: u32) = uint v"
  by (simp add: MaxUint32_def word_le_def unsigned_ucast_eq take_bit_int_eq_self)

section \<open>Flags\<close>

text \<open>A flag that is not \<open>shadow\<close> leaves the mode alone.\<close>

lemma value_flags_shadow: "(name, setv) \<in> set (value_flags F) \<Longrightarrow> setv v opts = Some o' \<Longrightarrow> shadow o' = shadow opts"
  by (auto simp: value_flags_def set_with_def)

lemma set_flag_shadow:
  assumes "set_flag F s args opts = Some (o', rest)" "shadow opts" "\<not> shadow o'"
  obtains v where "s = ''shadow='' @ v" "ParseBool v = Some False"
proof -
  obtain name val where sv: "split_value s = (name, val)" by fastforce
  have name: "name = ''shadow''"
  proof (rule ccontr)
    assume "name \<noteq> ''shadow''"
    then have "\<exists>setv v. map_of (value_flags F) name = Some setv \<and> setv v opts = Some o'"
      using assms(1) sv by (auto simp: set_flag_def split: option.splits list.splits)
    then show False using value_flags_shadow map_of_SomeD assms(2,3) by metis
  qed
  let ?v = "case val of None \<Rightarrow> ''true'' | Some v \<Rightarrow> v"
  have b: "ParseBool ?v = Some False"
    using assms name sv by (auto simp: set_flag_def set_shadow_def set_with_def)
  show thesis
  proof (cases val)
    case None
    then show ?thesis using b by (simp add: ParseBool_def)
  next
    case (Some v)
    have nm: "hd s # takeWhile (\<lambda>c. c \<noteq> CHR ''='') (tl s) = ''shadow''" "s \<noteq> ''shadow''" "v = drop 7 s"
      using sv name Some by (auto simp: split_value_def Let_def eval_nat_numeral split: if_splits)
    have "s \<noteq> []" using nm(1) by (cases s) auto
    then have "s = (hd s # takeWhile (\<lambda>c. c \<noteq> CHR ''='') (tl s)) @ dropWhile (\<lambda>c. c \<noteq> CHR ''='') (tl s)" by simp
    then have s: "s = ''shadow'' @ dropWhile (\<lambda>c. c \<noteq> CHR ''='') (tl s)" using nm(1) by simp
    have "dropWhile (\<lambda>c. c \<noteq> CHR ''='') (tl s) \<noteq> []"
    proof
      assume e: "dropWhile (\<lambda>c. c \<noteq> CHR ''='') (tl s) = []"
      from s have "s = ''shadow''" unfolding e by simp
      then show False using nm(2) by simp
    qed
    then obtain d where d: "dropWhile (\<lambda>c. c \<noteq> CHR ''='') (tl s) = CHR ''='' # d"
      using hd_dropWhile [of "\<lambda>c. c \<noteq> CHR ''=''" "tl s"] by (cases "dropWhile (\<lambda>c. c \<noteq> CHR ''='') (tl s)") auto
    then have "s = ''shadow='' @ d" using s by simp
    then show ?thesis using that [of d] b nm(3) Some by auto
  qed
qed

lemma set_flag_rest: "set_flag F s args opts = Some (o', rest) \<Longrightarrow> set rest \<subseteq> set args"
  by (auto simp: set_flag_def split: prod.splits if_splits option.splits list.splits)

text \<open>An argument that turns shadow mode off.\<close>

definition shadow_off :: "string \<Rightarrow> bool" where
  "shadow_off a \<longleftrightarrow> (\<exists>v \<in> {''0'', ''f'', ''F'', ''false'', ''FALSE'', ''False''}. a = ''-shadow='' @ v \<or> a = ''--shadow='' @ v)"

lemma ParseBool_False: "ParseBool v = Some False \<longleftrightarrow> v \<in> {''0'', ''f'', ''F'', ''false'', ''FALSE'', ''False''}"
  by (auto simp: ParseBool_def)

lemma parse_flags_shadow:
  "parse_flags F args opts = Some (o', rest) \<Longrightarrow> shadow opts \<Longrightarrow> \<not> shadow o' \<Longrightarrow> \<exists>a \<in> set args. shadow_off a"
proof (induction F args opts rule: parse_flags.induct)
  case (2 F s args opts)
  let ?name = "if s ! 1 = CHR ''-'' then drop 2 s else tl s"
  have dash: "\<not> (length s < 2 \<or> hd s \<noteq> CHR ''-'')" "s \<noteq> ''--''"
    "\<not> (?name = [] \<or> hd ?name = CHR ''-'' \<or> hd ?name = CHR ''='')"
    using 2(2-) by (auto simp: parse_flags.simps(2) Let_def split: if_splits)
  obtain o1 rest1 where f: "set_flag F ?name args opts = Some (o1, rest1)" "parse_flags F rest1 o1 = Some (o', rest)"
    using 2(2) dash by (auto simp: parse_flags.simps(2) Let_def split: option.splits if_splits)
  have name: "s = ''-'' @ ?name \<or> s = ''--'' @ ?name"
  proof -
    obtain a b t where "s = a # b # t" using dash(1) by (cases s; cases "tl s") auto
    then show ?thesis using dash(1) by auto
  qed
  show ?case
  proof (cases "shadow o1")
    case True
    then show ?thesis using 2(1) [OF dash(1,2) refl dash(3) f(1) refl f(2)] 2(4) set_flag_rest [OF f(1)] by auto
  next
    case False
    obtain v where v: "?name = ''shadow='' @ v" "v \<in> {''0'', ''f'', ''F'', ''false'', ''FALSE'', ''False''}"
      using set_flag_shadow [OF f(1) 2(3) False] unfolding ParseBool_False by blast
    have "s = ''-shadow='' @ v \<or> s = ''--shadow='' @ v" using name unfolding v(1) by auto
    then have "shadow_off s" using v(2) unfolding shadow_off_def by blast
    then show ?thesis by simp
  qed
qed simp

lemma parseOptions_shadow:
  assumes "parseOptions F args = Inr opts" "\<not> shadow opts" shows "\<exists>a \<in> set args. shadow_off a"
proof -
  obtain o1 where "parse_flags F args default_options = Some (o1, [])" "\<not> shadow o1"
    using assms by (auto simp: parseOptions_def Let_def split: option.splits if_splits)
  moreover have "shadow default_options" by (simp add: default_options_def)
  ultimately show ?thesis using parse_flags_shadow by blast
qed

lemma evictionConfig_shadow: "evictionConfig opts = Inr cfg \<Longrightarrow> Shadow (cfg_Policy cfg) = shadow opts"
  by (auto simp: evictionConfig_def Let_def split: sum.splits if_splits)

section \<open>Properties\<close>

text \<open>Deletion takes an explicit flag. If the accepted options do not ask for shadow mode, one of the arguments is
  the \<open>shadow\<close> flag, with one or two dashes, with one of the six texts for false as its value; no other combination of
  arguments turns deletion on.\<close>

lemma deletion_needs_flag:
  assumes "parseOptions F args = Inr opts" "\<not> shadow opts"
  shows "\<exists>a \<in> set args. \<exists>v \<in> {''0'', ''f'', ''F'', ''false'', ''FALSE'', ''False''}. a = ''-shadow='' @ v \<or> a = ''--shadow='' @ v"
  using parseOptions_shadow [OF assms] unfolding shadow_off_def .

definition sample_values :: flag_values where
  "sample_values = \<lparr>fv_Int = (\<lambda>_. None), fv_Uint64 = (\<lambda>_. None), fv_Float64 = (\<lambda>_. None), fv_Duration = (\<lambda>_. None)\<rparr>"

text \<open>Accepted options are complete. They name a cache directory, a lock file and a checkpoint file, the last two
  next to the cache directory when they were not given, and the ports are legal.\<close>

lemma parseOptions_complete:
  assumes "parseOptions F args = Inr opts"
  shows "cacheDir opts \<noteq> [] \<and> activityLock opts \<noteq> [] \<and> checkpointFile opts \<noteq> [] \<and>
    0 < metricsPort opts \<and> metricsPort opts \<le> 65535 \<and> 0 \<le> pprofPort opts \<and> pprofPort opts \<le> 65535"
proof -
  have "filepath_Join a b \<noteq> []" if "b \<noteq> []" for a b using that by (simp add: filepath_Join_def)
  then show ?thesis using assms by (auto simp: parseOptions_def Let_def not_le split: option.splits if_splits)
qed

text \<open>C37: the configuration loses nothing. A configuration has the sizes of the options in bytes, without
  overflow, and their estimator parameters without truncation; it is refused exactly when a size does not fit
  \<open>int64\<close> or a parameter does not fit \<open>uint32\<close>.\<close>

theorem evictionConfig_exact:
  "case evictionConfig opts of
     Inr cfg \<Rightarrow>
       MaxCacheBytes (cfg_Policy cfg) = uint (maxCacheGiB opts) * 2 ^ 30 \<and>
       TargetCacheBytes (cfg_Policy cfg) = uint (targetCacheGiB opts) * 2 ^ 30 \<and>
       MinActionCacheBytes (cfg_Policy cfg) = uint (minActionCacheGiB opts) * 2 ^ 30 \<and>
       MaxCacheBytes (cfg_Policy cfg) < 2 ^ 63 \<and> TargetCacheBytes (cfg_Policy cfg) < 2 ^ 63 \<and>
       MinActionCacheBytes (cfg_Policy cfg) < 2 ^ 63 \<and>
       uint (TopKCapacity (cfg_Policy cfg)) = uint (topKCapacity opts) \<and>
       uint (TopKWidth (cfg_Policy cfg)) = uint (topKWidth opts) \<and>
       uint (TopKDepth (cfg_Policy cfg)) = uint (topKDepth opts) \<and>
       uint (TopKMinCount (cfg_Policy cfg)) = uint (topKMinCount opts) \<and>
       Shadow (cfg_Policy cfg) = shadow opts
   | Inl e \<Rightarrow>
       (\<exists>v \<in> {maxCacheGiB opts, targetCacheGiB opts, minActionCacheGiB opts}. 2 ^ 63 \<le> uint v * 2 ^ 30) \<or>
       (\<exists>v \<in> {topKCapacity opts, topKWidth opts, topKDepth opts, topKMinCount opts}. 2 ^ 32 \<le> uint v)"
proof -
  have big: "MaxUint32 < v \<longleftrightarrow> 2 ^ 32 \<le> uint v" for v by (auto simp: MaxUint32_def word_less_def)
  show ?thesis
  proof (cases "evictionConfig opts")
    case (Inl e)
    then show ?thesis by (auto simp: evictionConfig_def big split: sum.splits if_splits dest: gibToBytes_Inl)
  next
    case (Inr cfg)
    then show ?thesis by (auto simp: evictionConfig_def gibToBytes_iff not_less ucast_small split: sum.splits if_splits)
  qed
qed

text \<open>C38: the defaults are a safe pilot. For every cache directory, naming it is enough: the options are
  accepted, shadow mode is on and the profiler off, and the configuration they give passes the validation of the policy.\<close>

theorem defaults_safe:
  assumes "dir \<noteq> []"
  shows "\<exists>opts cfg. parseOptions F [''--cache-dir='' @ dir] = Inr opts \<and> shadow opts \<and> pprofPort opts = 0 \<and>
    evictionConfig opts = Inr cfg \<and> cfg_CacheDir cfg = dir \<and> Shadow (cfg_Policy cfg) \<and> Validate (cfg_Policy cfg) = None"
proof -
  have split: "split_value (''cache-dir='' @ dir) = (''cache-dir'', Some dir)" by (simp add: split_value_def)
  have "map_of (value_flags F) ''cache-dir'' = Some (set_with Some (\<lambda>x op. op\<lparr>cacheDir := x\<rparr>))"
    by (simp add: value_flags_def)
  then have "set_flag F (''cache-dir='' @ dir) [] default_options = Some (default_options\<lparr>cacheDir := dir\<rparr>, [])"
    by (simp add: set_flag_def split set_with_def del: append_Cons)
  then have p: "parse_flags F [''--cache-dir='' @ dir] default_options = Some (default_options\<lparr>cacheDir := dir\<rparr>, [])"
    by (simp add: parse_flags.simps(2))
  let ?o = "default_options\<lparr>cacheDir := dir, activityLock := filepath_Join (filepath_Dir dir) ''bazel-cache.activity.lock'',
    checkpointFile := filepath_Join (filepath_Dir dir) ''hoshino-state/hot-set.json''\<rparr>"
  have opts: "parseOptions F [''--cache-dir='' @ dir] = Inr ?o"
    unfolding parseOptions_def p using assms by (simp add: default_options_def)
  have def: "shadow default_options" "pprofPort default_options = 0" "maxCacheGiB default_options = 400"
    "targetCacheGiB default_options = 320" "minActionCacheGiB default_options = 4"
    by (simp_all add: default_options_def)
  have gib: "gibToBytes 400 = Inr (400 * 2 ^ 30)" "gibToBytes 320 = Inr (320 * 2 ^ 30)" "gibToBytes 4 = Inr (4 * 2 ^ 30)"
    by (simp_all add: gibToBytes_iff)
  have small: "\<not> (MaxUint32 < topKCapacity default_options \<or> MaxUint32 < topKWidth default_options \<or>
      MaxUint32 < topKDepth default_options \<or> MaxUint32 < topKMinCount default_options)"
    by (simp add: default_options_def MaxUint32_def)
  obtain cfg where cfg: "evictionConfig ?o = Inr cfg" using def gib small by (simp add: evictionConfig_def)
  have "case evictionConfig default_options of Inl _ \<Rightarrow> False | Inr c \<Rightarrow> Validate (cfg_Policy c) = None" by code_simp
  moreover have "map_sum id cfg_Policy (evictionConfig ?o) = map_sum id cfg_Policy (evictionConfig default_options)"
    by (simp add: evictionConfig_def split: sum.split)
  ultimately have "Validate (cfg_Policy cfg) = None" using cfg by (auto split: sum.splits)
  moreover have "cfg_CacheDir cfg = dir" "Shadow (cfg_Policy cfg)" using cfg def gib small by (auto simp: evictionConfig_def)
  ultimately show ?thesis using opts cfg def by (intro exI [of _ ?o] exI [of _ cfg]) simp
qed

theorem defaults_safe_witness:
  "\<exists>opts cfg. parseOptions sample_values [''--cache-dir=/var/cache/bazel''] = Inr opts \<and>
     evictionConfig opts = Inr cfg \<and> Validate (cfg_Policy cfg) = None"
  using defaults_safe [of "''/var/cache/bazel''" sample_values] by auto

end
