(* ===== verification/Http_Server.thy ===== *)
theory Http_Server
  imports Notify_State Main_Options
begin

text \<open>
  The HTTP servers that \<open>run\<close> of \<open>src/main.go\<close> sets up: the server of the metrics and of the two probes, and the server of the
  profiler, which exists only when a port is given. The routing is that of \<open>http.ServeMux\<close> for the patterns the source
  registers (no methods, hosts or wildcards): a request path is cleaned first, a pattern that ends in a
  slash stands for everything below it, an exact pattern goes before it, and a path that is not clean, or lacks the slash of such a
  pattern, is redirected. Requests with the method \<open>CONNECT\<close>, whose path is not cleaned, and the request URI \<open>*\<close> are left out. The pages of \<open>promhttp\<close> and \<open>pprof\<close> are values of an argument.

  The property: what each of the two servers answers to every path.
\<close>

section \<open>Handlers\<close>

record response =
  re_status :: nat
  re_body :: string

definition healthz :: response where
  "healthz = \<lparr>re_status = 200, re_body = ''ok'' @ [CHR 0x0A]\<rparr>"

definition readyz :: "Notify \<Rightarrow> response" where
  "readyz manager =
     (if \<not> Ready manager then \<lparr>re_status = 503, re_body = ''not ready'' @ [CHR 0x0A]\<rparr>
      else \<lparr>re_status = 200, re_body = ''ready'' @ [CHR 0x0A]\<rparr>)"

datatype handler = Prometheus | Healthz | Readyz | PprofIndex | PprofCmdline | PprofProfile | PprofSymbol | PprofTrace

section \<open>Routing\<close>

type_synonym mux = "(string \<times> handler) list"

definition ends_slash :: "string \<Rightarrow> bool" where
  "ends_slash p \<longleftrightarrow> p \<noteq> [] \<and> last p = slash"

text \<open>The cleaned path keeps its last slash.\<close>

definition cleanPath :: "string \<Rightarrow> string" where
  "cleanPath p =
     (let q = (if p \<noteq> [] \<and> hd p = slash then p else slash # p);
          np = Clean q
      in if ends_slash q \<and> np \<noteq> ''/'' then np @ ''/'' else np)"

text \<open>The pattern itself, or the longest pattern with a last slash that the path begins with.\<close>

primrec longest :: "string \<Rightarrow> mux \<Rightarrow> (string \<times> handler) option \<Rightarrow> (string \<times> handler) option" where
  "longest p [] best = best"
| "longest p (ph # phs) best =
     longest p phs
       (if ends_slash (fst ph) \<and> take (length (fst ph)) p = fst ph \<and>
           (case best of None \<Rightarrow> True | Some b \<Rightarrow> length (fst b) < length (fst ph))
        then Some ph else best)"

definition mux_match :: "mux \<Rightarrow> string \<Rightarrow> (string \<times> handler) option" where
  "mux_match mux p = (case map_of mux p of Some h \<Rightarrow> Some (p, h) | None \<Rightarrow> longest p mux None)"

definition exactMatch :: "mux \<Rightarrow> string \<Rightarrow> bool" where
  "exactMatch mux p \<longleftrightarrow> (\<exists>h. mux_match mux p = Some (p, h))"

lemma exactMatch_code [code]:
  "exactMatch mux p \<longleftrightarrow> (case mux_match mux p of None \<Rightarrow> False | Some (q, _) \<Rightarrow> q = p)"
  by (auto simp: exactMatch_def split: option.splits)

datatype reply = Page handler | Redirect string | NotFound

definition mux_serve :: "mux \<Rightarrow> string \<Rightarrow> reply" where
  "mux_serve mux path =
     (let p = cleanPath path
      in if \<not> exactMatch mux p \<and> \<not> ends_slash p \<and> exactMatch mux (p @ ''/'') then Redirect (p @ ''/'')
         else if p \<noteq> path then Redirect p
         else case mux_match mux p of None \<Rightarrow> NotFound | Some (_, h) \<Rightarrow> Page h)"

section \<open>The servers\<close>

record server =
  sv_Addr :: string
  sv_Handler :: mux
  sv_ReadHeaderTimeout :: duration

text \<open>\<open>strconv.Itoa\<close>.\<close>

definition digit_char :: "nat \<Rightarrow> char" where
  "digit_char d = char_of (48 + d)"

fun decimal :: "nat \<Rightarrow> string" where
  "decimal n = (if n < 10 then [digit_char n] else decimal (n div 10) @ [digit_char (n mod 10)])"

declare decimal.simps [simp del]

definition Itoa :: "int \<Rightarrow> string" where
  "Itoa i = (if i < 0 then CHR ''-'' # decimal (nat (- i)) else decimal (nat i))"

definition metricsMux :: mux where
  "metricsMux = [(''/metrics'', Prometheus), (''/prometheus'', Prometheus), (''/healthz'', Healthz), (''/readyz'', Readyz)]"

definition pprofMux :: mux where
  "pprofMux = [(''/debug/pprof/'', PprofIndex), (''/debug/pprof/cmdline'', PprofCmdline), (''/debug/pprof/profile'', PprofProfile),
     (''/debug/pprof/symbol'', PprofSymbol), (''/debug/pprof/trace'', PprofTrace)]"

definition metricsServer :: "options \<Rightarrow> server" where
  "metricsServer opts = \<lparr>sv_Addr = host opts @ '':'' @ Itoa (metricsPort opts), sv_Handler = metricsMux,
     sv_ReadHeaderTimeout = 5 * 10 ^ 9\<rparr>"

definition pprofServer :: "options \<Rightarrow> server option" where
  "pprofServer opts =
     (if pprofPort opts \<noteq> 0
      then Some \<lparr>sv_Addr = pprofHost opts @ '':'' @ Itoa (pprofPort opts), sv_Handler = pprofMux,
        sv_ReadHeaderTimeout = 5 * 10 ^ 9\<rparr>
      else None)"

text \<open>The answer of a server: the source's own handlers for the probes, \<open>pages\<close> for those of the libraries.\<close>

definition serve :: "(handler \<Rightarrow> response) \<Rightarrow> Notify \<Rightarrow> mux \<Rightarrow> string \<Rightarrow> response + string" where
  "serve pages manager mux path =
     (case mux_serve mux path of
        Redirect p \<Rightarrow> Inr p
      | NotFound \<Rightarrow> Inl \<lparr>re_status = 404, re_body = ''404 page not found'' @ [CHR 0x0A]\<rparr>
      | Page Healthz \<Rightarrow> Inl healthz
      | Page Readyz \<Rightarrow> Inl (readyz manager)
      | Page h \<Rightarrow> Inl (pages h))"

section \<open>Clean paths\<close>

lemma ends_slash_append [simp]: "ends_slash (p @ ''/'')"
  by (simp add: ends_slash_def)

lemma last_join: "ps \<noteq> [] \<Longrightarrow> \<forall>p \<in> set ps. p \<noteq> [] \<Longrightarrow> join_slash ps \<noteq> [] \<and> last (join_slash ps) = last (last ps)"
  by (induction ps rule: join_slash.induct) auto

lemma ends_slash_abs_path:
  assumes "\<forall>p \<in> set ps. plain p" shows "ends_slash (abs_path ps) \<longleftrightarrow> ps = []"
proof (cases "ps = []")
  case False
  then have "plain (last ps)" using assms by simp
  then have "last (last ps) \<noteq> slash" by (auto simp: plain_def in_set_conv_decomp dest: sym [of slash] last_in_set)
  moreover have "\<forall>p \<in> set ps. p \<noteq> []" using assms by (auto simp: plain_def)
  ultimately show ?thesis using False last_join [of ps] by (simp add: ends_slash_def abs_path_def)
qed (simp add: ends_slash_def abs_path_def)

lemma Clean_slash:
  assumes "\<forall>p \<in> set ps. plain p" "ps \<noteq> []" shows "Clean (abs_path ps @ ''/'') = abs_path ps"
proof -
  have "abs_path ps @ ''/'' = join_slash (([] # ps) @ [[]])"
    using join_slash_append [of "[] # ps" "[[]]"] assms(2) by (cases ps) (simp_all add: abs_path_def)
  moreover have "\<forall>p \<in> set (([] # ps) @ [[]]). slash \<notin> set p" using assms by (auto simp: plain_def)
  ultimately have "split_slash (abs_path ps @ ''/'') = [] # ps @ [[]]" using split_join_slash by (metis append_Cons append_is_Nil_conv list.distinct(1))
  moreover have "clean_elements True (ps @ [[]]) = ps" using assms by (simp add: clean_elements_def fold_clean_plain clean_step_def)
  moreover have "IsAbs (abs_path ps @ ''/'')" by (simp add: abs_path_def)
  ultimately show ?thesis by (simp add: Clean_def Let_def abs_path_def)
qed

lemma cleanPath_shape:
  obtains ps where "\<forall>p \<in> set ps. plain p" "cleanPath path = abs_path ps \<or> (ps \<noteq> [] \<and> cleanPath path = abs_path ps @ ''/'')"
proof -
  define q where "q = (if path \<noteq> [] \<and> hd path = slash then path else slash # path)"
  have "IsAbs q" by (auto simp: q_def IsAbs_def)
  then obtain ps where ps: "Clean q = abs_path ps" "\<forall>p \<in> set ps. plain p" by (rule Clean_abs)
  have "cleanPath path = (if ends_slash q \<and> abs_path ps \<noteq> ''/'' then abs_path ps @ ''/'' else abs_path ps)"
    by (simp add: cleanPath_def q_def [symmetric] ps(1) Let_def)
  then show ?thesis using that [OF ps(2)] by (cases "ps = []") (auto simp: abs_path_def)
qed

lemma cleanPath_abs: "\<forall>p \<in> set ps. plain p \<Longrightarrow> cleanPath (abs_path ps) = abs_path ps"
  "\<forall>p \<in> set ps. plain p \<Longrightarrow> ps \<noteq> [] \<Longrightarrow> cleanPath (abs_path ps @ ''/'') = abs_path ps @ ''/''"
proof -
  assume pl: "\<forall>p \<in> set ps. plain p"
  have hd: "abs_path ps \<noteq> [] \<and> hd (abs_path ps) = slash" "abs_path ps @ ''/'' \<noteq> [] \<and> hd (abs_path ps @ ''/'') = slash"
    by (simp_all add: abs_path_def)
  have root: "abs_path ps = ''/'' \<longleftrightarrow> ps = []" using abs_path_inj [OF pl, of "[]"] by (simp add: abs_path_def)
  show "cleanPath (abs_path ps) = abs_path ps"
    using hd(1) pl ends_slash_abs_path [OF pl] root by (simp add: cleanPath_def Let_def)
  show "cleanPath (abs_path ps @ ''/'') = abs_path ps @ ''/''" if "ps \<noteq> []"
    using hd(2) Clean_slash [OF pl that] root that unfolding cleanPath_def Let_def by simp
qed

lemma cleanPath_idem: "cleanPath (cleanPath path) = cleanPath path"
  by (rule cleanPath_shape [of path]) (auto simp: cleanPath_abs)

text \<open>A redirect leads to a clean path.\<close>

lemma redirect_clean:
  assumes "mux_serve mux path = Redirect p" shows "cleanPath p = p \<and> (ends_slash p \<or> \<not> exactMatch mux (p @ ''/'') \<or> exactMatch mux p)"
proof (cases "\<not> exactMatch mux (cleanPath path) \<and> \<not> ends_slash (cleanPath path) \<and> exactMatch mux (cleanPath path @ ''/'')")
  case True
  then have p: "p = cleanPath path @ ''/''" using assms by (simp add: mux_serve_def Let_def)
  obtain ps where ps: "\<forall>p \<in> set ps. plain p" "cleanPath path = abs_path ps \<or> (ps \<noteq> [] \<and> cleanPath path = abs_path ps @ ''/'')"
    by (rule cleanPath_shape)
  then have "cleanPath path = abs_path ps \<and> ps \<noteq> []" using True ends_slash_abs_path [OF ps(1)] by auto
  then show ?thesis using p cleanPath_abs(2) [OF ps(1)] by simp
next
  case False
  then have p: "p = cleanPath path" using assms by (auto simp: mux_serve_def Let_def split: if_splits option.splits)
  then show ?thesis using False cleanPath_idem by auto
qed

lemma redirect_once: "mux_serve mux path = Redirect p \<Longrightarrow> mux_serve mux p \<noteq> Redirect q"
  using redirect_clean [of mux path p] by (auto simp: mux_serve_def Let_def split: option.splits)

section \<open>The two routing tables\<close>

lemma metrics_exact: "mux_match metricsMux p = map_option (Pair p) (map_of metricsMux p)"
  by (auto simp: mux_match_def metricsMux_def ends_slash_def)

lemma metrics_clean: "map_of metricsMux p = Some h \<Longrightarrow> cleanPath p = p"
proof -
  assume "map_of metricsMux p = Some h"
  then have "p \<in> {''/metrics'', ''/prometheus'', ''/healthz'', ''/readyz''}" by (auto simp: metricsMux_def split: if_splits)
  moreover have "cleanPath ''/metrics'' = ''/metrics''" "cleanPath ''/prometheus'' = ''/prometheus''" "cleanPath ''/healthz'' = ''/healthz''"
    "cleanPath ''/readyz'' = ''/readyz''" by code_simp+
  ultimately show ?thesis by auto
qed

lemma metrics_serve:
  "mux_serve metricsMux path =
     (case map_of metricsMux path of Some h \<Rightarrow> Page h | None \<Rightarrow> if cleanPath path \<noteq> path then Redirect (cleanPath path) else NotFound)"
proof -
  have "\<not> exactMatch metricsMux (p @ ''/'')" for p
  proof -
    have "q \<in> fst ` set metricsMux \<Longrightarrow> \<not> ends_slash q" for q by (auto simp: metricsMux_def ends_slash_def)
    then have "map_of metricsMux (p @ ''/'') = None" unfolding map_of_eq_None_iff using ends_slash_append by blast
    then show ?thesis by (simp add: exactMatch_def metrics_exact)
  qed
  then show ?thesis using metrics_clean [of path] by (auto simp: mux_serve_def Let_def metrics_exact split: option.split)
qed

text \<open>The profiler: an exact pattern, or the index for everything else below the prefix.\<close>

lemma longest_pprof: "longest p pprofMux None =
    (if take (length ''/debug/pprof/'') p = ''/debug/pprof/'' then Some (''/debug/pprof/'', PprofIndex) else None)"
  by (simp add: pprofMux_def ends_slash_def)

lemma pprof_exact: "exactMatch pprofMux p \<longleftrightarrow> map_of pprofMux p \<noteq> None"
proof -
  have "map_of pprofMux ''/debug/pprof/'' = Some PprofIndex" by (simp add: pprofMux_def)
  then show ?thesis by (auto simp: exactMatch_def mux_match_def longest_pprof split: option.splits if_splits)
qed

lemma pprof_slash: "map_of pprofMux (p @ ''/'') \<noteq> None \<longleftrightarrow> p = ''/debug/pprof''"
proof -
  have "p @ ''/'' = ''/debug/pprof/'' \<longleftrightarrow> p = ''/debug/pprof''" using append_same_eq [of p "''/''" "''/debug/pprof''"] by simp
  moreover have "\<not> ends_slash q" if "q \<in> {''/debug/pprof/cmdline'', ''/debug/pprof/profile'', ''/debug/pprof/symbol'', ''/debug/pprof/trace''}" for q
    using that by (auto simp: ends_slash_def)
  then have "p @ ''/'' \<notin> {''/debug/pprof/cmdline'', ''/debug/pprof/profile'', ''/debug/pprof/symbol'', ''/debug/pprof/trace''}"
    using ends_slash_append [of p] by blast
  ultimately show ?thesis by (simp add: pprofMux_def)
qed

lemma pprof_clean: "map_of pprofMux p = Some h \<Longrightarrow> cleanPath p = p"
proof -
  assume "map_of pprofMux p = Some h"
  then have "p \<in> {''/debug/pprof/'', ''/debug/pprof/cmdline'', ''/debug/pprof/profile'', ''/debug/pprof/symbol'', ''/debug/pprof/trace''}"
    by (auto simp: pprofMux_def split: if_splits)
  moreover have "cleanPath ''/debug/pprof/'' = ''/debug/pprof/''" "cleanPath ''/debug/pprof/cmdline'' = ''/debug/pprof/cmdline''"
    "cleanPath ''/debug/pprof/profile'' = ''/debug/pprof/profile''" "cleanPath ''/debug/pprof/symbol'' = ''/debug/pprof/symbol''"
    "cleanPath ''/debug/pprof/trace'' = ''/debug/pprof/trace''" by code_simp+
  ultimately show ?thesis by auto
qed

lemma pprof_serve:
  "mux_serve pprofMux path =
     (case map_of pprofMux path of
        Some h \<Rightarrow> Page h
      | None \<Rightarrow>
          if cleanPath path = ''/debug/pprof'' then Redirect ''/debug/pprof/''
          else if cleanPath path \<noteq> path then Redirect (cleanPath path)
          else if take (length ''/debug/pprof/'') path = ''/debug/pprof/'' then Page PprofIndex
          else NotFound)"
proof -
  have "map_of pprofMux ''/debug/pprof'' = None" "\<not> ends_slash ''/debug/pprof''" by (simp_all add: pprofMux_def ends_slash_def)
  then show ?thesis using pprof_clean [of path] pprof_slash [of "cleanPath path"]
    by (auto simp: mux_serve_def Let_def pprof_exact mux_match_def longest_pprof split: option.split)
qed

section \<open>Properties\<close>

text \<open>C39: what the servers answer to every path. The server of the metrics answers the two metrics paths with the collected metrics, the liveness
  probe with 200, and the readiness probe with 200 exactly when the manager is ready and with 503 otherwise; any other path is redirected to its
  clean form, or not found. The profiler's server exists exactly when its port is not zero; it answers the four named paths each with its
  own page, redirects the prefix without its slash and paths that are not clean, shows the index for the rest below the prefix, and finds
  nothing else. A redirect of either leads to an answer at once.\<close>

theorem http_routes:
  "serve pages n (sv_Handler (metricsServer opts)) path =
     (if path = ''/metrics'' \<or> path = ''/prometheus'' then Inl (pages Prometheus)
      else if path = ''/healthz'' then Inl healthz
      else if path = ''/readyz'' then Inl (readyz n)
      else if cleanPath path \<noteq> path then Inr (cleanPath path)
      else Inl \<lparr>re_status = 404, re_body = ''404 page not found'' @ [CHR 0x0A]\<rparr>) \<and>
   (pprofServer opts \<noteq> None \<longleftrightarrow> pprofPort opts \<noteq> 0) \<and>
   (\<forall>sv. pprofServer opts = Some sv \<longrightarrow> serve pages n (sv_Handler sv) path =
     (if path = ''/debug/pprof/cmdline'' then Inl (pages PprofCmdline)
      else if path = ''/debug/pprof/profile'' then Inl (pages PprofProfile)
      else if path = ''/debug/pprof/symbol'' then Inl (pages PprofSymbol)
      else if path = ''/debug/pprof/trace'' then Inl (pages PprofTrace)
      else if cleanPath path = ''/debug/pprof'' then Inr ''/debug/pprof/''
      else if cleanPath path \<noteq> path then Inr (cleanPath path)
      else if take (length ''/debug/pprof/'') path = ''/debug/pprof/'' then Inl (pages PprofIndex)
      else Inl \<lparr>re_status = 404, re_body = ''404 page not found'' @ [CHR 0x0A]\<rparr>)) \<and>
   (mux_serve mux path = Redirect p \<longrightarrow> (\<forall>q. mux_serve mux p \<noteq> Redirect q))"
proof (intro conjI allI impI)
  show "serve pages n (sv_Handler (metricsServer opts)) path =
     (if path = ''/metrics'' \<or> path = ''/prometheus'' then Inl (pages Prometheus)
      else if path = ''/healthz'' then Inl healthz
      else if path = ''/readyz'' then Inl (readyz n)
      else if cleanPath path \<noteq> path then Inr (cleanPath path)
      else Inl \<lparr>re_status = 404, re_body = ''404 page not found'' @ [CHR 0x0A]\<rparr>)"
    unfolding serve_def metricsServer_def by (simp add: metrics_serve) (simp add: metricsMux_def)
  fix sv assume "pprofServer opts = Some sv"
  then have sv: "sv_Handler sv = pprofMux" by (auto simp: pprofServer_def split: if_splits)
  have index: "cleanPath ''/debug/pprof/'' = ''/debug/pprof/''" by code_simp
  show "serve pages n (sv_Handler sv) path =
     (if path = ''/debug/pprof/cmdline'' then Inl (pages PprofCmdline)
      else if path = ''/debug/pprof/profile'' then Inl (pages PprofProfile)
      else if path = ''/debug/pprof/symbol'' then Inl (pages PprofSymbol)
      else if path = ''/debug/pprof/trace'' then Inl (pages PprofTrace)
      else if cleanPath path = ''/debug/pprof'' then Inr ''/debug/pprof/''
      else if cleanPath path \<noteq> path then Inr (cleanPath path)
      else if take (length ''/debug/pprof/'') path = ''/debug/pprof/'' then Inl (pages PprofIndex)
      else Inl \<lparr>re_status = 404, re_body = ''404 page not found'' @ [CHR 0x0A]\<rparr>)"
    unfolding sv serve_def pprof_serve using index by (auto simp: pprofMux_def)
qed (auto simp: pprofServer_def dest: redirect_once split: if_splits)

theorem http_routes_witness:
  "mux_serve pprofMux ''/debug/pprof'' = Redirect ''/debug/pprof/'' \<and> (\<forall>q. mux_serve pprofMux ''/debug/pprof/'' \<noteq> Redirect q) \<and>
   (\<exists>sv n. pprofServer (default_options\<lparr>pprofPort := 7\<rparr>) = Some sv \<and> sv_Addr sv = ''127.0.0.1:7'' \<and>
      serve (\<lambda>h. if h = PprofTrace then healthz else \<lparr>re_status = 404, re_body = []\<rparr>) n (sv_Handler sv) ''/debug/pprof/trace'' = Inl healthz)"
proof -
  have r: "mux_serve pprofMux ''/debug/pprof'' = Redirect ''/debug/pprof/''" by code_simp
  let ?op = "default_options\<lparr>pprofPort := 7\<rparr>"
  let ?sv = "\<lparr>sv_Addr = ''127.0.0.1:7'', sv_Handler = pprofMux, sv_ReadHeaderTimeout = 5 * 10 ^ 9\<rparr>"
  let ?pages = "\<lambda>h. if h = PprofTrace then healthz else \<lparr>re_status = 404, re_body = []\<rparr>"
  have "Itoa 7 = ''7''" by code_simp
  then have sv: "pprofServer ?op = Some ?sv" by (simp add: pprofServer_def default_options_def)
  from http_routes [of ?pages undefined ?op "''/debug/pprof/trace''"] sv
  have "serve ?pages undefined (sv_Handler ?sv) ''/debug/pprof/trace'' = Inl healthz" by simp
  moreover from http_routes [of ?pages undefined ?op "''/debug/pprof''" pprofMux "''/debug/pprof/''"] r
  have "\<forall>q. mux_serve pprofMux ''/debug/pprof/'' \<noteq> Redirect q" by blast
  ultimately show ?thesis using r sv by auto
qed

end
