(* ===== verification/Daemon.thy ===== *)
theory Daemon
  imports Metrics Main_Options Http_Server
begin

text \<open>
  The daemon: \<open>run\<close> and \<open>main\<close> of \<open>src/main.go\<close> put the parts together. The manager's goroutine is the \<open>Run\<close> of the
  event loop over the inputs it has received when \<open>run\<close> looks at its channels; which case the \<open>select\<close> of
  \<open>run\<close> takes, what \<open>ListenAndServe\<close> of a server returned and the errors of the shutdowns are arguments. The servers and their
  handlers are in \<open>Http_Server\<close>.

  The properties span the whole program: from the command line to the system calls, no run deletes a cache entry
  unless the arguments turn shadow mode off; and the ready gauge and the readiness probe agree with the manager.
\<close>

section \<open>The main function\<close>

text \<open>What \<open>ListenAndServe\<close> returns, and what the goroutine of a server puts on the channel of errors.\<close>

datatype listen = ErrServerClosed | ListenError goerr

definition server_error :: "listen \<Rightarrow> goerr option" where
  "server_error l = (case l of ErrServerClosed \<Rightarrow> None | ListenError e \<Rightarrow> Some e)"

text \<open>The case the \<open>select\<close> takes: the context is done, the manager has returned, or a server has returned. The
  second is ready only when there is a result, the third only when there is an error on the channel.\<close>

datatype stop = StopCtx | StopManager | StopServer listen

fun run_select :: "stop \<Rightarrow> unit result option \<Rightarrow> goerr option option" where
  "run_select StopCtx r = Some None"
| "run_select StopManager r =
     (case r of None \<Rightarrow> None | Some (Inl e) \<Rightarrow> Some (Some e) | Some (Inr _) \<Rightarrow> Some None)"
| "run_select (StopServer l) r = map_option Some (server_error l)"

text \<open>\<open>errors.Join\<close>: the errors that are not nil; none gives nil.\<close>

definition errors_Join :: "goerr option list \<Rightarrow> goerr list" where
  "errors_Join es = concat (map (\<lambda>e. case e of None \<Rightarrow> [] | Some x \<Rightarrow> [x]) es)"

text \<open>The manager \<open>run\<close> starts with, from the options.\<close>

definition run_manager :: "'w env \<Rightarrow> options \<Rightarrow> 'w \<Rightarrow> Notify result \<times> 'w" where
  "run_manager E opts w = (case evictionConfig opts of Inl e \<Rightarrow> (Inl e, w) | Inr config \<Rightarrow> New E config w)"

text \<open>The errors \<open>run\<close> returns, nothing while it has not returned. The shutdown of the profiler's server counts only when there is
  one.\<close>

definition run :: "'w env \<Rightarrow> schedule \<Rightarrow> (schedule \<times> input) list \<Rightarrow> stop \<Rightarrow> goerr option \<Rightarrow> goerr option \<Rightarrow> options \<Rightarrow> 'w \<Rightarrow>
    (goerr list option \<times> 'w) option" where
  "run E sched is st shutdown pprofShutdown opts w =
     (case run_manager E opts w of
        (Inl e, w1) \<Rightarrow> Some (Some [e], w1)
      | (Inr manager, w1) \<Rightarrow>
          (case Run E sched is manager w1 of
             None \<Rightarrow> None
           | Some (r, _, w2) \<Rightarrow>
               Some (map_option (\<lambda>runErr. errors_Join
                   ([runErr, shutdown] @ (if pprofServer opts \<noteq> None then [pprofShutdown] else []))) (run_select st r), w2)))"

text \<open>\<open>main\<close>: wrong arguments are fatal.\<close>

definition main :: "flag_values \<Rightarrow> 'w env \<Rightarrow> schedule \<Rightarrow> (schedule \<times> input) list \<Rightarrow> stop \<Rightarrow> goerr option \<Rightarrow> goerr option \<Rightarrow>
    string list \<Rightarrow> 'w \<Rightarrow> (goerr list option \<times> 'w) option" where
  "main F E sched is st shutdown pprofShutdown args w =
     (case parseOptions F args of
        Inl e \<Rightarrow> Some (Some [e], w)
      | Inr opts \<Rightarrow> run E sched is st shutdown pprofShutdown opts w)"

section \<open>Shadow mode\<close>

lemma restoreCheckpoint_log:
  assumes "restoreCheckpoint (traced_env E) n (w, tr) = Some (b, n', (w', tr'))" shows "tr' = tr"
proof -
  have ex: "snd (snd (existing_items (traced (e_sys E)) c its s)) = snd s" for c its and s :: "'a \<times> event list"
  proof (induction its arbitrary: s)
    case (Cons it its)
    obtain x s1 where x: "Snapshot (traced (e_sys E)) c (item_Key it) s = (x, s1)" by (rule prod.exhaust)
    have "snd s1 = snd s" using Snapshot_log [of "e_sys E" c "item_Key it" s] x by simp
    then show ?case using Cons.IH [of s1] x by (auto split: sum.split prod.split)
  qed simp
  have load: "snd (snd (loadCheckpoint J (e_ck (traced_env E)) path k s)) = snd s" for J path k and s :: "'a \<times> event list"
    by (auto simp: loadCheckpoint_def split: sum.split prod.split) (metis snd_conv snd_snd_on_fst)+
  obtain x w1 tr1 where x: "loadCheckpoint (e_json E) (e_ck (traced_env E)) (n_checkpointFile n) (TopKCapacity (n_policy n)) (w, tr) =
      (x, (w1, tr1))" by (metis prod.exhaust_sel)
  then have "tr1 = tr" using load [of "e_json E" "n_checkpointFile n" "TopKCapacity (n_policy n)" "(w, tr)"] by simp
  moreover have "tr2 = tr1" if "existing_items (traced (e_sys E)) (n_cache n) items (w1, tr1) = (y, (w2, tr2))" for items y w2 tr2
    using ex [of "n_cache n" items "(w1, tr1)"] that by simp
  ultimately show ?thesis using assms x
    by (auto simp: restoreCheckpoint_def split: option.splits sum.splits prod.splits)
qed

lemma run_start_log: "run_start (traced_env E) sched n (w, tr) = Some (r, n', (w', tr')) \<Longrightarrow> tr' = tr"
  by (auto simp: run_start_def split: option.splits sum.splits prod.splits if_splits
      dest!: restoreCheckpoint_log reconcile_log)

lemma New_log: "New (traced_env E) config (w, tr) = (r, (w', tr')) \<Longrightarrow> tr' = tr"
  by (auto simp: New_def NewCache_def filepath_Abs_def traced_simps Let_def
      split: option.splits if_splits sum.splits prod.splits)

text \<open>What the daemon relies on: walks end, resolved links are clean, and the working directory is absolute.\<close>

definition system_ok :: "'w env \<Rightarrow> bool" where
  "system_ok E \<longleftrightarrow> walks_end E \<and> clean_links (e_sys E) \<and>
     (\<forall>w wd w'. sys_getwd (e_sys E) w = (Inr wd, w') \<longrightarrow> IsAbs wd)"

lemma system_ok_traced: "system_ok E \<Longrightarrow> system_ok (traced_env E)"
  by (auto simp: system_ok_def clean_links_def traced_simps on_fst_def split: prod.splits) blast+

lemma New_cache_ok:
  assumes "system_ok E" "New E config w = (Inr n, w')" shows "cache_ok (n_cache n)"
proof -
  obtain w1 where "NewCache (e_sys E) (cfg_CacheDir config) w = (Inr (n_cache n), w1)"
    using assms(2) by (auto simp: New_def Let_def split: option.splits if_splits sum.splits prod.splits)
  then show ?thesis using NewCache_ok assms(1) by (metis system_ok_def)
qed

lemma Run_shadow:
  assumes "notify_ok n" "cache_ok (n_cache n)" "walks_end E" "Shadow (n_policy n)"
    "Run (traced_env E) sched is n (w, tr) = Some (r, n', (w', tr'))"
  shows "unlinks tr' = unlinks tr"
proof -
  obtain x n1 w1 tr1 where x: "run_start (traced_env E) sched n (w, tr) = Some (x, n1, (w1, tr1))" "same_manager n n1"
    "x = Inr () \<longrightarrow> loop_ok (traced_env E) n1"
    using run_start_ok [OF assms(1,2) walks_end_traced [OF assms(3)], of sched "(w, tr)"] by (metis prod.exhaust_sel)
  have tr1: "tr1 = tr" using run_start_log [OF x(1)] .
  show ?thesis
  proof (cases x)
    case (Inl e)
    then show ?thesis using assms(5) x(1) tr1 by (simp add: Run_def)
  next
    case (Inr u)
    let ?Q = "\<lambda>m. Shadow (n_policy m)"
    have l: "run_loop (traced_env E) is n1 (w1, tr1) = Some (r, n', (w', tr'))"
      using assms(5) x(1) Inr by (simp add: Run_def split: option.splits)
    have "loop_ok E n1" using x(3) Inr assms(3) by (simp add: loop_ok_def)
    moreover have "?Q n1" using x(2) assms(4) by (simp add: same_manager_def)
    ultimately have "unlinks tr' = unlinks tr1"
      using run_loop_unlinks [where Q = ?Q, OF _ _ _ _ l] by (simp add: same_manager_def)
    then show ?thesis using tr1 by simp
  qed
qed

lemma Run_removals:
  assumes "Run (traced_env E) sched is n (w, []) = Some (r, n', (w', tr'))" shows "removals tr' = temporaries tr'"
proof -
  obtain x n1 w1 tr1 where x: "run_start (traced_env E) sched n (w, []) = Some (x, n1, (w1, tr1))"
    using assms by (auto simp: Run_def split: option.splits)
  have "tr1 = []" using run_start_log [OF x] .
  then show ?thesis using assms x run_loop_removals [of E "is" n1 w1 "[]"]
    by (auto simp: Run_def split: sum.splits option.splits)
qed

text \<open>The daemon never panics.\<close>

lemma run_manager_ok:
  assumes "system_ok E" "run_manager E opts w = (Inr n, w1)"
  shows "notify_ok n" "cache_ok (n_cache n)" "Shadow (n_policy n) = shadow opts"
proof -
  obtain config where c: "evictionConfig opts = Inr config" "New E config w = (Inr n, w1)"
    using assms(2) by (auto simp: run_manager_def split: sum.splits)
  show "notify_ok n" "cache_ok (n_cache n)" "Shadow (n_policy n) = shadow opts"
    using New_ok [OF c(2)] New_cache_ok [OF assms(1) c(2)] evictionConfig_shadow [OF c(1)] by simp_all
qed

lemma run_manager_log: "run_manager (traced_env E) opts (w, tr) = (r, (w', tr')) \<Longrightarrow> tr' = tr"
  by (auto simp: run_manager_def split: sum.splits dest!: New_log)

lemma main_total:
  assumes "system_ok E" shows "\<exists>errs w'. main F E sched is st sd psd args w = Some (errs, w')"
proof -
  have "\<exists>r n' w2. Run E sched is n w1 = Some (r, n', w2)" if "run_manager E opts w = (Inr n, w1)" for opts n w1
    using Run_ends [of n E sched "is" w1] run_manager_ok [OF assms that] assms by (auto simp: system_ok_def)
  then show ?thesis by (fastforce simp: main_def run_def split: sum.split prod.split option.split)
qed

text \<open>A trace of the daemon is empty, or that of a \<open>Run\<close> of the manager of its options.\<close>

lemma main_trace:
  assumes "system_ok E" "main F (traced_env E) sched is st sd psd args (w, []) = Some (errs, (w', tr))"
  obtains "tr = []"
  | opts n w1 r n' where "parseOptions F args = Inr opts" "Run (traced_env E) sched is n (w1, []) = Some (r, n', (w', tr))"
      "notify_ok n" "cache_ok (n_cache n)" "Shadow (n_policy n) = shadow opts"
proof (cases "parseOptions F args")
  case (Inl e)
  then show ?thesis using assms(2) that(1) by (simp add: main_def)
next
  case (Inr opts)
  obtain x w1 tr1 where x: "run_manager (traced_env E) opts (w, []) = (x, (w1, tr1))" by (metis prod.exhaust_sel)
  have tr1: "tr1 = []" using run_manager_log [OF x] .
  show ?thesis
  proof (cases x)
    case (Inl e)
    then show ?thesis using assms(2) Inr x tr1 that(1) by (simp add: main_def run_def)
  next
    case n: (Inr n)
    obtain r n' where "Run (traced_env E) sched is n (w1, tr1) = Some (r, n', (w', tr))"
      using assms(2) Inr x n by (auto simp: main_def run_def split: option.splits)
    then show ?thesis using that(2) [OF Inr] tr1 run_manager_ok [OF system_ok_traced [OF assms(1)] x [unfolded n]] by blast
  qed
qed

section \<open>Properties\<close>

text \<open>C4: the daemon never panics, and shadow mode, which is the default, never deletes a cache entry. Whatever the command line says, whatever
  happens on the channels, and whatever the file system answers, \<open>main\<close> does not panic, and \<open>os.Remove\<close> is called exactly once for each temporary
  checkpoint file the daemon created and for no other file. If no argument is the \<open>shadow\<close> flag with a value that converts to false,
  \<open>unlinkat\<close> is never called.\<close>

theorem shadow_never_deletes:
  assumes "system_ok E"
  shows "\<exists>errs w' tr. main F (traced_env E) sched is st sd psd args (w, []) = Some (errs, (w', tr)) \<and>
    removals tr = temporaries tr \<and> ((\<forall>a \<in> set args. \<not> shadow_off a) \<longrightarrow> unlinks tr = [])"
proof -
  obtain errs w' tr where m: "main F (traced_env E) sched is st sd psd args (w, []) = Some (errs, (w', tr))"
    using main_total [OF system_ok_traced [OF assms]] by (metis prod.exhaust_sel)
  from assms m have "removals tr = temporaries tr \<and> ((\<forall>a \<in> set args. \<not> shadow_off a) \<longrightarrow> unlinks tr = [])"
  proof (cases rule: main_trace)
    case (2 opts n w1 r n')
    have "walks_end E" using assms by (simp add: system_ok_def)
    then have "shadow opts \<Longrightarrow> unlinks tr = unlinks []" using Run_shadow [OF 2(3,4) _ _ 2(2)] 2(5) by simp
    then show ?thesis using Run_removals [OF 2(2)] parseOptions_shadow [OF 2(1)] by (auto simp: unlinks_def)
  qed (simp add: unlinks_def)
  then show ?thesis using m by blast
qed

text \<open>The final checkpoint is not waited for. When the process is told to stop, \<open>run\<close> returns without an error in every state the
  event loop has reached by then, that is before the loop has seen the cancelled context and saved its checkpoint: the world
  is that of the inputs taken so far.\<close>

lemma run_returns_before_the_loop:
  assumes "system_ok E" "run_manager E opts w = (Inr n, w1)" "Run E sched is n w1 = Some (None, n', w2)"
  shows "run E sched is StopCtx None None opts w = Some (Some [], w2) \<and> CtxDone \<notin> snd ` set is"
proof -
  have "walks_end E" using assms(1) by (simp add: system_ok_def)
  from Run_ends [OF run_manager_ok(1,2) [OF assms(1,2)] this, of sched "is" w1] have "CtxDone \<notin> snd ` set is" using assms(3) by auto
  then show ?thesis using assms(2,3) by (simp add: run_def errors_Join_def)
qed

text \<open>The memory file system, with links resolved to clean paths.\<close>

definition daemon_env :: "memfs env" where
  "daemon_env = run_env\<lparr>e_sys := (e_sys run_env)
     \<lparr>sys_EvalSymlinks := (\<lambda>p m. (case look m p of Inl e \<Rightarrow> (Inl e, m) | Inr _ \<Rightarrow> (Inr (Clean p), m)))\<rparr>\<rparr>"

lemma daemon_env_ok: "system_ok daemon_env"
proof -
  have "IsAbs (Clean p) \<and> Clean (Clean p) = Clean p" if p: "IsAbs p" for p
    using Clean_abs [OF p] Clean_abs_path by (metis IsAbs_abs_path)
  then have "clean_links (e_sys daemon_env)" by (auto simp: clean_links_def daemon_env_def split: sum.splits)
  moreover have "walks_end daemon_env" using run_env_walks_end by (simp add: walks_end_def daemon_env_def)
  moreover have "\<forall>w wd w'. sys_getwd (e_sys daemon_env) w = (Inr wd, w') \<longrightarrow> IsAbs wd" 
    by (simp add: daemon_env_def run_env_def sample_env_def mem_sys_def)
  ultimately show ?thesis by (simp add: system_ok_def)
qed

theorem shadow_never_deletes_witness:
  "\<exists>errs w' tr. main sample_values (traced_env daemon_env) ([], []) [(([], []), CleanupTick), (([], []), CtxDone)] StopManager None None
     [''--cache-dir=/cache''] (bare_fs, []) = Some (errs, (w', tr)) \<and> unlinks tr = [] \<and> removals tr = temporaries tr"
proof -
  have "\<forall>a \<in> set [''--cache-dir=/cache'']. \<not> shadow_off a" by (simp add: shadow_off_def)
  then show ?thesis
    using shadow_never_deletes [OF daemon_env_ok, of sample_values "([], [])" "[(([], []), CleanupTick), (([], []), CtxDone)]" StopManager None None
        "[''--cache-dir=/cache'']" bare_fs] by blast
qed

text \<open>C32: the ready gauge and the readiness probe tell the truth. With collectors that behave as documented, and file sizes that are not negative,
  no report makes the metrics panic; while the loop runs, after any inputs, the ready gauge shows 1 and the manager
  is ready and the probe answers 200, and once \<open>Run\<close> has returned, for whatever reason, it shows 0, the manager is not ready and the
  probe answers 503.\<close>

theorem ready_gauge:
  assumes "notify_ok n" "cache_ok (n_cache n)" "walks_end E" "collectors_ok P val"
    "Run E sched is n w = Some (r, n', w')" "sizes_ok (n_observer n')"
  shows "\<exists>m. metrics_calls P (n_observer n') (newMetrics P) = Some m \<and>
    val (m_ready m) = (if r = None then Fin 1 else Fin 0) \<and> (n_ready n' \<longleftrightarrow> r = None) \<and>
    re_status (readyz n') = (if r = None then 200 else 503)"
proof -
  obtain m where m: "metrics_calls P (n_observer n') (newMetrics P) = Some m"
    using metrics_calls_total [OF assms(4,6)] by blast
  have "n_ready n' \<longleftrightarrow> r = None" using Run_ends [OF assms(1-3), of sched "is" w] assms(5) by auto
  moreover obtain g where "m_ready m = gauge_Set P (if r = None then Fin 1 else Fin 0) g"
    using metrics_reported [OF m Run_reported [OF assms(5,1,2,3)]] by blast
  ultimately show ?thesis using m assms(4) by (auto simp: collectors_ok_def readyz_def Ready_def)
qed

text \<open>Gauges that are their value and counters that are the list of their increments.\<close>

definition plain_prom :: "(float64, float64 list) prom" where
  "plain_prom = \<lparr>gauge_New = Fin 0, counter_New = [], gauge_Set = (\<lambda>v _. v),
     counter_Inc = (\<lambda>c. c @ [Fin 1]), counter_Add = (\<lambda>v c. if fle (Fin 0) v then Some (c @ [v]) else None)\<rparr>"

lemma plain_prom_ok: "collectors_ok plain_prom id"
  by (simp add: collectors_ok_def plain_prom_def)

lemma bare_run_eval:
  "case Run run_env ([], []) [(([], []), CleanupTick), (([], []), CtxDone)] (sample_notify False) bare_fs of
     Some (r, n', _) \<Rightarrow> r = Some (Inr ()) \<and> (\<forall>ob \<in> set (n_observer n'). case ob of RecordDeleted _ b \<Rightarrow> 0 \<le> b | _ \<Rightarrow> True)
   | None \<Rightarrow> False"
  by code_simp

theorem ready_gauge_witness:
  "\<exists>n' w' m. Run run_env ([], []) [(([], []), CleanupTick), (([], []), CtxDone)] (sample_notify False) bare_fs = Some (Some (Inr ()), n', w') \<and>
     metrics_calls plain_prom (n_observer n') (newMetrics plain_prom) = Some m \<and> m_ready m = Fin 0"
proof -
  obtain n' w' where r: "Run run_env ([], []) [(([], []), CleanupTick), (([], []), CtxDone)] (sample_notify False) bare_fs =
      Some (Some (Inr ()), n', w')"
    and s: "\<forall>ob \<in> set (n_observer n'). case ob of RecordDeleted _ b \<Rightarrow> 0 \<le> b | _ \<Rightarrow> True"
    using bare_run_eval by (auto split: option.splits)
  have "sizes_ok (n_observer n')" using s by (auto simp: sizes_ok_def dest!: bspec)
  from ready_gauge [OF sample_ok plain_prom_ok r this] show ?thesis using r by auto
qed

end
