(* ===== verification/Watch_Coverage.thy ===== *)
theory Watch_Coverage
  imports Notify_Run
begin

text \<open>
  What a rebuild of the watches achieves: a new inotify instance on which every directory of the cache is watched that was there
  while the watches were placed. Directories that come and go during the walk are covered by the events of their parents, which the drain of
  \<open>reconcile\<close> handles; here only what every listing shows is claimed.
\<close>

section \<open>Directories that are there\<close>

text \<open>The directory \<open>ds\<close> below the root, in one of the stores or the root itself, is there whenever the system is asked: the root is
  a directory, and the listing of each directory on the way shows the next one.\<close>

definition steady_dir :: "'w sys \<Rightarrow> Cache \<Rightarrow> string list \<Rightarrow> bool" where
  "steady_dir S c ds \<longleftrightarrow> (\<forall>p \<in> set ds. plain p) \<and> (ds = [] \<or> hd ds = ''ac'' \<or> hd ds = ''cas'') \<and>
     (\<forall>w st w'. sys_lstat S (diskRoot c) w = (Inr st, w') \<longrightarrow> IsDir st) \<and>
     (\<forall>as q bs w dirs err w'. ds = as @ q # bs \<longrightarrow> sys_ReadDir S (abs_path (root_elements c @ as)) w = ((dirs, err), w') \<longrightarrow>
        (\<exists>x \<in> set dirs. de_name x = q \<and> de_IsDir x))"

definition covers :: "'w sys \<Rightarrow> Cache \<Rightarrow> Watcher \<Rightarrow> bool" where
  "covers S c wt \<longleftrightarrow> (\<forall>ds. steady_dir S c ds \<longrightarrow> abs_path (root_elements c @ ds) \<in> dom (wt_watches wt))"

text \<open>\<open>wt'\<close> is \<open>wt\<close> with perhaps more watches: the same instance, still open, and no descriptor of a path has changed.\<close>

definition extends :: "Watcher \<Rightarrow> Watcher \<Rightarrow> bool" where
  "extends wt wt' \<longleftrightarrow> wt_fd wt' = wt_fd wt \<and> wt_isClosed wt' = wt_isClosed wt \<and> wd_of wt \<subseteq>\<^sub>m wd_of wt'"

lemma extends_refl [simp]: "extends wt wt"
  by (simp add: extends_def)

lemma extends_trans: "extends a b \<Longrightarrow> extends b c \<Longrightarrow> extends a c"
  by (auto simp: extends_def intro: map_le_trans)

lemma dom_wd_of [simp]: "dom (wd_of wt) = dom (wt_watches wt)"
  by (auto simp: wd_of_def)

lemma extends_dom: "extends wt wt' \<Longrightarrow> dom (wt_watches wt) \<subseteq> dom (wt_watches wt')"
  using map_le_implies_dom_le [of "wd_of wt" "wd_of wt'"] by (simp add: extends_def)

lemma AddWatch_extends:
  assumes "AddWatch I wt path flags w = ((r, wt'), w')" shows "extends wt wt'"
proof (cases "wt_watches wt path")
  case None
  then show ?thesis using assms
    by (auto simp: AddWatch_def extends_def map_le_def wd_of_def split: if_splits sum.splits prod.splits)
next
  case (Some a)
  have "wt_fd wt' = wt_fd wt \<and> wt_isClosed wt' = wt_isClosed wt"
    using assms Some by (auto simp: AddWatch_def Let_def split: if_splits sum.splits prod.splits)
  then show ?thesis using AddWatch_again(1) [OF Some assms] by (simp add: extends_def)
qed

lemma watch_fn_extends: "keeps (\<lambda>s. extends wt (snd s)) (watch_fn E n path d err)"
proof (rule keepsI)
  fix s :: "'a \<times> Watcher" assume s: "extends wt (snd s)"
  obtain r wt' w' where a: "AddWatch (e_ino E) (snd s) path watchMask (fst s) = ((r, wt'), w')" by (metis prod.exhaust_sel)
  then have "snd (watch_fn E n path d err s) = s \<or> snd (watch_fn E n path d err s) = (w', wt')"
    by (auto simp: watch_fn_def split: option.split sum.split)
  then show "extends wt (snd (snd (watch_fn E n path d err s)))" using s extends_trans [OF s AddWatch_extends [OF a]] by auto
qed

lemma watch_fn_watched: "keeps (\<lambda>s. p \<in> dom (wt_watches (snd s))) (watch_fn E n path d err)"
proof (rule keepsI)
  fix s :: "'a \<times> Watcher" assume "p \<in> dom (wt_watches (snd s))"
  moreover have "extends (snd s) (snd (snd (watch_fn E n path d err s)))"
    using watch_fn_extends [of "snd s" E n path d err] extends_refl unfolding keeps_def by blast
  ultimately show "p \<in> dom (wt_watches (snd (snd (watch_fn E n path d err s))))" using extends_dom by blast
qed

lemma addDirectoryWatches_extends:
  assumes "addDirectoryWatches E n wt start w = Some (r, wt', w')" shows "extends wt wt'"
proof (cases "watchPathAllowed n start")
  case True
  let ?W = "WalkDir (e_depth E) (\<lambda>p. on_fst (sys_lstat (e_sys E) p)) (\<lambda>p. on_fst (sys_ReadDir (e_sys E) p)) (watch_fn E n) start"
  obtain x where x: "?W (w, wt) = Some (x, (w', wt'))" using assms True by (auto simp: addDirectoryWatches_def split: option.splits)
  have "keeps_opt (\<lambda>s. extends wt (snd s)) ?W" by (rule WalkDir_keeps) (rule watch_fn_extends on_fst_keeps)+
  from keeps_optD [OF this _ x] show ?thesis by simp
qed (use assms in \<open>simp add: addDirectoryWatches_def\<close>)

section \<open>A walk from the root covers the cache\<close>

lemma watch_fn_dir:
  assumes "watched_relative (n_cache n) path" "de_IsDir d"
  shows "watch_fn E n path (Some d) None s =
    (case AddWatch (e_ino E) (snd s) path watchMask (fst s) of
       ((Inl e, wt'), w') \<Rightarrow> (WalkErr e, (w', wt')) | ((Inr _, wt'), w') \<Rightarrow> (WalkOk, (w', wt')))"
proof -
  have "\<not> de_IsSymlink d" using assms(2) by (simp add: de_IsDir_def de_IsSymlink_def)
  then show ?thesis using assms
    by (auto simp: watch_fn_def watched_relative_def DiskRoot_def split: option.splits)
qed

lemma watch_fn_below:
  assumes "cache_ok (n_cache n)" "\<forall>p \<in> set ds. plain p" "ds \<noteq> []" "\<not> de_IsDir d"
  shows "fst (watch_fn E n (abs_path (root_elements (n_cache n) @ ds)) (Some d) None s) \<noteq> SkipDir"
proof -
  have "diskRoot (n_cache n) = abs_path (root_elements (n_cache n))" "\<forall>p \<in> set (root_elements (n_cache n)). plain p"
    using assms(1) by (auto simp: cache_ok_def)
  then have "Rel (DiskRoot (n_cache n)) (abs_path (root_elements (n_cache n) @ ds)) = Some (join_slash ds)"
    using Rel_below assms(2,3) by (simp add: DiskRoot_def)
  then show ?thesis using plain_stays [OF assms(3,2)] assms(4) by (simp add: watch_fn_def)
qed

lemma walk_covers:
  assumes "cache_ok (n_cache n)" "bounded_reads (sys_ReadDir (e_sys E))" "steady_dir (e_sys E) (n_cache n) ds"
  defines "rd \<equiv> \<lambda>p. on_fst (sys_ReadDir (e_sys E) p)" and "base \<equiv> root_elements (n_cache n)"
  shows "ds = as @ qs \<Longrightarrow> walkDir m rd (watch_fn E n) (abs_path (base @ as)) d s = Some (WalkOk, s') \<Longrightarrow> de_IsDir d \<Longrightarrow>
    abs_path (base @ ds) \<in> dom (wt_watches (snd s'))"
proof (induction qs arbitrary: as m d s s')
  have plain: "\<forall>p \<in> set (base @ ds). plain p" using assms(1,3) by (auto simp: steady_dir_def cache_ok_def base_def)
  have area: "watched_relative (n_cache n) (abs_path (base @ as))" if "ds = as @ qs" for as qs
  proof -
    have "cache_area (n_cache n) (abs_path (base @ as))" unfolding cache_area_def base_def [symmetric]
    proof (intro exI conjI)
      show "Clean (abs_path (base @ as)) = abs_path (base @ as)" using plain that by (intro Clean_abs_path) auto
      show "as = [] \<or> hd as = ''ac'' \<or> hd as = ''cas''" using assms(3) that by (cases as) (auto simp: steady_dir_def)
    qed (use plain that in auto)
    then show ?thesis using watched_relative_iff [OF assms(1)] by simp
  qed
  have keep: "keeps (\<lambda>s. p \<in> dom (wt_watches (snd s))) (rd q)" for p q unfolding rd_def by (rule on_fst_keeps)
  { case Nil
    show ?case
    proof (rule walkDir_calls [where P = "\<lambda>s. abs_path (base @ ds) \<in> dom (wt_watches (snd s))", OF watch_fn_watched keep _ _ Nil(2)])
      note fn = watch_fn_dir [OF area [OF Nil(1)] Nil(3)]
      show "fst (watch_fn E n (abs_path (base @ as)) (Some d) None t) \<noteq> SkipDir" for t
        by (simp add: fn split: prod.split sum.split)
      show "abs_path (base @ ds) \<in> dom (wt_watches (snd t'))"
        if "watch_fn E n (abs_path (base @ as)) (Some d) None t = (WalkOk, t')" for t t'
        using that Nil(1) by (auto simp: fn split: prod.splits sum.splits dest!: AddWatch_dom)
    qed }
  case (Cons q qs)
  have pl: "\<forall>p \<in> set (base @ as). plain p" "plain q" using plain Cons.prems(1) by auto
  have join: "filepath_Join (abs_path (base @ as)) x = abs_path (base @ as @ [x])" if "plain x" for x
    using filepath_Join_plain(1) [OF pl(1) that] by simp
  have rd: "\<exists>w w'. sys_ReadDir (e_sys E) p w = ((dirs, err), w')" if "rd p t = ((dirs, err), t')" for p t dirs err t'
    using that by (auto simp: rd_def on_fst_def split: prod.splits)
  show ?case
  proof (rule walkDir_reaches [where P = "\<lambda>s. abs_path (base @ ds) \<in> dom (wt_watches (snd s))" and Q = "\<lambda>x. de_name x = q \<and> de_IsDir x",
        OF watch_fn_watched keep _ _ _ _ Cons.prems(2,3)])
    note fn = watch_fn_dir [OF area [OF Cons.prems(1)] Cons.prems(3)]
    show "fst (watch_fn E n (abs_path (base @ as)) (Some d) e t) \<noteq> SkipDir" for e t
      by (cases e) (simp_all add: fn watch_fn_def [of E n _ _ "Some _"] split: prod.split sum.split)
    show "\<exists>x \<in> set dirs. de_name x = q \<and> de_IsDir x" if "rd (abs_path (base @ as)) t = ((dirs, err), t')" for t dirs err t'
      using rd [OF that] assms(3) Cons.prems(1) unfolding steady_dir_def base_def by blast
    show "fst (watch_fn E n (filepath_Join (abs_path (base @ as)) (de_name x)) (Some x) None u) \<noteq> SkipDir"
      if "rd (abs_path (base @ as)) t = ((dirs, err), t')" "x \<in> set dirs" "\<not> de_IsDir x" for t dirs err t' x u
    proof -
      have "plain (de_name x)" using rd [OF that(1)] that(2) assms(2) unfolding bounded_reads_def by blast
      then show ?thesis using watch_fn_below [OF assms(1), of "as @ [de_name x]" x] pl that(3) join by (simp add: base_def)
    qed
    show "abs_path (base @ ds) \<in> dom (wt_watches (snd t'))" if "de_name x = q \<and> de_IsDir x"
      "walkDir k rd (watch_fn E n) (filepath_Join (abs_path (base @ as)) (de_name x)) x t = Some (WalkOk, t')" for k x t t'
      using Cons.IH [of "as @ [q]" k x t t'] Cons.prems(1) that join [OF pl(2)] by simp
  qed
qed

lemma addDirectoryWatches_covers:
  assumes "cache_ok (n_cache n)" "walks_end E" "addDirectoryWatches E n wt (DiskRoot (n_cache n)) w = Some (Inr (), wt', w')"
  shows "covers (e_sys E) (n_cache n) wt'"
  unfolding covers_def
proof (intro allI impI)
  fix ds assume ds: "steady_dir (e_sys E) (n_cache n) ds"
  let ?rd = "\<lambda>p. on_fst (sys_ReadDir (e_sys E) p)" and ?r = "diskRoot (n_cache n)"
  have r: "?r = abs_path (root_elements (n_cache n) @ [])" using assms(1) by (simp add: cache_ok_def)
  have "cache_area (n_cache n) ?r" unfolding cache_area_def using assms(1) Clean_abs_path [of "root_elements (n_cache n)"]
    by (intro exI [of _ "[]"]) (auto simp: cache_ok_def)
  then have "watchPathAllowed n (DiskRoot (n_cache n))" using watchPathAllowed_area [OF assms(1)] by (simp add: DiskRoot_def)
  then obtain x where x: "WalkDir (e_depth E) (\<lambda>p. on_fst (sys_lstat (e_sys E) p)) ?rd (watch_fn E n) ?r (w, wt) = Some (x, (w', wt'))"
    "walk_error x = Inr ()" using assms(3) by (auto simp: addDirectoryWatches_def DiskRoot_def split: option.splits)
  obtain st w1 where st: "sys_lstat (e_sys E) ?r w = (Inr st, w1)"
  proof (cases "sys_lstat (e_sys E) ?r w")
    case (Pair a w1)
    then show thesis using x that by (cases a) (auto simp: WalkDir_def on_fst_def watch_fn_def walk_error_def)
  qed
  then have dir: "IsDir st" using ds unfolding steady_dir_def by blast
  let ?d = "\<lparr>de_name = ?r, de_type = file_type st\<rparr>"
  have d: "de_IsDir ?d" using dir by (simp add: de_IsDir_def IsDir_def)
  obtain y where y: "walkDir (e_depth E) ?rd (watch_fn E n) ?r ?d (w1, wt) = Some (y, (w', wt'))" "y = WalkOk \<or> y = SkipDir"
    using x st by (auto simp: WalkDir_def on_fst_def walk_error_def split: option.splits if_splits walk_result.splits)
  then have "y = WalkOk" using walkDir_skip [of "e_depth E" ?rd "watch_fn E n" ?r ?d "(w1, wt)"] d by auto
  then show "abs_path (root_elements (n_cache n) @ ds) \<in> dom (wt_watches wt')"
    using walk_covers [OF assms(1) _ ds, of "[]" ds "e_depth E" ?d "(w1, wt)" "(w', wt')"] assms(2) y(1) d r by (simp add: walks_end_def)
qed

section \<open>A rebuild\<close>

lemma drain_extends:
  "drainReconciliationEvents E n ms r wt w = Some (r', wt', w') \<Longrightarrow> extends wt wt'"
proof (induction ms arbitrary: r wt w)
  case (Cons m ms)
  have h: "extends wt wt1" if "handleReconciliationEvent E n wt event w = Some (x, wt1, w1)" for event x wt1 w1
    using that by (auto simp: handleReconciliationEvent_def split: option.splits if_splits dest: addDirectoryWatches_extends)
  show ?case using Cons.prems Cons.IH extends_trans [OF h]
    by (auto split: sum.splits chan.splits option.splits)
qed simp

lemma scan_draining_extends:
  "scanEntriesWhileDraining E sched n wt w = Some (r, wt', w') \<Longrightarrow> extends wt wt'"
  by (auto simp: scanEntriesWhileDraining_def split: option.splits dest!: drain_extends) (blast intro: extends_trans)

lemma addDirectoryWatches_cong: "n_cache n = n_cache n' \<Longrightarrow> addDirectoryWatches E n = addDirectoryWatches E n'"
proof -
  assume c: "n_cache n = n_cache n'"
  have "watch_fn E n = watch_fn E n'" by (intro ext) (simp only: watch_fn_def c)
  moreover have "watchPathAllowed n = watchPathAllowed n'" by (intro ext) (simp add: watchPathAllowed_def c)
  ultimately show ?thesis by (intro ext) (simp add: addDirectoryWatches_def)
qed

text \<open>The manager has a new watcher: the one \<open>NewWatcher\<close> opens in the world \<open>v\<close>, with the watches that the walk from the root then placed and
  perhaps those of directories that appeared meanwhile. It covers the cache.\<close>

definition rebuilt :: "'w env \<Rightarrow> Notify \<Rightarrow> 'w \<Rightarrow> Notify \<Rightarrow> bool" where
  "rebuilt E n v n' \<longleftrightarrow> (\<exists>wt wt0 v1 wt1 v2. NewWatcher (e_ino E) v = (Inr wt0, v1) \<and>
     addDirectoryWatches E n wt0 (DiskRoot (n_cache n)) v1 = Some (Inr (), wt1, v2) \<and>
     n_watcher n' = Some wt \<and> extends wt1 wt \<and> \<not> wt_isClosed wt \<and> covers (e_sys E) (n_cache n) wt)"

lemma reconcile_rebuilt:
  assumes "cache_ok (n_cache n)" "walks_end E" "reconcile E sched b n w = Some (Inr (), n', w')"
  shows "rebuilt E n w n' \<and> (b \<longrightarrow> (\<exists>v t. e_now E v = (t, w') \<and> n_warmUntil n' = t + WarmupDuration (n_policy n)))"
proof -
  let ?n = "close_watcher (set_ready False n)"
  have same: "addDirectoryWatches E ?n = addDirectoryWatches E n" by (rule addDirectoryWatches_cong) simp
  obtain wt0 v1 where 0: "NewWatcher (e_ino E) w = (Inr wt0, v1)"
    using assms(3) by (auto simp: reconcile_def Let_def split: prod.splits sum.splits)
  obtain wt1 v2 where 1: "addDirectoryWatches E n wt0 (DiskRoot (n_cache n)) v1 = Some (Inr (), wt1, v2)"
    using assms(3) 0 by (auto simp: reconcile_def Let_def same split: option.splits sum.splits)
  obtain ents wt v3 where 2: "scanEntriesWhileDraining E sched ?n wt1 v2 = Some (Inr ents, wt, v3)"
    using assms(3) 0 1 by (auto simp: reconcile_def Let_def same split: option.splits sum.splits)
  have ext: "extends wt1 wt" by (rule scan_draining_extends [OF 2])
  have "\<not> wt_isClosed wt"
    using 0 ext addDirectoryWatches_extends [OF 1] by (auto simp: NewWatcher_def extends_def split: prod.splits sum.splits)
  moreover have "covers (e_sys E) (n_cache n) wt"
    using addDirectoryWatches_covers [OF assms(1,2) 1] extends_dom [OF ext] unfolding covers_def by blast
  moreover have "n_watcher n' = Some wt \<and> (b \<longrightarrow> (\<exists>v t. e_now E v = (t, w') \<and> n_warmUntil n' = t + WarmupDuration (n_policy n)))"
    using assms(3) 0 1 2 by (auto simp: reconcile_def Let_def same split: if_splits prod.splits)
  ultimately show ?thesis using 0 1 ext unfolding rebuilt_def by blast
qed

end
