(* ===== verification/Inotify_Reader.thy ===== *)
theory Inotify_Reader
  imports Inotify State_Machine
begin

unbundle bit_operations_syntax

text \<open>
  The reader goroutine of \<open>src/eviction/internal/inotify/inotify_linux.go\<close> and its two channels, as a state
  machine. A turn of the reader goes up to its next system call, receive or send: one round of \<open>waitReadable\<close>, one \<open>read\<close>,
  or one event of the buffer. The watcher is an argument of the turn, because the event loop may
  add watches or close it between two turns. The answers of the system calls, and which case a
  \<open>select\<close> takes when two are ready, are arguments too. A turn that blocks leaves the state as it is.

  The properties: what the kernel encoded is what reaches the channels; the channels stay bounded, nothing
  panics, and an overflow report is only dropped when the error channel is full; and a closed watcher
  always lets the reader finish.
\<close>

section \<open>Channels\<close>

text \<open>The reader is waiting for input, about to read, has bytes of the buffer left, or is blocked in a send; \<open>Finished\<close>
  is reached by \<open>return\<close>, whose deferred calls close the descriptor and both channels.\<close>

datatype phase = Polling | Reading | Decoding "byte list" | Sending Event "byte list" | Finished

record Reader =
  rd_phase :: phase
  rd_Event :: "Event list"
  rd_Error :: "watcher_error list"

definition watcherEventBufferSize :: nat where
  "watcherEventBufferSize = 4096"

definition new_reader :: Reader where
  "new_reader = \<lparr>rd_phase = Polling, rd_Event = [], rd_Error = []\<rparr>"

definition reportError :: "watcher_error \<Rightarrow> Reader \<Rightarrow> Reader" where
  "reportError err r =
     (if length (rd_Error r) < watcherEventBufferSize then r\<lparr>rd_Error := rd_Error r @ [err]\<rparr> else r)"

text \<open>\<open>select\<close> between the send and \<open>done\<close>: with room in the channel and \<open>done\<close> closed, either may be taken.\<close>

datatype sent = Sent Reader | Stopped | Blocked

definition sendEvent :: "bool \<Rightarrow> bool \<Rightarrow> Event \<Rightarrow> Reader \<Rightarrow> sent" where
  "sendEvent isDone pickDone event r =
     (if length (rd_Event r) < watcherEventBufferSize \<and> \<not> (isDone \<and> pickDone)
      then Sent (r\<lparr>rd_Event := rd_Event r @ [event]\<rparr>)
      else if isDone then Stopped else Blocked)"

text \<open>A receive: nothing when it blocks, \<open>None\<close> when the channel is closed and empty.\<close>

definition recv_Event :: "Reader \<Rightarrow> (Event option \<times> Reader) option" where
  "recv_Event r =
     (case rd_Event r of
        e # es \<Rightarrow> Some (Some e, r\<lparr>rd_Event := es\<rparr>)
      | [] \<Rightarrow> if rd_phase r = Finished then Some (None, r) else None)"

definition recv_Error :: "Reader \<Rightarrow> (watcher_error option \<times> Reader) option" where
  "recv_Error r =
     (case rd_Error r of
        e # es \<Rightarrow> Some (Some e, r\<lparr>rd_Error := es\<rparr>)
      | [] \<Rightarrow> if rd_phase r = Finished then Some (None, r) else None)"

section \<open>The reader\<close>

text \<open>The answer of \<open>poll\<close>: an error, or whether \<open>POLLIN\<close> and whether one of the three error bits is set.\<close>

datatype poll = PollError errno | Revents bool bool

abbreviation EINTR :: errno where "EINTR \<equiv> Eother 4"

definition waitReadable :: "bool \<Rightarrow> poll \<Rightarrow> Reader \<Rightarrow> Reader" where
  "waitReadable isDone p r =
     (if isDone then r\<lparr>rd_phase := Finished\<rparr>
      else case p of
        PollError e \<Rightarrow>
          if e = EINTR then r else (reportError (WatcherErr (Errno e)) r)\<lparr>rd_phase := Finished\<rparr>
      | Revents pollin bad \<Rightarrow>
          if pollin then r\<lparr>rd_phase := Reading\<rparr> else if bad then r\<lparr>rd_phase := Finished\<rparr> else r)"

definition read_turn :: "bool \<Rightarrow> errno + byte list \<Rightarrow> Reader \<Rightarrow> Reader" where
  "read_turn isDone ans r =
     (if isDone then r\<lparr>rd_phase := Finished\<rparr>
      else case ans of
        Inl e \<Rightarrow>
          if e = EAGAIN \<or> e = EINTR then r\<lparr>rd_phase := Polling\<rparr>
          else (reportError (WatcherErr (Errno e)) r)\<lparr>rd_phase := Polling\<rparr>
      | Inr bs \<Rightarrow>
          if bs = [] then r\<lparr>rd_phase := Finished\<rparr>
          else if length bs < SizeofInotifyEvent
          then (reportError (WatcherErr (ErrMsg ''inotify: short read in readEvents()'')) r)\<lparr>rd_phase := Polling\<rparr>
          else r\<lparr>rd_phase := Decoding bs\<rparr>)"

text \<open>One round of the loop over the buffer; at its end the reader goes back to waiting.\<close>

definition send_turn :: "bool \<Rightarrow> bool \<Rightarrow> Event \<Rightarrow> byte list \<Rightarrow> Reader \<Rightarrow> Reader" where
  "send_turn isDone pickDone event rest r =
     (case sendEvent isDone pickDone event r of
        Sent r' \<Rightarrow> r'\<lparr>rd_phase := Decoding rest\<rparr>
      | Stopped \<Rightarrow> r\<lparr>rd_phase := Finished\<rparr>
      | Blocked \<Rightarrow> r\<lparr>rd_phase := Sending event rest\<rparr>)"

definition decode_turn :: "Watcher \<Rightarrow> bool \<Rightarrow> byte list \<Rightarrow> Reader \<Rightarrow> Reader option" where
  "decode_turn wt pickDone bs r =
     (if length bs < SizeofInotifyEvent then Some (r\<lparr>rd_phase := Polling\<rparr>)
      else let rest = drop (event_len bs) bs
           in case read_event (wt_paths wt) bs of
                None \<Rightarrow> None
              | Some Overflow \<Rightarrow> Some ((reportError ErrEventOverflow r)\<lparr>rd_phase := Decoding rest\<rparr>)
              | Some Unknown \<Rightarrow> Some (r\<lparr>rd_phase := Decoding rest\<rparr>)
              | Some (Known event) \<Rightarrow> Some (send_turn (wt_isClosed wt) pickDone event rest r))"

record answers =
  an_poll :: poll
  an_read :: "errno + byte list"
  an_pickDone :: bool

definition readEvents_turn :: "Watcher \<Rightarrow> answers \<Rightarrow> Reader \<Rightarrow> Reader option" where
  "readEvents_turn wt a r =
     (case rd_phase r of
        Polling \<Rightarrow> Some (waitReadable (wt_isClosed wt) (an_poll a) r)
      | Reading \<Rightarrow> Some (read_turn (wt_isClosed wt) (an_read a) r)
      | Decoding bs \<Rightarrow> decode_turn wt (an_pickDone a) bs r
      | Sending event rest \<Rightarrow> Some (send_turn (wt_isClosed wt) (an_pickDone a) event rest r)
      | Finished \<Rightarrow> Some r)"

primrec readEvents :: "Watcher \<Rightarrow> answers list \<Rightarrow> Reader \<Rightarrow> Reader option" where
  "readEvents wt [] r = Some r"
| "readEvents wt (a # as) r =
     (case readEvents_turn wt a r of None \<Rightarrow> None | Some r' \<Rightarrow> readEvents wt as r')"

section \<open>The buffer\<close>

definition encoded :: "byte list \<Rightarrow> bool" where
  "encoded bs \<longleftrightarrow> (\<exists>ks. (\<forall>k \<in> set ks. kernel_event_ok k) \<and> bs = concat (map encode_event ks))"

lemma length_encode: "SizeofInotifyEvent \<le> length (encode_event k)"
  by (simp add: encode_event_def)

lemma drop_event:
  assumes "kernel_event_ok k"
  shows "drop (event_len (encode_event k @ bs)) (encode_event k @ bs) = bs"
  by (simp add: read_event_encode(2) [OF assms])

lemma encoded_cases:
  assumes "encoded bs"
  obtains "bs = []" | k ks where "kernel_event_ok k" "\<forall>k \<in> set ks. kernel_event_ok k"
    "bs = encode_event k @ concat (map encode_event ks)"
proof -
  from assms obtain ks where "\<forall>k \<in> set ks. kernel_event_ok k" "bs = concat (map encode_event ks)"
    by (auto simp: encoded_def)
  then show thesis using that by (cases ks) auto
qed

lemma reportError_simps [simp]:
  "rd_phase (reportError e r) = rd_phase r" "rd_Event (reportError e r) = rd_Event r"
  "length (rd_Error (reportError e r)) \<le> watcherEventBufferSize \<longleftrightarrow> length (rd_Error r) \<le> watcherEventBufferSize"
  by (auto simp: reportError_def)

lemma decode_turn_event:
  assumes "kernel_event_ok k"
  shows "decode_turn wt pd (encode_event k @ bs) r =
    (case delivered (wt_paths wt) k of
       Overflow \<Rightarrow> Some ((reportError ErrEventOverflow r)\<lparr>rd_phase := Decoding bs\<rparr>)
     | Unknown \<Rightarrow> Some (r\<lparr>rd_phase := Decoding bs\<rparr>)
     | Known event \<Rightarrow> Some (send_turn (wt_isClosed wt) pd event bs r))"
  using length_encode [of k] by (simp add: decode_turn_def Let_def read_event_encode(1) [OF assms] drop_event [OF assms] not_less del: drop_append)

lemma decode_turn_end [simp]: "decode_turn wt pd [] r = Some (r\<lparr>rd_phase := Polling\<rparr>)"
  by (simp add: decode_turn_def)

text \<open>What the events of a buffer add to the two channels.\<close>

definition known :: "(int \<rightharpoonup> string) \<Rightarrow> kernel_event list \<Rightarrow> Event list" where
  "known paths ks = concat (map (\<lambda>k. case delivered paths k of Known e \<Rightarrow> [e] | _ \<Rightarrow> []) ks)"

definition overflows :: "kernel_event list \<Rightarrow> nat" where
  "overflows ks = length (filter (\<lambda>k. ke_mask k AND InQOverflow \<noteq> 0) ks)"

lemma delivered_overflow: "delivered paths k = Overflow \<longleftrightarrow> ke_mask k AND InQOverflow \<noteq> 0"
  by (simp add: delivered_def split: option.split)

lemma known_Cons [simp]:
  "known paths (k # ks) = (case delivered paths k of Known e \<Rightarrow> [e] | _ \<Rightarrow> []) @ known paths ks"
  by (simp add: known_def)

lemma overflows_Cons [simp]:
  "overflows (k # ks) = (if ke_mask k AND InQOverflow \<noteq> 0 then 1 else 0) + overflows ks"
  by (simp add: overflows_def)

lemma readEvents_decode:
  assumes "\<forall>k \<in> set ks. kernel_event_ok k" "\<not> wt_isClosed wt" "length as = Suc (length ks)"
    "rd_phase r = Decoding (concat (map encode_event ks))"
    "length (rd_Event r) + length (known (wt_paths wt) ks) \<le> watcherEventBufferSize"
    "length (rd_Error r) + overflows ks \<le> watcherEventBufferSize"
  shows "readEvents wt as r = Some \<lparr>rd_phase = Polling, rd_Event = rd_Event r @ known (wt_paths wt) ks,
     rd_Error = rd_Error r @ replicate (overflows ks) ErrEventOverflow\<rparr>"
  using assms
proof (induction ks arbitrary: r as)
  case Nil
  then obtain a where "as = [a]" by (auto simp: length_Suc_conv)
  then show ?case using Nil.prems(4) by (simp add: readEvents_turn_def known_def overflows_def)
next
  case (Cons k ks)
  obtain a as' where as': "as = a # as'" "length as' = Suc (length ks)" using Cons.prems(3) by (auto simp: length_Suc_conv)
  let ?out = "delivered (wt_paths wt) k"
  let ?r = "\<lparr>rd_phase = Decoding (concat (map encode_event ks)),
    rd_Event = rd_Event r @ (case ?out of Known e \<Rightarrow> [e] | _ \<Rightarrow> []),
    rd_Error = rd_Error r @ (if ?out = Overflow then [ErrEventOverflow] else [])\<rparr>"
  have t: "readEvents_turn wt a r = Some ?r"
    using Cons.prems decode_turn_event [of k wt "an_pickDone a" "concat (map encode_event ks)" r]
    by (cases ?out) (auto simp: readEvents_turn_def reportError_def send_turn_def sendEvent_def delivered_overflow [of "wt_paths wt" k, symmetric])
  have "readEvents wt as' ?r = Some \<lparr>rd_phase = Polling, rd_Event = rd_Event ?r @ known (wt_paths wt) ks,
     rd_Error = rd_Error ?r @ replicate (overflows ks) ErrEventOverflow\<rparr>"
    by (rule Cons.IH) (use Cons.prems as'(2) in \<open>auto simp: delivered_overflow split: if_splits\<close>)
  then show ?case using t as'(1) by (auto simp: delivered_overflow replicate_app_Cons_same split: decoded.split)
qed

section \<open>The machine\<close>

text \<open>What can happen to the reader: a turn of its own, or the event loop receiving from a channel. A blocked receive
  changes nothing.\<close>

datatype move = Turn Watcher answers | RecvEvent | RecvError

definition reader_move :: "move \<Rightarrow> Reader \<Rightarrow> (unit \<times> Reader) option" where
  "reader_move mv r =
     (case mv of
        Turn wt a \<Rightarrow> map_option (Pair ()) (readEvents_turn wt a r)
      | RecvEvent \<Rightarrow> Some ((), case recv_Event r of None \<Rightarrow> r | Some (_, r') \<Rightarrow> r')
      | RecvError \<Rightarrow> Some ((), case recv_Error r of None \<Rightarrow> r | Some (_, r') \<Rightarrow> r'))"

text \<open>\<open>read\<close> answers with whole events.\<close>

definition kernel_answers :: "move \<Rightarrow> bool" where
  "kernel_answers mv \<longleftrightarrow> (case mv of Turn wt a \<Rightarrow> (\<forall>bs. an_read a = Inr bs \<longrightarrow> encoded bs) | _ \<Rightarrow> True)"

definition reader_ok :: "Reader \<Rightarrow> bool" where
  "reader_ok r \<longleftrightarrow> length (rd_Event r) \<le> watcherEventBufferSize \<and> length (rd_Error r) \<le> watcherEventBufferSize \<and>
     (case rd_phase r of Decoding bs \<Rightarrow> encoded bs | Sending _ bs \<Rightarrow> encoded bs | _ \<Rightarrow> True)"

text \<open>Rounds a reader of a closed watcher has left at most.\<close>

definition rounds_left :: "Reader \<Rightarrow> nat" where
  "rounds_left r =
     (case rd_phase r of Finished \<Rightarrow> 0 | Decoding bs \<Rightarrow> length bs div SizeofInotifyEvent + 2
      | Sending _ bs \<Rightarrow> length bs div SizeofInotifyEvent + 3 | _ \<Rightarrow> 1)"

lemma div_append: "SizeofInotifyEvent \<le> length (xs :: byte list) \<Longrightarrow>
    length ys div SizeofInotifyEvent < length (xs @ ys) div SizeofInotifyEvent"
proof -
  assume "SizeofInotifyEvent \<le> length xs"
  then have "SizeofInotifyEvent * (length ys div SizeofInotifyEvent + 1) \<le> length (xs @ ys)" by simp
  then have "length ys div SizeofInotifyEvent + 1 \<le> length (xs @ ys) div SizeofInotifyEvent"
    by (metis div_le_mono nonzero_mult_div_cancel_left zero_neq_numeral)
  then show ?thesis by simp
qed

lemma turn_ok:
  assumes "reader_ok r" "\<forall>bs. an_read a = Inr bs \<longrightarrow> encoded bs"
  shows "\<exists>r'. readEvents_turn wt a r = Some r' \<and> reader_ok r' \<and>
    (wt_isClosed wt \<longrightarrow> rounds_left r' < rounds_left r \<or> rd_phase r' = Finished)"
proof (cases "rd_phase r")
  case Polling
  then show ?thesis using assms(1)
    by (auto simp: readEvents_turn_def waitReadable_def reader_ok_def rounds_left_def split: poll.split)
next
  case Reading
  then show ?thesis using assms
    by (auto simp: readEvents_turn_def read_turn_def reader_ok_def rounds_left_def split: sum.split)
next
  case (Decoding bs)
  then have "encoded bs" using assms(1) by (simp add: reader_ok_def)
  then show ?thesis
  proof (cases rule: encoded_cases)
    case 1
    then show ?thesis using Decoding assms(1) by (simp add: readEvents_turn_def reader_ok_def rounds_left_def)
  next
    case (2 k ks)
    have "encoded (concat (map encode_event ks))" using 2(2) by (auto simp: encoded_def)
    then show ?thesis
      using Decoding 2 assms(1) div_append [OF length_encode, of "concat (map encode_event ks)" k]
      by (auto simp: readEvents_turn_def decode_turn_event reader_ok_def rounds_left_def send_turn_def sendEvent_def
          split: decoded.split)
  qed
next
  case (Sending event bs)
  then show ?thesis using assms(1)
    by (auto simp: readEvents_turn_def reader_ok_def rounds_left_def send_turn_def sendEvent_def)
qed (use assms(1) in \<open>simp add: readEvents_turn_def\<close>)

interpretation reader: machine reader_move kernel_answers "\<lambda>_. True" reader_ok
proof
  fix r mv assume r: "reader_ok r" "kernel_answers mv"
  have "\<exists>r'. reader_move mv r = Some ((), r') \<and> reader_ok r'"
  proof (cases mv)
    case (Turn wt a)
    then show ?thesis using turn_ok [OF r(1), of a wt] r(2) by (auto simp: reader_move_def kernel_answers_def)
  qed (use r(1) in \<open>auto simp: reader_move_def reader_ok_def recv_Event_def recv_Error_def split: list.split\<close>)
  then show "reader_move mv r \<noteq> None" and "reader_move mv r = Some (out, r') \<Longrightarrow> reader_ok r'" for out r' by auto
qed

lemma readEvents_closed:
  assumes "wt_isClosed wt" "reader_ok r" "\<forall>a \<in> set as. \<forall>bs. an_read a = Inr bs \<longrightarrow> encoded bs" "rounds_left r \<le> length as"
  shows "\<exists>r'. readEvents wt as r = Some r' \<and> reader_ok r' \<and> rd_phase r' = Finished"
  using assms(2-4)
proof (induction as arbitrary: r)
  case Nil
  then show ?case by (auto simp: rounds_left_def split: phase.splits)
next
  case (Cons a as)
  obtain r' where r': "readEvents_turn wt a r = Some r'" "reader_ok r'" "rounds_left r' < rounds_left r \<or> rd_phase r' = Finished"
    using turn_ok [OF Cons.prems(1), of a wt] Cons.prems(2) assms(1) by auto
  have "rounds_left r' \<le> length as" using r'(3) Cons.prems(3) by (auto simp: rounds_left_def)
  then show ?case using Cons.IH [OF r'(2)] Cons.prems(2) r'(1) by simp
qed

section \<open>Properties\<close>

text \<open>C18: the reader delivers what the kernel wrote. When a \<open>read\<close> answers with the bytes of a sequence of events whose names fit,
  and the channels have room, then after a round per event the event channel has got, in order, every event of a watched
  descriptor with its mask and cookie, named by the path of its watch followed by the name without its padding, the error
  channel has got one overflow report per queue overflow, nothing else was sent, and the reader waits for input again.\<close>

theorem readEvents_delivers:
  assumes "\<forall>k \<in> set ks. kernel_event_ok k" "ks \<noteq> []" "\<not> wt_isClosed wt" "rd_phase r = Reading"
    "an_read a = Inr (concat (map encode_event ks))" "length as = Suc (length ks)"
    "length (rd_Event r) + length (known (wt_paths wt) ks) \<le> watcherEventBufferSize"
    "length (rd_Error r) + overflows ks \<le> watcherEventBufferSize"
  shows "readEvents wt (a # as) r = Some \<lparr>rd_phase = Polling, rd_Event = rd_Event r @ known (wt_paths wt) ks,
     rd_Error = rd_Error r @ replicate (overflows ks) ErrEventOverflow\<rparr>"
proof -
  let ?bs = "concat (map encode_event ks)"
  obtain k ks' where k: "ks = k # ks'" using assms(2) by (cases ks) auto
  have "SizeofInotifyEvent \<le> length ?bs" using length_encode [of k] by (simp add: k)
  then have "\<not> length ?bs < SizeofInotifyEvent" "?bs \<noteq> []" by (simp, force)
  then have "readEvents_turn wt a r = Some (r\<lparr>rd_phase := Decoding ?bs\<rparr>)"
    using assms(3-5) by (simp add: readEvents_turn_def read_turn_def del: concat_eq_Nil_conv)
  then show ?thesis using readEvents_decode [OF assms(1,3,6), of "r\<lparr>rd_phase := Decoding ?bs\<rparr>"] assms(7,8) by simp
qed

definition idle_answers :: answers where
  "idle_answers = \<lparr>an_poll = Revents False False, an_read = Inl EAGAIN, an_pickDone = False\<rparr>"

definition open_event :: kernel_event where
  "open_event = \<lparr>ke_wd = 7, ke_mask = InOpen, ke_cookie = 0, ke_name = [97], ke_pad = 15\<rparr>"

theorem readEvents_delivers_witness:
  "map_option rd_Event (readEvents sample_watcher
     [idle_answers\<lparr>an_read := Inr (encode_event open_event)\<rparr>, idle_answers, idle_answers] (new_reader\<lparr>rd_phase := Reading\<rparr>)) =
   Some [\<lparr>ev_Mask = InOpen, ev_Cookie = 0, ev_Name = ''/c/ac/a''\<rparr>]"
proof -
  have "known (wt_paths sample_watcher) [open_event] = [\<lparr>ev_Mask = InOpen, ev_Cookie = 0, ev_Name = ''/c/ac/a''\<rparr>]"
    by code_simp
  moreover have "kernel_event_ok open_event" "\<not> wt_isClosed sample_watcher"
    by (simp_all add: open_event_def kernel_event_ok_def sample_watcher_def)
  ultimately show ?thesis
    using readEvents_delivers [of "[open_event]" sample_watcher "new_reader\<lparr>rd_phase := Reading\<rparr>"
        "idle_answers\<lparr>an_read := Inr (encode_event open_event)\<rparr>" "[idle_answers, idle_answers]"]
    by (simp add: new_reader_def watcherEventBufferSize_def overflows_def)
qed

text \<open>The reader is safe. Whatever the system calls answer, as long as \<open>read\<close> gives whole events, however the event loop receives, adds watches
  or closes the watcher in between: no turn panics, neither channel ever holds more than its capacity, and a queue
  overflow that is decoded is queued for the event loop unless a full error channel of reports is already waiting.\<close>

lemma reader_invariant:
  assumes "reachable reader_move kernel_answers (\<lambda>_. True) new_reader r" "\<forall>bs. an_read a = Inr bs \<longrightarrow> encoded bs"
  shows "length (rd_Event r) \<le> 4096 \<and> length (rd_Error r) \<le> 4096 \<and>
    (\<exists>r'. readEvents_turn wt a r = Some r' \<and>
       (\<forall>k bs. rd_phase r = Decoding (encode_event k @ bs) \<longrightarrow> kernel_event_ok k \<longrightarrow> ke_mask k AND InQOverflow \<noteq> 0 \<longrightarrow>
          rd_Error r' = rd_Error r @ [ErrEventOverflow] \<or> length (rd_Error r) = 4096))"
proof -
  have "reader_ok new_reader" by (simp add: reader_ok_def new_reader_def)
  from reader.reachable_inv [OF assms(1) this] have ok: "reader_ok r" .
  then obtain r' where r': "readEvents_turn wt a r = Some r'" using turn_ok [OF _ assms(2)] by blast
  have "rd_Error r' = rd_Error r @ [ErrEventOverflow] \<or> length (rd_Error r) = 4096"
    if "rd_phase r = Decoding (encode_event k @ bs)" "kernel_event_ok k" "ke_mask k AND InQOverflow \<noteq> 0" for k bs
    using that r' ok delivered_overflow [of "wt_paths wt" k]
    by (auto simp: readEvents_turn_def decode_turn_event reportError_def reader_ok_def watcherEventBufferSize_def split: if_splits)
  then show ?thesis using ok r' by (auto simp: reader_ok_def watcherEventBufferSize_def)
qed

text \<open>C29: closing stops the reader. Once the watcher is closed, a reader in any reachable state finishes within a bounded number of rounds, at most
  one per event left in its buffer and three more, although nobody receives from its channels any more; in
  particular it is not left blocked on a full event channel. Both channels are then closed.\<close>

theorem reader_stops:
  assumes "reachable reader_move kernel_answers (\<lambda>_. True) new_reader r" "wt_isClosed wt"
    "\<forall>a \<in> set as. \<forall>bs. an_read a = Inr bs \<longrightarrow> encoded bs" "rounds_left r \<le> length as"
  shows "\<exists>r'. readEvents wt as r = Some r' \<and> rd_phase r' = Finished \<and>
    (rd_Event r' = [] \<longrightarrow> recv_Event r' = Some (None, r')) \<and> (rd_Error r' = [] \<longrightarrow> recv_Error r' = Some (None, r'))"
proof -
  have "reader_ok new_reader" by (simp add: reader_ok_def new_reader_def)
  from readEvents_closed [OF assms(2) reader.reachable_inv [OF assms(1) this] assms(3,4)] show ?thesis
    by (auto simp: recv_Event_def recv_Error_def)
qed

theorem reader_stops_witness:
  "\<exists>r'. readEvents (Watcher_Close sample_watcher) [idle_answers] new_reader = Some r' \<and> rd_phase r' = Finished"
proof -
  have "reachable reader_move kernel_answers (\<lambda>_. True) new_reader new_reader" by (rule reachable.here)
  moreover have "wt_isClosed (Watcher_Close sample_watcher)" by (simp add: Watcher_Close_def)
  moreover have "\<forall>a \<in> set [idle_answers]. \<forall>bs. an_read a = Inr bs \<longrightarrow> encoded bs" by (simp add: idle_answers_def)
  moreover have "rounds_left new_reader \<le> length [idle_answers]" by (simp add: rounds_left_def new_reader_def)
  ultimately show ?thesis using reader_stops [of new_reader "Watcher_Close sample_watcher" "[idle_answers]"] by blast
qed

text \<open>C40: a second \<open>AddWatch\<close> of a path loses the descriptor it gets. When the path is already in the
  map, for example because the directory was deleted and created again, and the kernel answers with a
  descriptor the watcher does not know, the call succeeds but the descriptor is not recorded, and the reader skips every
  event of it that is not an overflow: the channels stay as they are.\<close>

theorem AddWatch_again_drops_events:
  assumes "\<not> wt_isClosed wt" "wt_watches wt path = Some w0" "wt_paths wt wd = None"
    "inotify_add_watch I (wt_fd wt) path (flags OR InMaskAdd) w = (Inr wd, w1)"
    "ke_wd k = wd" "ke_mask k AND InQOverflow = 0" "kernel_event_ok k" "rd_phase r = Decoding (encode_event k)"
  shows "\<exists>wt'. AddWatch I wt path flags w = ((Inr (), wt'), w1) \<and>
    readEvents_turn wt' a r = Some (r\<lparr>rd_phase := Decoding []\<rparr>)"
proof -
  obtain wt' where wt': "AddWatch I wt path flags w = ((Inr (), wt'), w1)"
    using assms(1,2,4) by (simp add: AddWatch_def Let_def)
  have "wt_paths wt' wd = None" using AddWatch_again(2) [OF assms(2) wt'] assms(3) by simp
  then have "delivered (wt_paths wt') k = Unknown" using assms(5,6) by (simp add: delivered_def)
  then have "readEvents_turn wt' a r = Some (r\<lparr>rd_phase := Decoding []\<rparr>)"
    using decode_turn_event [OF assms(7), of wt' "an_pickDone a" "[]" r] assms(8) by (simp add: readEvents_turn_def)
  then show ?thesis using wt' by blast
qed

theorem AddWatch_again_drops_events_witness:
  "\<exists>wt'. AddWatch (sample_ino 8) sample_watcher ''/c/ac'' InOpen () = ((Inr (), wt'), ()) \<and>
     readEvents_turn wt' idle_answers (new_reader\<lparr>rd_phase := Decoding (encode_event (open_event\<lparr>ke_wd := 8\<rparr>))\<rparr>) =
       Some (new_reader\<lparr>rd_phase := Decoding []\<rparr>)"
  using AddWatch_again_drops_events [of sample_watcher "''/c/ac''" "\<lparr>watch_wd = 7, watch_flags = InOpen\<rparr>" 8 "sample_ino 8" InOpen "()" "()"
      "open_event\<lparr>ke_wd := 8\<rparr>" "new_reader\<lparr>rd_phase := Decoding (encode_event (open_event\<lparr>ke_wd := 8\<rparr>))\<rparr>" idle_answers]
  by (simp add: sample_watcher_def sample_ino_def kernel_event_ok_def open_event_def new_reader_def)

end
