(* ===== verification/Watch_System.thy ===== *)
theory Watch_System
  imports Event_Properties Watch_Coverage Inotify_Reader
begin

unbundle bit_operations_syntax

text \<open>
  The event loop and the reader goroutine side by side. The state of the system is the manager, the reader of its present
  watcher with the two channels, and the world; a move is a turn of the reader, a receive of the loop from one of the
  channels, or another case of its \<open>select\<close>. When the loop rebuilds its watches, it goes on with the reader of the new
  watcher, in whatever state that reader has reached by then; the reader of the old watcher finishes on its own, because its watcher is closed
  (\<open>reader_stops\<close>).

  The properties: the two goroutines together never panic and keep both invariants; and what the reader
  reports about lost events reaches the loop, which rebuilds its watches and forgets its heat.
\<close>

section \<open>The system\<close>

datatype system_move =
    ReaderTurn answers
  | FromEvent schedule Reader
  | FromError schedule Reader
  | LoopInput schedule input

type_synonym 'w system = "Notify \<times> Reader \<times> 'w"

text \<open>The messages on which the loop calls \<open>recoverWatcher\<close>.\<close>

definition rebuilds :: "'w env \<Rightarrow> Notify \<Rightarrow> chan \<Rightarrow> 'w \<Rightarrow> bool" where
  "rebuilds E n m w =
     (case m of
        EventClosed \<Rightarrow> True
      | EventMsg event \<Rightarrow> (case handleEvent E n event w of Some (Inl _, _, _) \<Rightarrow> True | _ \<Rightarrow> False)
      | ErrorClosed \<Rightarrow> True
      | ErrorMsg err \<Rightarrow> err = ErrEventOverflow)"

text \<open>What a receive from a channel hands to the loop.\<close>

definition event_message :: "Event option \<Rightarrow> chan" where
  "event_message x = (case x of None \<Rightarrow> EventClosed | Some ev \<Rightarrow> EventMsg (Some ev))"

definition error_message :: "watcher_error option \<Rightarrow> chan" where
  "error_message x = (case x of None \<Rightarrow> ErrorClosed | Some err \<Rightarrow> ErrorMsg err)"

text \<open>The loop takes a message; \<open>fresh\<close> is the reader of the watcher that a rebuild installs.\<close>

definition take_message :: "'w env \<Rightarrow> schedule \<Rightarrow> Reader \<Rightarrow> chan \<Rightarrow> Notify \<Rightarrow> Reader \<Rightarrow> 'w \<Rightarrow> (outcome \<times> 'w system) option" where
  "take_message E sched fresh m n r w =
     map_option (\<lambda>(out, n', w'). (out, n', if rebuilds E n m w then fresh else r, w')) (run_step E sched (Receive m) n w)"

text \<open>A receive that blocks is not taken by the \<open>select\<close>.\<close>

definition system_step :: "'w env \<Rightarrow> system_move \<Rightarrow> 'w system \<Rightarrow> (outcome \<times> 'w system) option" where
  "system_step E mv s =
     (case s of (n, r, w) \<Rightarrow>
       (case mv of
          ReaderTurn a \<Rightarrow>
            (case n_watcher n of
               None \<Rightarrow> None
             | Some wt \<Rightarrow> map_option (\<lambda>r'. (Continue, n, r', w)) (readEvents_turn wt a r))
        | FromEvent sched fresh \<Rightarrow>
            (case recv_Event r of
               None \<Rightarrow> Some (Continue, s)
             | Some (x, r') \<Rightarrow> take_message E sched fresh (event_message x) n r' w)
        | FromError sched fresh \<Rightarrow>
            (case recv_Error r of
               None \<Rightarrow> Some (Continue, s)
             | Some (x, r') \<Rightarrow> take_message E sched fresh (error_message x) n r' w)
        | LoopInput sched i \<Rightarrow> map_option (\<lambda>(out, n', w'). (out, n', r, w')) (run_step E sched i n w)))"

text \<open>The moves there are: whole events from \<open>read\<close>, a reader of a new watcher that started as such, and no receives but those from the
  channels.\<close>

definition good_move :: "system_move \<Rightarrow> bool" where
  "good_move mv \<longleftrightarrow>
     (case mv of
        ReaderTurn a \<Rightarrow> \<forall>bs. an_read a = Inr bs \<longrightarrow> encoded bs
      | FromEvent _ fresh \<Rightarrow> reachable reader_move kernel_answers (\<lambda>_. True) new_reader fresh
      | FromError _ fresh \<Rightarrow> reachable reader_move kernel_answers (\<lambda>_. True) new_reader fresh
      | LoopInput _ i \<Rightarrow> \<forall>m. i \<noteq> Receive m)"

section \<open>Both invariants\<close>

definition system_inv :: "'w env \<Rightarrow> Notify \<Rightarrow> 'w system \<Rightarrow> bool" where
  "system_inv E n0 s \<longleftrightarrow> loop_ok E (fst s) \<and> same_manager n0 (fst s) \<and> reader_ok (fst (snd s))"

lemma reader_started: "reachable reader_move kernel_answers (\<lambda>_. True) new_reader r \<Longrightarrow> reader_ok r"
proof -
  assume "reachable reader_move kernel_answers (\<lambda>_. True) new_reader r"
  moreover have "reader_ok new_reader" by (simp add: reader_ok_def new_reader_def)
  ultimately show ?thesis by (rule reader.reachable_inv)
qed

lemma recv_ok:
  "recv_Event r = Some (x, r') \<Longrightarrow> reader_ok r \<Longrightarrow> reader_ok r'" "recv_Error r = Some (y, r') \<Longrightarrow> reader_ok r \<Longrightarrow> reader_ok r'"
  by (auto simp: recv_Event_def recv_Error_def reader_ok_def split: list.splits if_splits)

lemma run_step_system:
  assumes "loop_ok E n" "same_manager n0 n"
  shows "\<exists>out n' w'. run_step E sched i n w = Some (out, n', w') \<and> (out = Continue \<longrightarrow> loop_ok E n' \<and> same_manager n0 n')"
  using run_step_ok [OF assms(1), of sched i w] loop_okI [OF assms(1)] same_manager_trans [OF assms(2)] by metis

lemma take_message_ok:
  assumes "loop_ok E n" "same_manager n0 n" "reader_ok r" "reader_ok fresh"
  shows "\<exists>out s'. take_message E sched fresh m n r w = Some (out, s') \<and> (out = Continue \<longrightarrow> system_inv E n0 s')"
  using run_step_system [OF assms(1,2), of sched "Receive m" w] assms(3,4) by (auto simp: take_message_def system_inv_def)

lemma system_step_ok:
  assumes "system_inv E n0 s" "good_move mv"
  shows "\<exists>out s'. system_step E mv s = Some (out, s') \<and> (out = Continue \<longrightarrow> system_inv E n0 s')"
proof -
  obtain n r w where s: "s = (n, r, w)" by (cases s)
  have ok: "loop_ok E n" "same_manager n0 n" "reader_ok r" using assms(1) s by (simp_all add: system_inv_def)
  obtain wt where wt: "n_watcher n = Some wt" using ok(1) by (auto simp: loop_ok_def watching_def)
  show ?thesis
  proof (cases mv)
    case (ReaderTurn a)
    then show ?thesis using turn_ok [OF ok(3), of a wt] assms(2) wt ok s by (auto simp: system_step_def good_move_def system_inv_def)
  next
    case (FromEvent sched fresh)
    then have f: "reader_ok fresh" using assms(2) reader_started by (simp add: good_move_def)
    show ?thesis
    proof (cases "recv_Event r")
      case (Some x)
      then show ?thesis using FromEvent s take_message_ok [OF ok(1,2) recv_ok(1) f] ok(3) by (cases x) (simp add: system_step_def)
    qed (use FromEvent s assms(1) in \<open>simp add: system_step_def\<close>)
  next
    case (FromError sched fresh)
    then have f: "reader_ok fresh" using assms(2) reader_started by (simp add: good_move_def)
    show ?thesis
    proof (cases "recv_Error r")
      case (Some x)
      then show ?thesis using FromError s take_message_ok [OF ok(1,2) recv_ok(2) f] ok(3) by (cases x) (simp add: system_step_def)
    qed (use FromError s assms(1) in \<open>simp add: system_step_def\<close>)
  next
    case (LoopInput sched i)
    then show ?thesis using run_step_system [OF ok(1,2), of sched i w] ok(3) s by (auto simp: system_step_def system_inv_def)
  qed
qed

interpretation system: machine "system_step E" good_move goes_on "system_inv E n0" for E n0
proof
  fix s mv assume "system_inv E n0 s" "good_move mv"
  from system_step_ok [OF this] show "system_step E mv s \<noteq> None"
    and "system_step E mv s = Some (out, s') \<Longrightarrow> goes_on out \<Longrightarrow> system_inv E n0 s'" for out s' by auto
qed

section \<open>Losses reach the loop\<close>

text \<open>The error channel of the reader says, after \<open>j\<close> other reports, that events were lost: by an overflow report, or because
  it is closed.\<close>

definition loss_at :: "Reader \<Rightarrow> nat \<Rightarrow> bool" where
  "loss_at r j \<longleftrightarrow> (j < length (rd_Error r) \<and> rd_Error r ! j = ErrEventOverflow) \<or>
     (rd_phase r = Finished \<and> j = length (rd_Error r))"

lemma reportError_loss: "loss_at r j \<Longrightarrow> rd_phase r \<noteq> Finished \<Longrightarrow> loss_at (reportError e r) j"
  by (auto simp: loss_at_def reportError_def nth_append)

lemma loss_phase: "loss_at r j \<Longrightarrow> rd_phase r \<noteq> Finished \<Longrightarrow> loss_at (r\<lparr>rd_phase := p\<rparr>) j"
  by (auto simp: loss_at_def)

lemma loss_sent: "loss_at (r\<lparr>rd_Event := es\<rparr>) j = loss_at r j"
  by (simp add: loss_at_def)

lemma turn_loss: "readEvents_turn wt a r = Some r' \<Longrightarrow> loss_at r j \<Longrightarrow> loss_at r' j"
  by (cases "rd_phase r")
    (auto simp: readEvents_turn_def waitReadable_def read_turn_def decode_turn_def send_turn_def sendEvent_def Let_def loss_sent
      split: poll.splits sum.splits if_splits option.splits decoded.splits intro!: loss_phase reportError_loss)

lemma overflow_turn_loss:
  assumes "readEvents_turn wt a r = Some r'" "rd_phase r = Decoding (encode_event k @ bs)" "kernel_event_ok k"
    "ke_mask k AND InQOverflow \<noteq> 0" "length (rd_Error r) < 4096"
  shows "loss_at r' (length (rd_Error r))"
proof -
  have "delivered (wt_paths wt) k = Overflow" using assms(4) delivered_overflow by simp
  then have "r' = (reportError ErrEventOverflow r)\<lparr>rd_phase := Decoding bs\<rparr>"
    using assms(1-3) by (simp add: readEvents_turn_def decode_turn_event)
  then show ?thesis using assms(5) by (simp add: reportError_def watcherEventBufferSize_def loss_at_def)
qed

lemma recv_Event_loss: "recv_Event r = Some (x, r') \<Longrightarrow> loss_at r j \<Longrightarrow> loss_at r' j"
  by (auto simp: recv_Event_def loss_sent split: list.splits if_splits)

lemma recv_Error_loss:
  assumes "loss_at r j"
  shows "\<exists>x r'. recv_Error r = Some (x, r') \<and> (case j of 0 \<Rightarrow> watcher_loss (error_message x) | Suc i \<Rightarrow> loss_at r' i)"
  using assms by (cases "rd_Error r"; cases j) (auto simp: recv_Error_def loss_at_def error_message_def)

text \<open>What a step that rebuilds the watches leaves behind. The rebuild starts in the world the step starts in, or in the one that
  \<open>handleEvent\<close> left when it failed; the clock is read last.\<close>

definition recovered :: "'w env \<Rightarrow> Notify \<Rightarrow> 'w \<Rightarrow> Notify \<Rightarrow> 'w \<Rightarrow> bool" where
  "recovered E n w n' w' \<longleftrightarrow> n_ready n' \<and> hk_Len (n_heavykeeper n') = 0 \<and>
     (\<exists>v t. e_now E v = (t, w') \<and> n_warmUntil n' = t + WarmupDuration (n_policy n)) \<and>
     (\<exists>v. (v = w \<or> (\<exists>event e n1. handleEvent E n event w = Some (Inl e, n1, v))) \<and> rebuilt E n v n')"

text \<open>The loop has recovered, or it has returned.\<close>

definition lost_heat :: "'w env \<Rightarrow> Notify \<Rightarrow> 'w \<Rightarrow> outcome \<Rightarrow> Notify \<Rightarrow> 'w \<Rightarrow> bool" where
  "lost_heat E n w out n' w' \<longleftrightarrow> out \<noteq> Continue \<or> recovered E n w n' w'"

lemma rebuilt_cong: "n_cache x = n_cache n \<Longrightarrow> rebuilt E x v n' = rebuilt E n v n'"
  by (simp add: rebuilt_def addDirectoryWatches_cong [of x n])

lemma recover_lost_heat:
  assumes "notify_ok x" "same_manager n x" "cache_ok (n_cache n)" "walks_end E" "recover_step E sched x v = Some (out, n', w')"
    "v = w \<or> (\<exists>event e n1. handleEvent E n event w = Some (Inl e, n1, v))"
  shows "lost_heat E n w out n' w'"
proof (cases "out = Continue")
  case True
  let ?x = "observe (RecordFrozen ''watcher_loss'') x"
  have x: "cache_ok (n_cache x)" "n_policy x = n_policy n" "n_cache x = n_cache n" using assms(2,3) by (simp_all add: same_manager_def)
  have "reconcile E sched True ?x v = Some (Inr (), n', w')"
    using assms(5) True by (auto simp: recover_step_def recoverWatcher_def split: option.splits sum.splits)
  from reconcile_rebuilt [OF _ assms(4) this] x
  have "rebuilt E n v n'" "\<exists>u t. e_now E u = (t, w') \<and> n_warmUntil n' = t + WarmupDuration (n_policy n)"
    using rebuilt_cong [of ?x n E v n'] by simp_all
  moreover have "n_ready n'" "hk_Len (n_heavykeeper n') = 0"
    using recover_step_ok [OF assms(1) x(1) assms(4), of sched v] assms(5) True by (auto simp: reconciled_def reset_if_def split: if_splits)
  ultimately show ?thesis using assms(6) by (auto simp: lost_heat_def recovered_def)
qed (simp add: lost_heat_def)

lemma rebuild_lost_heat:
  assumes "loop_ok E n" "rebuilds E n m w" "run_step E sched (Receive m) n w = Some (out, n', w')"
  shows "lost_heat E n w out n' w'"
proof -
  have n: "notify_ok n" "cache_ok (n_cache n)" "walks_end E" "watching n" using assms(1) by (simp_all add: loop_ok_def)
  have r: "receive_step E sched m n w = Some (out, n', w')"
    using assms(3) n(4) by (auto simp: run_step_def watching_def)
  note rec = recover_lost_heat [OF _ _ n(2,3)]
  have here: "recover_step E sched n w = Some (out, n', w') \<Longrightarrow> lost_heat E n w out n' w'"
    by (rule rec [OF n(1) same_manager_refl], assumption, rule disjI1, rule refl)
  show ?thesis
  proof (cases m)
    case (EventMsg event)
    obtain x n1 w1 where h: "handleEvent E n event w = Some (x, n1, w1)" "notify_ok n1" "same_manager n n1"
      using handleEvent_ok [OF n(1-4), of event w] by blast
    then obtain e where e: "x = Inl e" "recover_step E sched n1 w1 = Some (out, n', w')"
      using EventMsg r assms(2) by (auto simp: rebuilds_def receive_step_def split: sum.splits)
    show ?thesis by (rule rec [OF h(2,3) e(2)]) (use h(1) e(1) in blast)
  qed (use r assms(2) here in \<open>auto simp: rebuilds_def receive_step_def split: if_splits\<close>)
qed

lemma loss_rebuilds: "watcher_loss m \<Longrightarrow> rebuilds E n m w"
  by (cases m rule: watcher_loss.cases) (auto simp: rebuilds_def handleEvent_def)

definition from_error :: "system_move \<Rightarrow> bool" where
  "from_error mv \<longleftrightarrow> (\<exists>sched fresh. mv = FromError sched fresh)"

text \<open>A move either is the recovery, or leaves the report where it is, one place further to the front when it receives an error.\<close>

lemma system_step_loss:
  assumes "system_inv E n0 (n, r, w)" "loss_at r j" "system_step E mv (n, r, w) = Some (out, n', r', w')" "good_move mv"
  shows "lost_heat E n w out n' w' \<or> (out = Continue \<and> (if from_error mv then \<exists>i. j = Suc i \<and> loss_at r' i else loss_at r' j))"
proof -
  have ok: "loop_ok E n" using assms(1) by (simp add: system_inv_def)
  have msg: "lost_heat E n w out n' w' \<or> (out = Continue \<and> r' = r1 \<and> \<not> watcher_loss m)"
    if "take_message E sched fresh m n r1 w = Some (out, n', r', w')" for sched fresh m r1
    using that rebuild_lost_heat [OF ok, of m w sched out n' w'] loss_rebuilds [of m E n w]
    by (cases out) (auto simp: take_message_def lost_heat_def split: if_splits)
  show ?thesis
  proof (cases mv)
    case (FromError sched fresh)
    obtain x r1 where x: "recv_Error r = Some (x, r1)" "case j of 0 \<Rightarrow> watcher_loss (error_message x) | Suc i \<Rightarrow> loss_at r1 i"
      using recv_Error_loss [OF assms(2)] by blast
    then have "take_message E sched fresh (error_message x) n r1 w = Some (out, n', r', w')"
      using assms(3) FromError by (simp add: system_step_def)
    from msg [OF this] show ?thesis using x(2) FromError by (cases j) (auto simp: from_error_def)
  next
    case (FromEvent sched fresh)
    then show ?thesis using assms(2,3) msg recv_Event_loss [of r _ _ j]
      by (fastforce simp: system_step_def from_error_def split: option.splits)
  next
    case (LoopInput sched i)
    then show ?thesis using assms(2,3) by (cases out) (auto simp: system_step_def from_error_def lost_heat_def)
  qed (use assms(2,3) turn_loss in \<open>auto simp: system_step_def from_error_def split: option.splits\<close>)
qed

primrec system_run :: "'w env \<Rightarrow> system_move list \<Rightarrow> 'w system \<Rightarrow> (outcome \<times> 'w system) option" where
  "system_run E [] s = Some (Continue, s)"
| "system_run E (mv # ms) s =
     (case system_step E mv s of
        None \<Rightarrow> None
      | Some (Return x, s') \<Rightarrow> Some (Return x, s')
      | Some (Continue, s') \<Rightarrow> system_run E ms s')"

text \<open>Somewhere in the moves the loop gives up its heat or returns.\<close>

definition gives_up :: "'w env \<Rightarrow> system_move list \<Rightarrow> 'w system \<Rightarrow> bool" where
  "gives_up E ms s \<longleftrightarrow> (\<exists>ms1 mv ms2 n1 r1 w1 out n2 r2 w2. ms = ms1 @ mv # ms2 \<and>
     system_run E ms1 s = Some (Continue, n1, r1, w1) \<and> system_step E mv (n1, r1, w1) = Some (out, n2, r2, w2) \<and>
     lost_heat E n1 w1 out n2 w2)"

lemma gives_up_here: "system_step E mv (n, r, w) = Some (out, n', r', w') \<Longrightarrow> lost_heat E n w out n' w' \<Longrightarrow> gives_up E (mv # ms) (n, r, w)"
  unfolding gives_up_def by (rule exI [of _ "[]"]) auto

lemma gives_up_later:
  assumes "system_step E mv s = Some (Continue, s')" "gives_up E ms s'" shows "gives_up E (mv # ms) s"
proof -
  obtain ms1 mv1 ms2 n1 r1 w1 out n2 r2 w2 where g: "ms = ms1 @ mv1 # ms2" "system_run E ms1 s' = Some (Continue, n1, r1, w1)"
    "system_step E mv1 (n1, r1, w1) = Some (out, n2, r2, w2)" "lost_heat E n1 w1 out n2 w2"
    using assms(2) unfolding gives_up_def by blast
  then have "mv # ms = (mv # ms1) @ mv1 # ms2" "system_run E (mv # ms1) s = Some (Continue, n1, r1, w1)"
    using assms(1) by simp_all
  then show ?thesis using g(3,4) unfolding gives_up_def by blast
qed

lemma loss_run:
  "system_inv E n0 (n, r, w) \<Longrightarrow> loss_at r j \<Longrightarrow> \<forall>mv \<in> set ms. good_move mv \<Longrightarrow> j < length (filter from_error ms) \<Longrightarrow>
   gives_up E ms (n, r, w)"
proof (induction ms arbitrary: n r w j)
  case (Cons mv ms)
  have good: "good_move mv" using Cons.prems(3) by simp
  obtain out n' r' w' where st: "system_step E mv (n, r, w) = Some (out, n', r', w')" "out = Continue \<longrightarrow> system_inv E n0 (n', r', w')"
    using system_step_ok [OF Cons.prems(1) good] by (metis prod.exhaust_sel)
  from system_step_loss [OF Cons.prems(1,2) st(1) good] show ?case
  proof
    assume "lost_heat E n w out n' w'"
    then show ?thesis using gives_up_here [OF st(1)] by blast
  next
    assume on: "out = Continue \<and> (if from_error mv then \<exists>i. j = Suc i \<and> loss_at r' i else loss_at r' j)"
    then obtain i where "loss_at r' i" "i < length (filter from_error ms)" using Cons.prems(4) by (auto split: if_splits)
    then have "gives_up E ms (n', r', w')" using Cons.IH [of n' r' w' i] st(2) on Cons.prems(3) by simp
    then show ?thesis using gives_up_later st(1) on by blast
  qed
qed simp

section \<open>Properties\<close>

text \<open>C13: the loop and the reader together. From a successful start, whatever the kernel answers and however the two goroutines are
  interleaved, every state they reach keeps the invariants of both: the manager is well-formed, ready and watches only the cache,
  the channels are within their capacity; and no move of either goroutine panics, the turns of the reader on the watcher of the
  loop included.\<close>

theorem system_invariant:
  assumes "notify_ok n0" "cache_ok (n_cache n0)" "walks_end E" "run_start E sched n0 w0 = Some (Inr (), n1, w1)"
    "reachable reader_move kernel_answers (\<lambda>_. True) new_reader r1"
    "reachable (system_step E) good_move goes_on (n1, r1, w1) (n, r, w)" "good_move mv"
  shows "notify_ok n \<and> n_ready n \<and> same_manager n0 n \<and>
    (\<exists>wt. n_watcher n = Some wt \<and> \<not> wt_isClosed wt \<and> (\<forall>p \<in> dom (wt_watches wt). cache_area (n_cache n0) p)) \<and>
    length (rd_Event r) \<le> 4096 \<and> length (rd_Error r) \<le> 4096 \<and> (\<exists>out s'. system_step E mv (n, r, w) = Some (out, s'))"
proof -
  have inv: "system_inv E n0 (n1, r1, w1)"
    using run_start_ok [OF assms(1-3), of sched w0] assms(4) reader_started [OF assms(5)] by (simp add: system_inv_def)
  from system.reachable_inv [OF assms(6) inv] have "loop_ok E n" "same_manager n0 n" "reader_ok r" by (simp_all add: system_inv_def)
  moreover have "\<exists>out s'. system_step E mv (n, r, w) = Some (out, s')" using system.never_stuck [OF assms(6) inv assms(7)] .
  ultimately show ?thesis
    by (auto simp: loop_ok_def watching_def watcher_ok_def same_manager_def reader_ok_def watcherEventBufferSize_def)
qed

lemma system_sample:
  obtains n w where "run_start run_env ([], []) (sample_notify False) bare_fs = Some (Inr (), n, w)"
    "reachable reader_move kernel_answers (\<lambda>_. True) new_reader new_reader"
    "reachable (system_step run_env) good_move goes_on (n, new_reader, w) (n, new_reader, w)"
  by (rule sample_start) (blast intro: reachable.here)

theorem system_invariant_witness:
  "\<exists>n w out s'. n_ready n \<and> system_step run_env (ReaderTurn idle_answers) (n, new_reader, w) = Some (out, s')"
proof -
  obtain n w where s: "run_start run_env ([], []) (sample_notify False) bare_fs = Some (Inr (), n, w)"
    "reachable reader_move kernel_answers (\<lambda>_. True) new_reader new_reader"
    "reachable (system_step run_env) good_move goes_on (n, new_reader, w) (n, new_reader, w)" by (rule system_sample)
  have "good_move (ReaderTurn idle_answers)" by (simp add: good_move_def idle_answers_def)
  from system_invariant [OF sample_ok s this] show ?thesis by blast
qed

text \<open>C8: lost events are not forgotten. When, in any reachable state of the two goroutines, the reader decodes a queue overflow and its error
  channel is not full (in a full channel the report is dropped), or has finished for whatever reason, then, however the following moves are interleaved, by
  the time the loop has received the errors that were waiting and one more, it has returned, or a step of it has recovered: it is ready with an
  empty hot set, a warm-up that starts at the time read at the end of the step, and a new watcher, opened in that step, on which the walk from the root has
  succeeded and which watches every directory of the cache that was there all the time.\<close>

theorem lost_events_recover:
  assumes "notify_ok n0" "cache_ok (n_cache n0)" "walks_end E" "run_start E sched n0 w0 = Some (Inr (), n1, w1)"
    "reachable reader_move kernel_answers (\<lambda>_. True) new_reader r1"
    "reachable (system_step E) good_move goes_on (n1, r1, w1) (n, r, w)"
    and lost: "rd_phase r = Finished \<or> (\<exists>k bs. rd_phase r = Decoding (encode_event k @ bs) \<and> kernel_event_ok k \<and>
      ke_mask k AND InQOverflow \<noteq> 0 \<and> length (rd_Error r) < 4096)"
    and moves: "good_move (ReaderTurn a)" "\<forall>mv \<in> set ms. good_move mv"
      "length (rd_Error r) < length (filter (\<lambda>mv. \<exists>sched fresh. mv = FromError sched fresh) ms)"
  shows "\<exists>ms1 mv ms2 m r2 w2 out m' r3 w3. ReaderTurn a # ms = ms1 @ mv # ms2 \<and>
    system_run E ms1 (n, r, w) = Some (Continue, m, r2, w2) \<and> system_step E mv (m, r2, w2) = Some (out, m', r3, w3) \<and>
    (out \<noteq> Continue \<or> (n_ready m' \<and> hk_Len (n_heavykeeper m') = 0 \<and>
       (\<exists>v t. e_now E v = (t, w3) \<and> n_warmUntil m' = t + WarmupDuration (n_policy m)) \<and>
       (\<exists>v. (v = w2 \<or> (\<exists>event e m1. handleEvent E m event w2 = Some (Inl e, m1, v))) \<and> rebuilt E m v m')))"
proof -
  have "system_inv E n0 (n1, r1, w1)"
    using run_start_ok [OF assms(1-3), of sched w0] assms(4) reader_started [OF assms(5)] by (simp add: system_inv_def)
  from system.reachable_inv [OF assms(6) this] have inv: "system_inv E n0 (n, r, w)" .
  obtain out n' r' w' where st: "system_step E (ReaderTurn a) (n, r, w) = Some (out, n', r', w')"
    "out = Continue \<longrightarrow> system_inv E n0 (n', r', w')" using system_step_ok [OF inv moves(1)] by (metis prod.exhaust_sel)
  then obtain wt where turn: "readEvents_turn wt a r = Some r'" "out = Continue" by (auto simp: system_step_def split: option.splits)
  have "loss_at r' (length (rd_Error r))"
    using lost overflow_turn_loss [OF turn(1)] turn_loss [OF turn(1), of "length (rd_Error r)"] by (auto simp: loss_at_def [of r])
  then have "gives_up E ms (n', r', w')" using loss_run [of E n0 n' r' w'] st(2) turn(2) moves(2,3) by (simp add: from_error_def [abs_def])
  then have "gives_up E (ReaderTurn a # ms) (n, r, w)" using gives_up_later st(1) turn(2) by blast
  then show ?thesis unfolding gives_up_def lost_heat_def recovered_def .
qed

theorem lost_events_recover_witness:
  "\<exists>n w ms1 mv ms2 m r2 w2 out m' r3 w3. n_ready n \<and>
     [ReaderTurn idle_answers, FromError ([], []) new_reader] = ms1 @ mv # ms2 \<and>
     system_run run_env ms1 (n, new_reader\<lparr>rd_phase := Finished\<rparr>, w) = Some (Continue, m, r2, w2) \<and>
     system_step run_env mv (m, r2, w2) = Some (out, m', r3, w3) \<and> (out \<noteq> Continue \<or> hk_Len (n_heavykeeper m') = 0)"
proof -
  obtain n w where s: "run_start run_env ([], []) (sample_notify False) bare_fs = Some (Inr (), n, w)" by (rule sample_start)
  let ?gone = "new_reader\<lparr>rd_phase := Finished\<rparr>"
  have good: "good_move (ReaderTurn idle_answers)" by (simp add: good_move_def idle_answers_def)
  have mv: "reader_move (Turn sample_watcher (idle_answers\<lparr>an_poll := Revents False True\<rparr>)) new_reader = Some ((), ?gone)"
    "kernel_answers (Turn sample_watcher (idle_answers\<lparr>an_poll := Revents False True\<rparr>))"
    by (auto simp: reader_move_def readEvents_turn_def waitReadable_def new_reader_def kernel_answers_def idle_answers_def)
  have r: "reachable reader_move kernel_answers (\<lambda>_. True) new_reader ?gone"
    by (rule reachable_one [where good = kernel_answers and step = reader_move, OF mv(2) mv(1)]) simp
  have "n_ready n" using sample_loop_ok [OF s] by (simp add: loop_ok_def)
  moreover have "good_move (FromError ([], []) new_reader)" by (simp add: good_move_def reachable.here)
  ultimately show ?thesis
    using lost_events_recover [OF sample_ok s r reachable.here, of idle_answers "[FromError ([], []) new_reader]"] good
    by (simp add: new_reader_def) blast
qed

end
