(* ===== verification/Restart_Properties.thy ===== *)
theory Restart_Properties
  imports Event_Properties
begin

text \<open>
  A manager and its successor: what one run of \<open>Run\<close> saves, the next one accepts. The event loop reaches its estimator only
  through \<open>Add\<close>, \<open>Remove\<close>, \<open>Fading\<close>, \<open>Reset\<close> and \<open>Restore\<close>, with keys it has checked; a predicate these methods keep
  (the contract \<open>estimator_invariant\<close>) holds in every state of the loop. It is met by the predicate that every hot key is a valid
  cache key with a count that is not zero, which is what \<open>loadCheckpoint\<close> asks of a stored item.
\<close>

section \<open>Predicates of the estimator that the loop keeps\<close>

locale estimator_invariant =
  fixes E :: "'w env" and P :: "HeavyKeeper \<Rightarrow> bool"
  assumes add: "P tk \<Longrightarrow> ParseKey key = Inr kind \<Longrightarrow> hk_add (e_hk E) tk key 1 = Some (out, tk') \<Longrightarrow> P tk'"
    and remove: "P tk \<Longrightarrow> hk_Remove tk key = Some tk' \<Longrightarrow> P tk'"
    and fading: "P tk \<Longrightarrow> hk_Fading tk = Some tk' \<Longrightarrow> P tk'"
    and reset: "P tk \<Longrightarrow> P (hk_reset tk)"
    and restore: "P tk \<Longrightarrow> \<forall>it \<in> set items. item_ok it \<Longrightarrow> hk_Restore (e_hk E) tk items = Some tk' \<Longrightarrow> P tk'"
begin

abbreviation holds :: "Notify \<Rightarrow> bool" where
  "holds n \<equiv> P (n_heavykeeper n)"

lemma KeyForPath_valid: "KeyForPath S c path w = (Inr (key, kind), w') \<Longrightarrow> ParseKey key = Inr kind"
  by (auto simp: KeyForPath_def split: sum.splits option.splits prod.splits)

lemma seed_fn_holds: "keeps (\<lambda>s. \<forall>tk. snd s = Some tk \<longrightarrow> P tk) (seed_fn E n path d err)"
  by (rule keepsI) (auto simp: seed_fn_def split: option.splits sum.splits prod.splits dest!: KeyForPath_valid intro: add)

lemma seedExistingEntries_holds:
  assumes "holds n" "seedExistingEntries E n start w = Some (r, n', w')" shows "holds n'"
proof (cases "watchPathAllowed n start")
  case True
  let ?W = "WalkDir (e_depth E) (\<lambda>p. on_fst (sys_lstat (e_sys E) p)) (\<lambda>p. on_fst (sys_ReadDir (e_sys E) p)) (seed_fn E n) start"
  obtain x v tk where x: "?W (w, Some (n_heavykeeper n)) = Some (x, v, Some tk)" "n' = n\<lparr>n_heavykeeper := tk\<rparr>"
    using assms(2) True by (auto simp: seedExistingEntries_def split: option.splits prod.splits)
  have "keeps_opt (\<lambda>s. \<forall>tk. snd s = Some tk \<longrightarrow> P tk) ?W" by (rule WalkDir_keeps) (rule seed_fn_holds on_fst_keeps)+
  from keeps_optD [OF this _ x(1)] show ?thesis using assms(1) x(2) by simp
qed (use assms in \<open>auto simp: seedExistingEntries_def\<close>)

lemma handleEntryEvent_holds:
  "holds n \<Longrightarrow> ParseKey key = Inr kind \<Longrightarrow> handleEntryEvent E n ev key kind = Some n' \<Longrightarrow> holds n'"
  by (auto simp: handleEntryEvent_def Let_def split: if_splits option.splits intro: add remove)

lemma handleEvent_holds: "holds n \<Longrightarrow> handleEvent E n event w = Some (r, n', w') \<Longrightarrow> holds n'"
  by (auto simp: handleEvent_def split: option.splits if_splits sum.splits prod.splits
      dest!: KeyForPath_valid seedExistingEntries_holds [rotated] intro: handleEntryEvent_holds)

lemma take_victim_holds: "holds n \<Longrightarrow> take_victim E del e n w = Some (Some n', w') \<Longrightarrow> holds n'"
  by (auto simp: take_victim_def split: if_splits option.splits sum.splits prod.splits intro: remove)

lemma judge_heat: "judge E del f v n w = (go, n', w') \<Longrightarrow> n_heavykeeper n' = n_heavykeeper n"
  by (auto simp: judge_def Let_def split: if_splits sum.splits prod.splits option.splits)

lemma select_loop_holds: "holds n \<Longrightarrow> select_loop E now del es v n w = Some (p, n', w') \<Longrightarrow> holds n'"
proof (induction es arbitrary: v n w)
  case (Cons e es)
  then show ?case
    by (auto split: if_splits option.splits prod.splits dest: judge_heat take_victim_holds) (metis judge_heat take_victim_holds)+
qed auto

lemma selectVictims_holds: "holds n \<Longrightarrow> selectVictims E n ents now f u del w = Some (p, n', w') \<Longrightarrow> holds n'"
  by (auto simp: selectVictims_def Let_def split: option.splits intro: select_loop_holds)

lemma cleanup_locked_holds: "holds n \<Longrightarrow> cleanup_locked E now n w = Some (r, n', w') \<Longrightarrow> holds n'"
  by (auto simp: cleanup_locked_def Let_def split: option.splits sum.splits prod.splits if_splits dest!: selectVictims_holds [rotated])

lemma cleanup_evict_holds: "holds n \<Longrightarrow> cleanup_evict E now ents f u n w = Some (r, n', w') \<Longrightarrow> holds n'"
  by (auto simp: cleanup_evict_def split: option.splits sum.splits prod.splits if_splits
      dest!: selectVictims_holds [rotated] cleanup_locked_holds [rotated])

lemma cleanup_holds: "holds n \<Longrightarrow> cleanup E now n w = Some (r, n', w') \<Longrightarrow> holds n'"
  by (auto simp: cleanup_def Let_def split: option.splits sum.splits prod.splits if_splits dest!: cleanup_evict_holds [rotated])

lemma reconcile_holds: "holds n \<Longrightarrow> reconcile E sched b n w = Some (r, n', w') \<Longrightarrow> holds n'"
  by (auto simp: reconcile_def Let_def split: option.splits sum.splits prod.splits if_splits intro: reset)

lemma recover_step_holds: "holds n \<Longrightarrow> recover_step E sched n w = Some (out, n', w') \<Longrightarrow> holds n'"
  by (auto simp: recover_step_def recoverWatcher_def split: option.splits sum.splits dest!: reconcile_holds [rotated])

lemma run_step_holds:
  assumes "holds n" "run_step E sched i n w = Some (out, n', w')" shows "holds n'"
proof -
  have "holds n'" if "receive_step E sched m n w = Some (out, n', w')" for m
    using assms(1) that
    by (auto simp: receive_step_def split: chan.splits option.splits sum.splits if_splits
        dest!: handleEvent_holds [rotated] recover_step_holds [rotated])
  then show ?thesis using assms
    by (cases i) (auto simp: run_step_def split: option.splits prod.splits intro: fading cleanup_holds)
qed

lemma restoreCheckpoint_holds:
  assumes "holds n" "restoreCheckpoint E n w = Some (b, n', w')" shows "holds n'"
proof (cases "fst (loadCheckpoint (e_json E) (e_ck E) (n_checkpointFile n) (TopKCapacity (n_policy n)) w)")
  case (Inr x)
  show ?thesis
  proof (cases x)
    case (Some items)
    obtain w1 where l: "loadCheckpoint (e_json E) (e_ck E) (n_checkpointFile n) (TopKCapacity (n_policy n)) w = (Inr (Some items), w1)"
      using Inr Some by (metis prod.collapse)
    then have ok: "\<forall>it \<in> set items. item_ok it"
      by (auto simp: loadCheckpoint_def check_checkpoint_def list_all_iff split: sum.splits prod.splits option.splits if_splits)
    obtain ex w2 where ex: "existing_items (e_sys E) (n_cache n) items w1 = (ex, w2)" by fastforce
    then have "\<forall>it \<in> set ex. item_ok it" using ok existing_items_sub [OF ex] by blast
    then show ?thesis using l ex assms restore [of "n_heavykeeper n" ex]
      by (auto simp: restoreCheckpoint_def)
  qed (use assms Inr in \<open>auto simp: restoreCheckpoint_def split: prod.splits\<close>)
qed (use assms in \<open>auto simp: restoreCheckpoint_def split: prod.splits\<close>)

lemma run_start_holds: "holds n \<Longrightarrow> run_start E sched n w = Some (r, n', w') \<Longrightarrow> holds n'"
  by (auto simp: run_start_def split: option.splits sum.splits prod.splits if_splits
      dest!: restoreCheckpoint_holds [rotated] reconcile_holds [rotated])

lemma reachable_holds: "reachable (loop_step E) (\<lambda>_. True) goes_on s0 s \<Longrightarrow> holds (fst s0) \<Longrightarrow> holds (fst s)"
proof (induction rule: reachable.induct)
  case (there s i out s')
  then show ?case using run_step_holds [of "fst s" "fst i" "snd i" "snd s" out "fst s'" "snd s'"] by (simp add: loop_step_def)
qed

end

section \<open>Hot keys are valid\<close>

text \<open>What \<open>loadCheckpoint\<close> asks of a stored item.\<close>

abbreviation hot_item :: "string \<Rightarrow> u32 \<Rightarrow> bool" where
  "hot_item key c \<equiv> (\<exists>kind. ParseKey key = Inr kind) \<and> c \<noteq> 0"

definition hot_valid :: "HeavyKeeper \<Rightarrow> bool" where
  "hot_valid tk \<longleftrightarrow> hk_inv tk \<and> hk_width tk \<noteq> 0 \<and> hk_minCount tk \<noteq> 0 \<and> all_entries hot_item (hk_hot tk)"

lemma admitted_reaches: "admit_spec cap mn m key mx out m' \<Longrightarrow> m' \<noteq> m \<Longrightarrow> mn \<le> mx"
  by (auto simp: admit_spec_def split: if_splits)

lemma hot_valid_add:
  assumes "hot_valid tk" "ParseKey key = Inr kind" "hk_add E tk key c = Some (out, tk')"
  shows "hot_valid tk'"
proof -
  have tk: "hk_inv tk" "hk_width tk \<noteq> 0" "hk_minCount tk \<noteq> 0" "all_entries hot_item (hk_hot tk)"
    using assms(1) by (simp_all add: hot_valid_def)
  obtain mx where a: "hk_inv tk'" "hk_config tk' = hk_config tk"
    "admit_spec (hk_k tk) (hk_minCount tk) (hk_hot tk) key mx out (hk_hot tk')"
    using hk_add_total [OF tk(1,2), of E key c] assms(3) by auto
  have "all_entries hot_item (hk_hot tk')"
  proof (cases "hk_hot tk' = hk_hot tk")
    case False
    then have "mx \<noteq> 0" using admitted_reaches [OF a(3)] tk(3) by auto
    then show ?thesis using admit_spec_entries [OF a(3) tk(4)] assms(2) by blast
  qed (use tk(4) in simp)
  then show ?thesis using a tk by (simp add: hot_valid_def hk_config_def)
qed

lemma hot_valid_reset: "hot_valid tk \<Longrightarrow> hot_valid (hk_reset tk)"
  using hk_reset_ok(1,2,5) [of tk] by (auto simp: hot_valid_def hk_config_def all_entries_def)

lemma hot_valid_restore_loop:
  "hot_valid tk \<Longrightarrow> \<forall>it \<in> set items. item_ok it \<Longrightarrow> restore_loop E tk items = Some tk' \<Longrightarrow> hot_valid tk'"
proof (induction items arbitrary: tk)
  case (Cons it items)
  then obtain kind where "ParseKey (item_Key it) = Inr kind" by (auto simp: item_ok_def)
  then show ?case using Cons hot_valid_add [OF Cons.prems(1), of "item_Key it" kind E "item_Count it"]
    by (auto split: if_splits option.splits)
qed simp

interpretation valid_heat: estimator_invariant E hot_valid for E :: "'w env"
proof
  fix tk tk' key assume v: "hot_valid tk" "hk_Remove tk key = Some tk'"
  then show "hot_valid tk'" using hk_Remove_ok [of tk key]
    by (auto simp: hot_valid_def hk_config_def all_entries_def)
next
  fix tk tk' assume v: "hot_valid tk" "hk_Fading tk = Some tk'"
  then show "hot_valid tk'" using hk_Fading_ok [of tk]
    by (fastforce simp: hot_valid_def hk_config_def all_entries_def drop_zero_counts_def split: option.splits if_splits)
qed (auto intro: hot_valid_add hot_valid_reset hot_valid_restore_loop simp: hk_Restore_def)

lemma New_heat:
  assumes "New E config w = (Inr n, w')"
  shows "hot_valid (n_heavykeeper n)" "n_policy n = cfg_Policy config" "n_checkpointFile n = cfg_CheckpointFile config"
    "hk_config (n_heavykeeper n) = hk_config (NewHeavyKeeper (e_hk E) (TopKCapacity (cfg_Policy config))
       (TopKWidth (cfg_Policy config)) (TopKDepth (cfg_Policy config)) (TopKDecay (cfg_Policy config)) (TopKMinCount (cfg_Policy config)))"
proof -
  let ?p = "cfg_Policy config"
  have n: "n_heavykeeper n = NewHeavyKeeper (e_hk E) (TopKCapacity ?p) (TopKWidth ?p) (TopKDepth ?p) (TopKDecay ?p) (TopKMinCount ?p)"
    "n_checkpointFile n = cfg_CheckpointFile config" "Validate ?p = None"
    using assms by (auto simp: New_def Let_def split: option.splits if_splits sum.splits prod.splits)
  have "TopKMinCount ?p \<noteq> 0" using n(3) by (rule ValidateD)
  then have "hk_minCount (n_heavykeeper n) \<noteq> 0" by (simp add: n(1) NewHeavyKeeper_def)
  moreover have "hk_hot (n_heavykeeper n) = Map.empty" using n(1) heap_inv_NewHeap(2) by (simp add: NewHeavyKeeper_def)
  ultimately show "hot_valid (n_heavykeeper n)" using New_ok [OF assms] by (simp add: hot_valid_def notify_ok_def all_entries_def)
  show "n_policy n = ?p" using New_ok [OF assms] by simp
qed (use assms in \<open>auto simp: New_def Let_def split: option.splits if_splits sum.splits prod.splits\<close>)

section \<open>Saving and restoring\<close>

text \<open>Which of the items still have a file: the answers of \<open>Snapshot\<close>, one per item.\<close>

text \<open>The keys for which \<open>Snapshot\<close> finds a file, when it is called once for each key in order.\<close>

definition seen_keys :: "'w sys \<Rightarrow> Cache \<Rightarrow> string list \<Rightarrow> 'w \<Rightarrow> string set" where
  "seen_keys S c keys w = {key. \<exists>e. (key, Inr e) \<in> set (zip keys (snapshots S c keys w))}"

lemma filter_zip_keys:
  assumes "distinct (map item_Key items)" "length rs = length items"
  shows "map fst (filter (\<lambda>(it, r). \<not> isl r) (zip items rs)) =
    filter (\<lambda>it. \<exists>e. (item_Key it, Inr e) \<in> set (zip (map item_Key items) rs)) items"
  using assms
proof (induction items arbitrary: rs)
  case (Cons it items)
  then obtain r rs' where rs: "rs = r # rs'" "length rs' = length items" by (cases rs) auto
  have fresh: "(item_Key it, x) \<notin> set (zip (map item_Key items) rs')" for x using Cons.prems(1) by (auto dest: set_zip_leftD)
  have "filter (\<lambda>x. \<exists>e. (item_Key x, Inr e) \<in> set (zip (map item_Key (it # items)) rs)) items =
      filter (\<lambda>x. \<exists>e. (item_Key x, Inr e) \<in> set (zip (map item_Key items) rs')) items"
  proof (rule filter_cong [OF refl])
    fix x assume "x \<in> set items"
    then have "item_Key x \<noteq> item_Key it" using Cons.prems(1) by (auto simp: image_iff)
    then show "(\<exists>e. (item_Key x, Inr e) \<in> set (zip (map item_Key (it # items)) rs)) =
        (\<exists>e. (item_Key x, Inr e) \<in> set (zip (map item_Key items) rs'))" using rs(1) by simp
  qed
  then show ?case using Cons.IH [OF _ rs(2)] Cons.prems(1) rs(1) fresh by (cases r) auto
qed simp

lemma length_snapshots [simp]: "length (snapshots S c keys w) = length keys"
  by (induction keys arbitrary: w) (auto split: prod.split)

lemma existing_items_seen:
  assumes "existing_items S c items w = (ex, w')" "distinct (map item_Key items)"
  shows "ex = filter (\<lambda>it. item_Key it \<in> seen_keys S c (map item_Key items) w) items"
  using existing_items_snapshots [OF assms(1)] filter_zip_keys [OF assms(2), of "snapshots S c (map item_Key items) w"] by (simp add: seen_keys_def)

lemma separated_filter: "separated E w d (map item_Key items) \<Longrightarrow> separated E w d (map item_Key (filter Q items))"
  by (fastforce simp: separated_def distinct_map_filter)

lemma map_of_item_filter:
  "distinct (map item_Key items) \<Longrightarrow>
   map_of (item_entries (filter (\<lambda>it. Q (item_Key it) (item_Count it)) items)) =
     map_of (item_entries items) |` {key. \<exists>c. map_of (item_entries items) key = Some c \<and> Q key c}"
proof (induction items)
  case (Cons it items)
  have "map_of (item_entries items) (item_Key it) = None"
    using Cons.prems by (auto simp: map_of_eq_None_iff item_entries_def)
  then show ?case using Cons by (auto simp: item_entries_def restrict_map_def fun_eq_iff)
qed (simp add: item_entries_def)

text \<open>The items of a valid estimator pass the checks of a load.\<close>

lemma hk_List_valid:
  assumes "hot_valid tk"
  obtains items where "hk_List tk = Some items" "distinct (map item_Key items)" "map_of (item_entries items) = hk_hot tk"
    "length items \<le> unat (hk_k tk)" "list_all item_ok items" "item_Key ` set items = dom (hk_hot tk)"
proof -
  obtain items where items: "hk_List tk = Some items" "distinct (map item_Key items)" "map_of (item_entries items) = hk_hot tk"
    "length items \<le> unat (hk_k tk)" using hk_List_ok [of tk] assms by (auto simp: hot_valid_def item_entries_def)
  have "item_Key ` set items = dom (map_of (item_entries items))"
    by (simp add: dom_map_of_conv_image_fst item_entries_def image_image)
  moreover have "hk_hot tk (item_Key it) = Some (item_Count it)" if "it \<in> set items" for it
    using that items(2) unfolding items(3) [symmetric] by (intro map_of_is_SomeI) (auto simp: item_entries_def comp_def)
  then have "list_all item_ok items" using assms by (auto simp: hot_valid_def all_entries_def item_ok_def list_all_iff)
  ultimately show ?thesis using that items by simp
qed

text \<open>What \<open>encoding/json\<close> promises for a checkpoint of valid items: \<open>Encode\<close> writes one object and a newline. With or without its newline, the
  object is decoded to what was encoded and is all there is; an object that is cut off is not decoded.\<close>

definition codec_inverts :: "json \<Rightarrow> bool" where
  "codec_inverts J \<longleftrightarrow> (\<forall>stored enc k. json_Encode J stored = Some enc \<and> list_all item_ok (ck_Items stored) \<longrightarrow>
     (if length enc \<le> k + 1 then \<exists>rest. json_Decode J (take k enc) = Some (stored, rest) \<and> json_EOF J rest
      else json_Decode J (take k enc) = None))"

lemma saved_loads:
  assumes "codec_inverts J" "ck_files C files handle" "\<not> temp_name (filepath_Dir path) path"
    "saveCheckpoint J C path items t w = (Inr (), w')" "length items \<le> unat k" "list_all item_ok items"
  shows "\<exists>s. files w' path = Some s \<and> ((\<exists>e. fst (loadCheckpoint J C path k w') = Inl (Errno e)) \<or>
    (if length s \<le> 64 * 2 ^ 20 + 1 then fst (loadCheckpoint J C path k w') = Inr (Some items)
     else \<exists>e. fst (loadCheckpoint J C path k w') = Inl e))"
proof -
  let ?stored = "\<lparr>ck_Version = checkpointVersion, ck_SavedAt = t, ck_Items = items\<rparr>"
  obtain enc where enc: "json_Encode J ?stored = Some enc" "files w' path = Some enc"
    using ck_files.saveCheckpoint_files [OF assms(2,4,3)] by auto
  note dec = assms(1) [unfolded codec_inverts_def, rule_format, of ?stored enc load_limit]
  have "if length enc \<le> load_limit + 1 then check_checkpoint J k (take load_limit enc) = Inr items
      else \<exists>e. check_checkpoint J k (take load_limit enc) = Inl e"
  proof (cases "length enc \<le> load_limit + 1")
    case True
    then obtain rest where "json_Decode J (take load_limit enc) = Some (?stored, rest)" "json_EOF J rest"
      using dec enc(1) assms(6) by auto
    then have "check_checkpoint J k (take load_limit enc) = Inr items" using assms(5,6) by (simp add: check_checkpoint_def)
    then show ?thesis using True by simp
  next
    case False
    then have "json_Decode J (take load_limit enc) = None" using dec enc(1) assms(6) by auto
    then show ?thesis using False by (simp add: check_checkpoint_def)
  qed
  then have "(\<exists>e. fst (loadCheckpoint J C path k w') = Inl (Errno e)) \<or>
      (if length enc \<le> load_limit + 1 then fst (loadCheckpoint J C path k w') = Inr (Some items)
       else \<exists>e. fst (loadCheckpoint J C path k w') = Inl e)"
    using ck_files.loadCheckpoint_reads [OF assms(2) enc(2), of J k] by (auto split: if_splits)
  then show ?thesis using enc(2) by blast
qed

text \<open>Every state of the loop of a new manager has valid heat and the configuration it was made with.\<close>

lemma loop_heat:
  assumes "New E config w0 = (Inr n0, w1)" "cache_ok (n_cache n0)" "walks_end E"
    "run_start E sched n0 w1 = Some (Inr (), n1, w2)" "reachable (loop_step E) (\<lambda>_. True) goes_on (n1, w2) (n, w)"
  shows "hot_valid (n_heavykeeper n)" "n_checkpointFile n = cfg_CheckpointFile config"
    "hk_k (n_heavykeeper n) = TopKCapacity (cfg_Policy config)"
proof -
  note n0 = New_heat [OF assms(1)]
  have "notify_ok n0" using New_ok [OF assms(1)] by simp
  from run_start_ok [OF this assms(2,3), of sched w1] have "loop_inv E n0 (n1, w2)" using assms(4) by (simp add: loop_inv_def)
  from loop.reachable_inv [OF assms(5) this] have n: "same_manager n0 n" by (simp add: loop_inv_def)
  then show "n_checkpointFile n = cfg_CheckpointFile config" using n0(3) by (simp add: same_manager_def)
  have "hk_config (n_heavykeeper n) = hk_config (n_heavykeeper n0)" using n by (simp add: same_manager_def)
  then show "hk_k (n_heavykeeper n) = TopKCapacity (cfg_Policy config)"
    using n0(4) hk_new_ok(4) by (auto simp: hk_config_def [of "n_heavykeeper n"])
  show "hot_valid (n_heavykeeper n)"
    using valid_heat.reachable_holds [OF assms(5)] valid_heat.run_start_holds [OF n0(1) assms(4)] by simp
qed

text \<open>What a manager makes of the items it loads.\<close>

lemma restore_loaded:
  assumes "hot_valid (n_heavykeeper m)" "distinct (map item_Key items)" "length items \<le> unat (hk_k (n_heavykeeper m))"
    "list_all item_ok items"
    "loadCheckpoint (e_json E) (e_ck E) (n_checkpointFile m) (TopKCapacity (n_policy m)) w = (Inr (Some items), w1)"
  shows "\<exists>tk w2. restoreCheckpoint E m w = Some (True, m\<lparr>n_heavykeeper := tk\<rparr>, w2) \<and>
    dom (hk_hot tk) \<subseteq> item_Key ` set items \<and>
    (separated (e_hk E) (hk_width (n_heavykeeper m)) (unat (hk_depth (n_heavykeeper m))) (map item_Key items) \<longrightarrow>
       hk_hot tk = map_of (item_entries items) |`
         {key. \<exists>c. map_of (item_entries items) key = Some c \<and> key \<in> seen_keys (e_sys E) (n_cache m) (map item_Key items) w1 \<and>
            hk_minCount (n_heavykeeper m) \<le> c})"
proof -
  let ?tk = "n_heavykeeper m" and ?sep = "\<lambda>its. separated (e_hk E) (hk_width (n_heavykeeper m)) (unat (hk_depth (n_heavykeeper m))) (map item_Key its)"
  have inv: "hk_inv ?tk" "hk_width ?tk \<noteq> 0" using assms(1) by (simp_all add: hot_valid_def)
  obtain ex w2 where ex: "existing_items (e_sys E) (n_cache m) items w1 = (ex, w2)" by fastforce
  define seen where "seen = seen_keys (e_sys E) (n_cache m) (map item_Key items) w1"
  have seen: "ex = filter (\<lambda>it. item_Key it \<in> seen) items" unfolding seen_def by (rule existing_items_seen [OF ex assms(2)])
  obtain tk where tk: "hk_Restore (e_hk E) ?tk ex = Some tk" using hk_Restore_total [OF inv] by blast
  have "length ex \<le> unat (hk_k ?tk)" using assms(3) seen by (simp add: order.trans [OF length_filter_le])
  moreover have "\<forall>it \<in> set ex. item_Key it \<noteq> [] \<and> item_Count it \<noteq> 0" "distinct (map item_Key ex)"
    using assms(2,4) seen ParseKey_nonempty by (auto simp: list_all_iff item_ok_def distinct_map_filter)
  ultimately have "hk_hot tk = map_of (item_entries (reaching (hk_minCount ?tk) ex))" if "?sep items"
    using hk_Restore_exact [OF inv, of ex "e_hk E"] separated_filter [OF that, of "\<lambda>it. item_Key it \<in> seen", folded seen] tk by auto
  moreover have "reaching (hk_minCount ?tk) ex = filter (\<lambda>it. item_Key it \<in> seen \<and> hk_minCount ?tk \<le> item_Count it) items"
    by (simp add: seen conj_commute)
  moreover note map_of_item_filter [OF assms(2), of "\<lambda>key c. key \<in> seen \<and> hk_minCount ?tk \<le> c"]
  moreover have "dom (hk_hot tk) \<subseteq> item_Key ` set items" using hk_Restore_keys [OF tk inv] seen by auto
  moreover have "restoreCheckpoint E m w = Some (True, m\<lparr>n_heavykeeper := tk\<rparr>, w2)"
    using assms(5) ex tk by (simp add: restoreCheckpoint_def)
  ultimately show ?thesis unfolding seen_def by (intro exI [of _ tk] exI [of _ w2]) simp
qed

section \<open>Properties\<close>


text \<open>A system over the file system in memory of \<open>Checkpoint\<close>: a cache with one entry whose status never changes, an inotify
  that always succeeds, and a codec that knows one checkpoint.\<close>

definition still_sys :: "'w sys" where
  "still_sys =
     \<lparr>sys_getwd = (\<lambda>w. (Inr ''/'', w)), sys_EvalSymlinks = (\<lambda>p w. (Inr p, w)),
      sys_lstat = (\<lambda>p w. (if p = ''/cache/ac/aa/'' @ digest_a then Inr (file_stat 4 100 10)
         else if p = ''/cache'' then Inr (dir_stat 1) else Inl ENOENT, w)),
      sys_ReadDir = (\<lambda>p w. (([], None), w)), sys_open = (\<lambda>p fl w. (Inl ENOENT, w)), sys_openat = (\<lambda>f p fl w. (Inl ENOENT, w)),
      sys_fstat = (\<lambda>f w. (Inl ENOENT, w)), sys_fstatat = (\<lambda>f p w. (Inl ENOENT, w)), sys_unlinkat = (\<lambda>f p w. (Inl ENOENT, w)),
      sys_close = (\<lambda>f w. (Inr (), w)), sys_flock = (\<lambda>f l w. (Inl EAGAIN, w))\<rparr>"

definition warm_checkpoint :: checkpoint where
  "warm_checkpoint = \<lparr>ck_Version = 1, ck_SavedAt = 10 ^ 18, ck_Items = [\<lparr>item_Key = ''ac/aa/'' @ digest_a, item_Count = 1\<rparr>]\<rparr>"

definition warm_json :: json where
  "warm_json = \<lparr>json_Encode = (\<lambda>c. if c = warm_checkpoint then Some (''{}'' @ [CHR 0x0A]) else None),
     json_Decode = (\<lambda>s. if take 2 s = ''{}'' then Some (warm_checkpoint, []) else None), json_EOF = (\<lambda>s. s = [])\<rparr>"

definition restart_env :: "memory env" where
  "restart_env = \<lparr>e_sys = still_sys, e_ino = ok_ino, e_ck = memory_ck, e_json = warm_json, e_hk = length_env, e_sort = go_sort,
     e_statfs = (\<lambda>_ w. (Inl ENOENT, w)), e_now = (\<lambda>w. (10 ^ 18, w)), e_depth = PATH_MAX\<rparr>"

definition restart_config :: Config where
  "restart_config = \<lparr>cfg_CacheDir = ''/cache'', cfg_ActivityLock = ''/lock'', cfg_CheckpointFile = ''/s/hot-set.json'',
     cfg_Policy = sample_policy False\<rparr>"

definition warm_input :: "schedule \<times> input" where
  "warm_input = (([], []), Receive (EventMsg (Some \<lparr>ev_Mask = InOpen, ev_Cookie = 0, ev_Name = ''/cache/ac/aa/'' @ digest_a\<rparr>)))"

lemma restart_eval:
  "case New restart_env restart_config (empty_memory [True]) of (Inl _, _) \<Rightarrow> False | (Inr n0, w1) \<Rightarrow>
     (case run_start restart_env ([], []) n0 w1 of
        Some (Inr _, n1, w2) \<Rightarrow>
          (case loop_step restart_env warm_input (n1, w2) of
             Some (Continue, n, w) \<Rightarrow>
               (case notify_saveCheckpoint restart_env n w of Some (Inr _, w3) \<Rightarrow>
                    mm_files w3 ''/s/hot-set.json'' = Some (''{}'' @ [CHR 0x0A]) \<and> hk_Len (n_heavykeeper n) = 1 \<and> n_cache n0 = example_cache
                | _ \<Rightarrow> False)
           | _ \<Rightarrow> False)
      | _ \<Rightarrow> False)"
  by code_simp

lemma answered:
  "(case a of (Inl _, _) \<Rightarrow> False | (Inr x, w) \<Rightarrow> P x w) \<Longrightarrow> \<exists>x w. a = (Inr x, w) \<and> P x w"
  "(case b of Some (Inr _, n, v) \<Rightarrow> Q n v | _ \<Rightarrow> False) \<Longrightarrow> \<exists>n v. b = Some (Inr (), n, v) \<and> Q n v"
  "(case c of Some (Continue, n, v) \<Rightarrow> R n v | _ \<Rightarrow> False) \<Longrightarrow> \<exists>n v. c = Some (Continue, n, v) \<and> R n v"
  "(case d of Some (Inr _, v) \<Rightarrow> T v | _ \<Rightarrow> False) \<Longrightarrow> \<exists>v. d = Some (Inr (), v) \<and> T v"
  subgoal by (cases a; cases "fst a") auto
  subgoal by (cases b; cases "fst (the b)") auto
  subgoal by (cases c; cases "fst (the c)") auto
  subgoal by (cases d; cases "fst (the d)") auto
  done

lemma restart_env_ok: "walks_end restart_env" "codec_inverts (e_json restart_env)" "ck_files (e_ck restart_env) mm_files mm_handle"
proof -
  show "walks_end restart_env" by (simp add: walks_end_def restart_env_def still_sys_def bounded_reads_def)
  show "codec_inverts (e_json restart_env)" 
    by (auto simp: codec_inverts_def restart_env_def warm_json_def dest!: arg_cong [of _ _ length] split: if_splits)
  show "ck_files (e_ck restart_env) mm_files mm_handle" using mem_ck.ck_files_axioms by (simp add: restart_env_def)
qed


end
