(* ===== verification/Event_String.thy ===== *)
theory Event_String
  imports Inotify
begin

unbundle bit_operations_syntax

text \<open>
  How an event is printed: \<open>eventBits\<close> and \<open>String\<close> of \<open>src/eviction/internal/inotify/inotify_linux.go\<close>. The verb \<open>%#x\<close> of
  \<open>fmt\<close> is modelled; the quoting of the name by \<open>%q\<close>, which depends on the tables of Unicode, is an argument.

  The property: the printed names and the hexadecimal rest together are exactly the bits of the mask.
\<close>

section \<open>Printing\<close>

abbreviation InOneshot :: u32 where "InOneshot \<equiv> 0x80000000"
abbreviation InOnlydir :: u32 where "InOnlydir \<equiv> 0x1000000"

definition eventBits :: "(u32 \<times> string) list" where
  "eventBits =
     [(InAccess, ''IN_ACCESS''), (InAttrib, ''IN_ATTRIB''), (InClose, ''IN_CLOSE''), (InCloseNowrite, ''IN_CLOSE_NOWRITE''),
      (InCloseWrite, ''IN_CLOSE_WRITE''), (InCreate, ''IN_CREATE''), (InDelete, ''IN_DELETE''), (InDeleteSelf, ''IN_DELETE_SELF''),
      (InModify, ''IN_MODIFY''), (InMove, ''IN_MOVE''), (InMovedFrom, ''IN_MOVED_FROM''), (InMovedTo, ''IN_MOVED_TO''),
      (InMoveSelf, ''IN_MOVE_SELF''), (InOpen, ''IN_OPEN''), (InIsdir, ''IN_ISDIR''), (InIgnored, ''IN_IGNORED''),
      (InQOverflow, ''IN_Q_OVERFLOW''), (InUnmount, ''IN_UNMOUNT'')]"

text \<open>The loop over the table: the names taken, and what is left of the mask.\<close>

primrec take_bits :: "(u32 \<times> string) list \<Rightarrow> u32 \<Rightarrow> string \<Rightarrow> u32 \<times> string" where
  "take_bits [] m events = (m, events)"
| "take_bits (b # bs) m events =
     (if m AND fst b = fst b then take_bits bs (m AND NOT (fst b)) (events @ ''|'' @ snd b)
      else take_bits bs m events)"

definition hex_digit :: "nat \<Rightarrow> char" where
  "hex_digit d = (if d < 10 then char_of (48 + d) else char_of (87 + d))"

fun hex :: "nat \<Rightarrow> string" where
  "hex n = (if n < 16 then [hex_digit n] else hex (n div 16) @ [hex_digit (n mod 16)])"

declare hex.simps [simp del]

text \<open>The verb \<open>%#x\<close>.\<close>

definition Sprintf_x :: "u32 \<Rightarrow> string" where
  "Sprintf_x m = ''0x'' @ hex (unat m)"

definition Event_String :: "(string \<Rightarrow> string) \<Rightarrow> Event \<Rightarrow> string" where
  "Event_String quote e =
     (case take_bits eventBits (ev_Mask e) [] of
        (m, events0) \<Rightarrow>
          let events1 = (if m \<noteq> 0 then events0 @ ''|'' @ Sprintf_x m else events0);
              events2 = (if events1 \<noteq> [] then '' == '' @ tl events1 else events1)
          in quote (ev_Name e) @ '': '' @ Sprintf_x (ev_Mask e) @ events2)"

section \<open>What the names stand for\<close>

primrec bits_of :: "(u32 \<times> string) list \<Rightarrow> u32 \<Rightarrow> (u32 \<times> string) list" where
  "bits_of [] m = []"
| "bits_of (b # bs) m = (if m AND fst b = fst b then b # bits_of bs (m AND NOT (fst b)) else bits_of bs m)"

definition joined :: "(u32 \<times> string) list \<Rightarrow> u32" where
  "joined bs = foldr (\<lambda>b m. fst b OR m) bs 0"

lemma take_bits_spec:
  "take_bits bs m events = (r, s) \<Longrightarrow>
   s = events @ concat (map (\<lambda>b. ''|'' @ snd b) (bits_of bs m)) \<and> joined (bits_of bs m) OR r = m \<and> joined (bits_of bs m) AND r = 0"
proof (induction bs arbitrary: m events)
  case (Cons b bs)
  show ?case
  proof (cases "m AND fst b = fst b")
    case True
    have IH: "s = (events @ ''|'' @ snd b) @ concat (map (\<lambda>b. ''|'' @ snd b) (bits_of bs (m AND NOT (fst b))))"
      "joined (bits_of bs (m AND NOT (fst b))) OR r = m AND NOT (fst b)" "joined (bits_of bs (m AND NOT (fst b))) AND r = 0"
      using Cons.IH [of "m AND NOT (fst b)" "events @ ''|'' @ snd b"] Cons.prems True by simp_all
    let ?j = "joined (bits_of bs (m AND NOT (fst b)))"
    have "(fst b OR ?j) OR r = m" using IH(2) True by (simp add: or.assoc) (simp add: bit_eq_iff bit_simps, blast)
    moreover have "r AND fst b = 0" using IH(2) by (auto simp: bit_eq_iff bit_simps)
    then have "(fst b OR ?j) AND r = 0" using IH(3) by (auto simp: bit_eq_iff bit_simps)
    ultimately show ?thesis using True IH(1) by (simp add: joined_def)
  qed (use Cons in simp)
qed (simp add: joined_def)

lemma rest_small: "take_bits bs m events = (r, s) \<Longrightarrow> \<forall>x. r AND x = x \<longrightarrow> m AND x = x"
  using take_bits_spec [of bs m events r s] by (auto simp: bit_eq_iff bit_simps)

text \<open>An entry of the table that is left over would have been taken.\<close>

lemma take_bits_none_left:
  "take_bits bs m events = (r, s) \<Longrightarrow> b \<in> set bs \<Longrightarrow> fst b \<noteq> 0 \<Longrightarrow> r AND fst b \<noteq> fst b"
proof (induction bs arbitrary: m events)
  case (Cons c bs)
  show ?case
  proof (cases "b = c \<and> b \<notin> set bs")
    case True
    show ?thesis
    proof (cases "m AND fst b = fst b")
      case taken: True
      then have "take_bits bs (m AND NOT (fst b)) (events @ ''|'' @ snd b) = (r, s)" using Cons.prems(1) True by simp
      from rest_small [OF this] have "r AND fst b = fst b \<longrightarrow> (m AND NOT (fst b)) AND fst b = fst b" by blast
      moreover have "(m AND NOT (fst b)) AND fst b = 0" by (auto simp: bit_eq_iff bit_simps)
      ultimately show ?thesis using Cons.prems(3) by auto
    next
      case False
      then have "take_bits bs m events = (r, s)" using Cons.prems(1) True by simp
      from rest_small [OF this] show ?thesis using False by blast
    qed
  qed (use Cons in \<open>auto split: if_splits\<close>)
qed simp

section \<open>Properties\<close>

text \<open>An event is printed without losing a bit. The text is the quoted name, the mask in hexadecimal, and, when
  the mask is not zero, the names of table entries and a hexadecimal rest, separated by bars; the entries named and the rest are together exactly the bits
  of the mask, the rest shares no bit with them, and it contains no complete entry of the table.\<close>

lemma Event_String_exact:
  "\<exists>named rest. set named \<subseteq> set eventBits \<and> joined named OR rest = ev_Mask e \<and> joined named AND rest = 0 \<and>
     (\<forall>b \<in> set eventBits. rest AND fst b \<noteq> fst b) \<and>
     Event_String quote e = quote (ev_Name e) @ '': '' @ Sprintf_x (ev_Mask e) @
       (if ev_Mask e = 0 then []
        else '' == '' @ tl (concat (map (\<lambda>b. ''|'' @ snd b) named) @ (if rest = 0 then [] else ''|'' @ Sprintf_x rest)))"
proof -
  obtain r s where t: "take_bits eventBits (ev_Mask e) [] = (r, s)" by fastforce
  let ?named = "bits_of eventBits (ev_Mask e)"
  note sp = take_bits_spec [OF t]
  have "set (bits_of bs m) \<subseteq> set bs" for bs m by (induction bs arbitrary: m) auto
  from this [of eventBits "ev_Mask e"] have "set ?named \<subseteq> set eventBits" .
  moreover have "\<forall>b \<in> set eventBits. fst b \<noteq> 0" by (simp add: eventBits_def)
  then have "\<forall>b \<in> set eventBits. r AND fst b \<noteq> fst b" using take_bits_none_left [OF t] by blast
  moreover have "ev_Mask e = 0 \<longleftrightarrow> ?named = [] \<and> r = 0"
  proof
    assume z: "ev_Mask e = 0"
    then have "r = 0" using sp by (metis or_eq_0_iff)
    moreover have "bits_of eventBits 0 = []" by (simp add: eventBits_def)
    ultimately show "?named = [] \<and> r = 0" using z by simp
  next
    assume "?named = [] \<and> r = 0"
    then show "ev_Mask e = 0" using sp by (simp add: joined_def)
  qed
  ultimately show ?thesis using t sp
    by (intro exI [of _ ?named] exI [of _ r]) (cases ?named; simp add: Event_String_def Let_def)
qed

end
