(* ===== verification/Other_Platforms.thy ===== *)
theory Other_Platforms
  imports Notify_State
begin

text \<open>
  The files that take the place of the manager where the program is not built for Linux: \<open>src/eviction/notify_other.go\<close>,
  \<open>src/diskutil/delete_other.go\<close> and \<open>src/diskutil/identity_other.go\<close>. The names carry the prefix \<open>other_\<close>, since the
  functions have the names of those they replace. The lemmas show that such a build neither deletes nor becomes ready.
\<close>

datatype other_Notify = Other_Notify

definition unsupported :: goerr where
  "unsupported = ErrMsg ''Hoshino native Bazel disk-cache management requires Linux''"

definition other_New :: "Config \<Rightarrow> other_Notify result" where
  "other_New config = Inl unsupported"

definition other_Ready :: "other_Notify \<Rightarrow> bool" where
  "other_Ready n = False"

definition other_Run :: "other_Notify \<Rightarrow> 'w \<Rightarrow> unit result \<times> 'w" where
  "other_Run n w = (Inl unsupported, w)"

definition other_deleteSnapshot :: "Cache \<Rightarrow> EntryInfo \<Rightarrow> 'w \<Rightarrow> unit result \<times> 'w" where
  "other_deleteSnapshot c snapshot w =
     (Inl (ErrMsg (''secure cache deletion is supported only on Linux: '' @ ei_Key snapshot)), w)"

definition other_fileIdentity :: "filestat \<Rightarrow> (u64 \<times> u64) option" where
  "other_fileIdentity st = None"

text \<open>No call of such a build touches the system, and none succeeds.\<close>

lemma other_inert:
  "snd (other_deleteSnapshot c e w) = w \<and> isl (fst (other_deleteSnapshot c e w))"
  "snd (other_Run n w) = w \<and> isl (fst (other_Run n w)) \<and> \<not> other_Ready n" "isl (other_New config)"
  by (simp_all add: other_deleteSnapshot_def other_Run_def other_Ready_def other_New_def)

end
